theory Spec2Isabelle
  imports Main "HOL-Library.Word"
begin

unbundle bit_operations_syntax

section \<open>Common conventions\<close>

text \<open>
  The C++ sources are embedded as pure functions. A call either returns a value
  (\<open>Inr\<close>) or ends the run (\<open>Inl\<close>): \<open>OutOfRange\<close> is the \<open>std::out_of_range\<close>
  thrown by \<open>std::vector::at\<close>, \<open>LengthError\<close> the exception of a vector
  constructed with a negative size, \<open>BadDeref\<close> a read or write through a pointer
  that is null or addresses no node. The drivers install no handler, so an
  exception ends the process; no state is observed after it.

  \<open>long\<close> keys and \<open>int\<close> counters are modelled as \<open>int\<close>: keys are only
  compared and copied, the counters stay within the pool sizes. \<open>std::uintptr_t\<close>
  is a 64-bit word, \<open>std::uint32_t\<close> a 32-bit word.
\<close>

datatype error = OutOfRange | LengthError | BadDeref

type_synonym uintptr = "64 word"

text \<open>\<open>v.at(i)\<close> for an \<open>int\<close> index: a negative index converts to a huge \<open>size_t\<close> and throws.\<close>

definition at :: "'a list \<Rightarrow> int \<Rightarrow> error + 'a" where
  "at v i = (if 0 \<le> i \<and> i < int (length v) then Inr (v ! nat i) else Inl OutOfRange)"

section \<open>MemoryManager.h: the durable store (bit-mask flavour)\<close>

record 'a MemCell =
  key :: int
  item :: 'a
  validBits :: int
  insertValidFlag :: bool
  deleteValidFlag :: bool
  nxt :: uintptr

text \<open>\<open>MemCell::MemCell(void)\<close>\<close>

definition new_MemCell :: "('a::zero) MemCell" where
  "new_MemCell = \<lparr>key = 0, item = 0, validBits = 0, insertValidFlag = False,
                  deleteValidFlag = False, nxt = 0\<rparr>"

text \<open>\<open>MemCell::COPY\<close>\<close>

definition COPY :: "'a MemCell \<Rightarrow> int \<Rightarrow> 'a \<Rightarrow> int \<Rightarrow> bool \<Rightarrow> bool \<Rightarrow> uintptr \<Rightarrow> 'a MemCell" where
  "COPY c k it vb ivf dvf n =
     c\<lparr>key := k, item := it, validBits := vb, insertValidFlag := ivf,
       deleteValidFlag := dvf, nxt := n\<rparr>"

text \<open>
  \<open>MemCell::isValid\<close>. The second test is \<open>(bool) ((this->next) | 0)\<close>: the
  stored word or-ed with zero, converted to \<open>bool\<close>, that is, compared with zero.
\<close>

definition isValid :: "'a MemCell \<Rightarrow> bool" where
  "isValid c =
     (if (validBits c AND 3) \<noteq> 3 then False
      else if (nxt c OR 0) \<noteq> 0 then False
      else True)"

record 'a MemoryManager =
  numMemPoolSections :: int
  memPoolSectionSize :: int
  memPool :: "'a MemCell list list"
  freeListIndex :: "int list"

text \<open>
  \<open>MemoryManager::MemoryManager(int numIDs, int numOps)\<close>. A vector constructed with
  a negative size throws; the inner vectors are only constructed when \<open>numIDs > 0\<close>.
\<close>

definition new_MemoryManager :: "int \<Rightarrow> int \<Rightarrow> error + ('a::zero) MemoryManager" where
  "new_MemoryManager numIDs numOps =
     (if numIDs < 0 then Inl LengthError
      else if 0 < numIDs \<and> numOps < 0 then Inl LengthError
      else Inr \<lparr>numMemPoolSections = numIDs,
                memPoolSectionSize = numOps,
                memPool = replicate (nat numIDs) (replicate (nat numOps) new_MemCell),
                freeListIndex = replicate (nat numIDs) (numOps - 1)\<rparr>)"

text \<open>\<open>MemoryManager::retrieveAddress\<close>\<close>

definition retrieveAddress :: "'a MemoryManager \<Rightarrow> int \<Rightarrow> error + int" where
  "retrieveAddress m sectionID = at (freeListIndex m) sectionID"

text \<open>\<open>MemoryManager::updateAddress\<close>\<close>

definition updateAddress :: "'a MemoryManager \<Rightarrow> int \<Rightarrow> error + 'a MemoryManager" where
  "updateAddress m sectionID =
     (case at (freeListIndex m) sectionID of
        Inl e \<Rightarrow> Inl e
      | Inr v \<Rightarrow> Inr (m\<lparr>freeListIndex := (freeListIndex m)[nat sectionID := v - 1]\<rparr>))"

text \<open>\<open>MemoryManager::FLUSH\<close>\<close>

definition FLUSH ::
  "'a MemoryManager \<Rightarrow> int \<Rightarrow> 'a \<Rightarrow> int \<Rightarrow> bool \<Rightarrow> bool \<Rightarrow> uintptr \<Rightarrow> int \<Rightarrow> int
     \<Rightarrow> error + 'a MemoryManager" where
  "FLUSH m k it vb ivf dvf n durableAddressPrefix durableAddressPostfix =
     (case at (memPool m) durableAddressPrefix of
        Inl e \<Rightarrow> Inl e
      | Inr row \<Rightarrow>
          (case at row durableAddressPostfix of
             Inl e \<Rightarrow> Inl e
           | Inr c \<Rightarrow>
               Inr (m\<lparr>memPool := (memPool m)[nat durableAddressPrefix :=
                         row[nat durableAddressPostfix := COPY c k it vb ivf dvf n]]\<rparr>)))"

text \<open>
  The four output vectors and the counter of \<open>readResetMemory\<close>, threaded through
  its loops.
\<close>

record 'a scan =
  keys :: "int list"
  items :: "'a list"
  durableAddressPrefixes :: "int list"
  activeNodes :: "int list"
  count :: int

text \<open>
  The inner loop of \<open>MemoryManager::readResetMemory\<close>,
  \<open>for (int j = 0; j < this->memPoolSectionSize; i++)\<close>: its step increments the
  outer counter \<open>i\<close>, and \<open>j\<close> never changes. The loop returns the value of \<open>i\<close>
  it ends with. (The source pushes \<open>this>memPool.at(i).at(j).item\<close>, a comparison
  that is ill-typed for an integer \<open>T\<close>; the cell's item is pushed here.)
\<close>

function readReset_inner ::
  "('a::zero) MemoryManager \<Rightarrow> 'a scan \<Rightarrow> int \<Rightarrow> int \<Rightarrow> error + ('a MemoryManager \<times> 'a scan \<times> int)" where
  "readReset_inner m out i j =
     (if j < memPoolSectionSize m then
        (case at (memPool m) i of
           Inl e \<Rightarrow> Inl e
         | Inr row \<Rightarrow>
            (case at row j of
               Inl e \<Rightarrow> Inl e
             | Inr c \<Rightarrow>
                (case (if isValid c then
                         (case at (activeNodes out) i of
                            Inl e \<Rightarrow> Inl e
                          | Inr a \<Rightarrow>
                              Inr (out\<lparr>keys := keys out @ [key c],
                                       items := items out @ [item c],
                                       durableAddressPrefixes := durableAddressPrefixes out @ [i],
                                       activeNodes := (activeNodes out)[nat i := a + 1],
                                       count := count out + 1\<rparr>))
                       else Inr out) of
                   Inl e \<Rightarrow> Inl e
                 | Inr out' \<Rightarrow>
                    (case at (freeListIndex m) i of
                       Inl e \<Rightarrow> Inl e
                     | Inr f \<Rightarrow>
                         readReset_inner
                           (m\<lparr>memPool := (memPool m)[nat i := row[nat j := COPY c 0 0 0 False False 0]],
                              freeListIndex := (freeListIndex m)[nat i := f + 1]\<rparr>)
                           out' (i + 1) j))))
      else Inr (m, out, i))"
  by pat_completeness auto
termination
  by (relation "measure (\<lambda>(m, out, i, j). nat (int (length (memPool m)) - i))")
     (auto simp: at_def split: if_splits)

declare readReset_inner.simps [simp del]

lemma readReset_inner_mono:
  "readReset_inner m out i j = Inr (m', out', i') \<Longrightarrow>
     i \<le> i' \<and> numMemPoolSections m' = numMemPoolSections m"
proof (induction m out i j rule: readReset_inner.induct)
  case (1 m out i j)
  show ?case
  proof (cases "j < memPoolSectionSize m")
    case False
    with "1.prems" show ?thesis by (simp add: readReset_inner.simps)
  next
    case True
    from "1.prems" True obtain row c out1 f where
      a: "at (memPool m) i = Inr row" and b: "at row j = Inr c" and
      c: "(if isValid c then
             (case at (activeNodes out) i of
                Inl e \<Rightarrow> Inl e
              | Inr a \<Rightarrow>
                  Inr (out\<lparr>keys := keys out @ [key c],
                           items := items out @ [item c],
                           durableAddressPrefixes := durableAddressPrefixes out @ [i],
                           activeNodes := (activeNodes out)[nat i := a + 1],
                           count := count out + 1\<rparr>))
           else Inr out) = Inr out1" and
      d: "at (freeListIndex m) i = Inr f" and
      e: "readReset_inner
            (m\<lparr>memPool := (memPool m)[nat i := row[nat j := COPY c 0 0 0 False False 0]],
               freeListIndex := (freeListIndex m)[nat i := f + 1]\<rparr>)
            out1 (i + 1) j = Inr (m', out', i')"
      by (subst (asm) readReset_inner.simps) (auto split: sum.splits if_splits)
    from "1.IH"[OF True a b c d e] show ?thesis by simp
  qed
qed

text \<open>
  The outer loop, \<open>for (int i = 0; i < this->numMemPoolSections; i++)\<close>: it resumes
  from whatever value the inner loop left in \<open>i\<close>.
\<close>

function readReset_outer ::
  "('a::zero) MemoryManager \<Rightarrow> 'a scan \<Rightarrow> int \<Rightarrow> error + ('a MemoryManager \<times> 'a scan)" where
  "readReset_outer m out i =
     (if i < numMemPoolSections m then
        (case at (freeListIndex m) i of
           Inl e \<Rightarrow> Inl e
         | Inr _ \<Rightarrow>
            (case readReset_inner (m\<lparr>freeListIndex := (freeListIndex m)[nat i := 0]\<rparr>) out i 0 of
               Inl e \<Rightarrow> Inl e
             | Inr (m', out', i') \<Rightarrow> readReset_outer m' out' (i' + 1)))
      else Inr (m, out))"
  by pat_completeness auto
termination
proof (relation "measure (\<lambda>(m, out, i). nat (numMemPoolSections m - i))", goal_cases)
  case 1
  show ?case by simp
next
  case (2 m out i x2 x2a x y xa ya)
  have "readReset_inner (m\<lparr>freeListIndex := (freeListIndex m)[nat i := 0]\<rparr>) out i 0 = Inr (x, xa, ya)"
    using "2"(3,4,5) by (simp only:)
  from readReset_inner_mono[OF this]
  have "i \<le> ya" and "numMemPoolSections x = numMemPoolSections m" by simp_all
  with "2"(1) show ?case by simp
qed

declare readReset_outer.simps [simp del]

text \<open>
  \<open>MemoryManager::readResetMemory\<close>: the caller's vectors come in as they are,
  \<open>count\<close> starts at zero; the result is the returned count, the vectors and the store.
\<close>

definition readResetMemory ::
  "('a::zero) MemoryManager \<Rightarrow> int list \<Rightarrow> 'a list \<Rightarrow> int list \<Rightarrow> int list
     \<Rightarrow> error + (int \<times> 'a scan \<times> 'a MemoryManager)" where
  "readResetMemory m ks its prefixes active =
     (case readReset_outer m
             \<lparr>keys = ks, items = its, durableAddressPrefixes = prefixes,
              activeNodes = active, count = 0\<rparr> 0 of
        Inl e \<Rightarrow> Inl e
      | Inr (m', out) \<Rightarrow> Inr (count out, out, m'))"

section \<open>Nodes and the heap of the list-based sets\<close>

definition MIN_KEY :: int where "MIN_KEY = - 100000"
definition MAX_KEY :: int where "MAX_KEY = 100000"

text \<open>
  \<open>struct Node\<close> of the Sequential set; the Lock and MRLock sets declare the same
  fields and methods and add a mutex or a resource identifier. \<open>Node*\<close> values
  are 64-bit words (null is 0, the low bit is the tombstone mark); the heap maps the
  addresses returned by \<open>new Node()\<close> to the nodes stored there.
\<close>

record 'a Node =
  nkey :: int
  nitem :: 'a
  nvalidBits :: int
  nnext :: uintptr
  durableAddressPrefix :: int
  durableAddressPostfix :: int

text \<open>\<open>Node::Node(void)\<close>\<close>

definition new_Node :: "('a::zero) Node" where
  "new_Node = \<lparr>nkey = 0, nitem = 0, nvalidBits = 0, nnext = 0,
               durableAddressPrefix = - 1, durableAddressPostfix = - 1\<rparr>"

text \<open>Reading and writing through a pointer; a pointer that addresses no node is an error.\<close>

definition deref :: "(uintptr \<rightharpoonup> 'n) \<Rightarrow> uintptr \<Rightarrow> error + 'n" where
  "deref h p = (case h p of None \<Rightarrow> Inl BadDeref | Some n \<Rightarrow> Inr n)"

definition store :: "(uintptr \<rightharpoonup> 'n) \<Rightarrow> uintptr \<Rightarrow> ('n \<Rightarrow> 'n) \<Rightarrow> error + (uintptr \<rightharpoonup> 'n)" where
  "store h p f = (case h p of None \<Rightarrow> Inl BadDeref | Some n \<Rightarrow> Inr (h(p \<mapsto> f n)))"

text \<open>\<open>Node::isNextMarked\<close>, \<open>Node::getNextRef\<close>, \<open>Node::mark\<close> (on the pointer itself)\<close>

definition isNextMarked :: "('a, 'm) Node_scheme \<Rightarrow> bool" where
  "isNextMarked n = ((nnext n AND 1) \<noteq> 0)"

definition getNextRef :: "('a, 'm) Node_scheme \<Rightarrow> uintptr" where
  "getNextRef n = (nnext n AND NOT 1)"

definition mark :: "uintptr \<Rightarrow> uintptr" where
  "mark p = (p OR 1)"

text \<open>\<open>Node::flipV1\<close>, \<open>Node::makeValid\<close>\<close>

definition flipV1 :: "('a, 'm) Node_scheme \<Rightarrow> ('a, 'm) Node_scheme" where
  "flipV1 n = n\<lparr>nvalidBits := nvalidBits n OR 1\<rparr>"

definition makeValid :: "('a, 'm) Node_scheme \<Rightarrow> ('a, 'm) Node_scheme" where
  "makeValid n = n\<lparr>nvalidBits := nvalidBits n OR 2\<rparr>"

text \<open>\<open>Node::FLUSH_INSERT\<close>, \<open>Node::FLUSH_DELETE\<close>\<close>

definition FLUSH_INSERT :: "('a, 'm) Node_scheme \<Rightarrow> 'a MemoryManager \<Rightarrow> error + 'a MemoryManager" where
  "FLUSH_INSERT n m =
     FLUSH m (nkey n) (nitem n) (nvalidBits n) True False (nnext n)
       (durableAddressPrefix n) (durableAddressPostfix n)"

definition FLUSH_DELETE :: "('a, 'm) Node_scheme \<Rightarrow> 'a MemoryManager \<Rightarrow> error + 'a MemoryManager" where
  "FLUSH_DELETE n m =
     FLUSH m (nkey n) (nitem n) (nvalidBits n) True True (nnext n)
       (durableAddressPrefix n) (durableAddressPostfix n)"

section \<open>SequentialDurableSet\<close>

text \<open>
  The fields of the class; \<open>mem\<close> is the store the \<open>MemoryManager<T>*\<close> points to.
  The abort flag is only read in commented-out code and is left out.
\<close>

record 'a SequentialDurableSet =
  heap :: "uintptr \<rightharpoonup> 'a Node"
  head :: uintptr
  tail :: uintptr
  mem :: "'a MemoryManager"
  preAllocatedNodes :: "uintptr list"
  allocIndices :: int
  maxIndices :: int
  keysVolatileRecovered :: "int list"
  keysDurableRecovered :: "int list"
  sequential :: int

text \<open>
  \<open>SequentialDurableSet::SequentialDurableSet\<close>. \<open>alloc n\<close> is the address the
  \<open>n\<close>-th call of \<open>new Node()\<close> returns: the pool nodes first, then head and tail.
\<close>

definition new_SequentialDurableSet ::
  "('a::zero) MemoryManager \<Rightarrow> int \<Rightarrow> (nat \<Rightarrow> uintptr) \<Rightarrow> error + 'a SequentialDurableSet" where
  "new_SequentialDurableSet m maxWriteOps alloc =
     (if maxWriteOps < 0 then Inl LengthError
      else
        let pool = map alloc [0..<nat maxWriteOps];
            h = alloc (nat maxWriteOps);
            t = alloc (nat maxWriteOps + 1);
            hp0 = fold (\<lambda>a hp. hp(a \<mapsto> new_Node)) pool Map.empty;
            hp1 = hp0(h \<mapsto> new_Node);
            hp2 = hp1(t \<mapsto> new_Node);
            hp3 = (case hp2 h of None \<Rightarrow> hp2 | Some n \<Rightarrow> hp2(h \<mapsto> n\<lparr>nnext := t\<rparr>));
            hp4 = (case hp3 h of None \<Rightarrow> hp3 | Some n \<Rightarrow> hp3(h \<mapsto> n\<lparr>nkey := MIN_KEY\<rparr>));
            hp5 = (case hp4 t of None \<Rightarrow> hp4 | Some n \<Rightarrow> hp4(t \<mapsto> n\<lparr>nkey := MAX_KEY\<rparr>))
        in Inr \<lparr>heap = hp5, head = h, tail = t, mem = m,
                 preAllocatedNodes = pool,
                 allocIndices = maxWriteOps - 1, maxIndices = maxWriteOps,
                 keysVolatileRecovered = [], keysDurableRecovered = [],
                 sequential = 0\<rparr>)"

text \<open>\<open>SequentialDurableSet::allocFromArea\<close>; the null pointer is 0.\<close>

definition Seq_allocFromArea ::
  "'a SequentialDurableSet \<Rightarrow> error + (uintptr \<times> 'a SequentialDurableSet)" where
  "Seq_allocFromArea s =
     (case at (preAllocatedNodes s) (allocIndices s) of
        Inl e \<Rightarrow> Inl e
      | Inr newNode \<Rightarrow>
         (case retrieveAddress (mem s) (sequential s) of
            Inl e \<Rightarrow> Inl e
          | Inr durAddr \<Rightarrow>
              if durAddr = - 1 then Inr (0, s)
              else
                (case store (heap s) newNode
                        (\<lambda>n. n\<lparr>durableAddressPrefix := sequential s,
                               durableAddressPostfix := durAddr\<rparr>) of
                   Inl e \<Rightarrow> Inl e
                 | Inr hp \<Rightarrow> Inr (newNode, s\<lparr>heap := hp\<rparr>))))"

text \<open>\<open>SequentialDurableSet::updateAlloc\<close>\<close>

definition Seq_updateAlloc :: "'a SequentialDurableSet \<Rightarrow> error + 'a SequentialDurableSet" where
  "Seq_updateAlloc s =
     (case updateAddress (mem s) (sequential s) of
        Inl e \<Rightarrow> Inl e
      | Inr m \<Rightarrow> Inr (s\<lparr>allocIndices := allocIndices s - 1, mem := m\<rparr>))"

text \<open>
  The \<open>while (true)\<close> loop of \<open>SequentialDurableSet::find\<close>. It need not end on an
  arbitrary heap (a cyclic list of small keys): \<open>None\<close> is the run that never returns.
\<close>

partial_function (option) Seq_find_loop ::
  "(uintptr \<rightharpoonup> 'a Node) \<Rightarrow> int \<Rightarrow> uintptr \<Rightarrow> uintptr \<Rightarrow> (error + uintptr \<times> uintptr) option" where
  "Seq_find_loop hp k previous current =
     (case hp current of
        None \<Rightarrow> Some (Inl BadDeref)
      | Some c \<Rightarrow>
          if nkey c \<ge> k then Some (Inr (previous, current))
          else Seq_find_loop hp k current (nnext c))"

text \<open>\<open>SequentialDurableSet::find\<close>: the result is \<open>(previous, *curr)\<close>.\<close>

definition Seq_find ::
  "'a SequentialDurableSet \<Rightarrow> int \<Rightarrow> (error + uintptr \<times> uintptr) option" where
  "Seq_find s k =
     (case heap s (head s) of
        None \<Rightarrow> Some (Inl BadDeref)
      | Some hn \<Rightarrow> Seq_find_loop (heap s) k (head s) (nnext hn))"

text \<open>\<open>SequentialDurableSet::insert\<close>, after the call of \<open>find\<close>.\<close>

definition Seq_insert_at ::
  "'a SequentialDurableSet \<Rightarrow> int \<Rightarrow> 'a \<Rightarrow> uintptr \<Rightarrow> uintptr
     \<Rightarrow> error + (bool \<times> 'a SequentialDurableSet)" where
  "Seq_insert_at s k it previous current =
     (case deref (heap s) current of
        Inl e \<Rightarrow> Inl e
      | Inr c \<Rightarrow>
          if nkey c = k then Inr (False, s)
          else
            (case Seq_allocFromArea s of
               Inl e \<Rightarrow> Inl e
             | Inr (newNode, s1) \<Rightarrow>
                 if newNode = 0 then Inr (False, s1)
                 else
                   (case store (heap s1) newNode
                           (\<lambda>n. (flipV1 n)\<lparr>nkey := k, nitem := it, nnext := current\<rparr>) of
                      Inl e \<Rightarrow> Inl e
                    | Inr h2 \<Rightarrow>
                   (case store h2 previous (\<lambda>n. n\<lparr>nnext := newNode\<rparr>) of
                      Inl e \<Rightarrow> Inl e
                    | Inr h3 \<Rightarrow>
                   (case Seq_updateAlloc (s1\<lparr>heap := h3\<rparr>) of
                      Inl e \<Rightarrow> Inl e
                    | Inr s4 \<Rightarrow>
                   (case store (heap s4) newNode makeValid of
                      Inl e \<Rightarrow> Inl e
                    | Inr h5 \<Rightarrow>
                   (case deref h5 newNode of
                      Inl e \<Rightarrow> Inl e
                    | Inr n \<Rightarrow>
                   (case FLUSH_INSERT n (mem s4) of
                      Inl e \<Rightarrow> Inl e
                    | Inr m6 \<Rightarrow> Inr (True, s4\<lparr>heap := h5, mem := m6\<rparr>)))))))))"

text \<open>\<open>SequentialDurableSet::insert\<close>\<close>

definition Seq_insert ::
  "'a SequentialDurableSet \<Rightarrow> int \<Rightarrow> 'a \<Rightarrow> (error + bool \<times> 'a SequentialDurableSet) option" where
  "Seq_insert s k it =
     (case Seq_find s k of
        None \<Rightarrow> None
      | Some (Inl e) \<Rightarrow> Some (Inl e)
      | Some (Inr (previous, current)) \<Rightarrow> Some (Seq_insert_at s k it previous current))"

text \<open>The \<open>while (current->key < key)\<close> loop of \<open>SequentialDurableSet::contains\<close>.\<close>

partial_function (option) Seq_contains_loop ::
  "(uintptr \<rightharpoonup> 'a Node) \<Rightarrow> int \<Rightarrow> uintptr \<Rightarrow> (error + uintptr) option" where
  "Seq_contains_loop hp k current =
     (case hp current of
        None \<Rightarrow> Some (Inl BadDeref)
      | Some c \<Rightarrow>
          if nkey c < k then Seq_contains_loop hp k (nnext c)
          else Some (Inr current))"

text \<open>\<open>SequentialDurableSet::contains\<close>\<close>

definition Seq_contains :: "'a SequentialDurableSet \<Rightarrow> int \<Rightarrow> (error + bool) option" where
  "Seq_contains s k =
     (case heap s (head s) of
        None \<Rightarrow> Some (Inl BadDeref)
      | Some hn \<Rightarrow>
         (case Seq_contains_loop (heap s) k (nnext hn) of
            None \<Rightarrow> None
          | Some (Inl e) \<Rightarrow> Some (Inl e)
          | Some (Inr current) \<Rightarrow>
             (case heap s current of
                None \<Rightarrow> Some (Inl BadDeref)
              | Some c \<Rightarrow> if nkey c \<noteq> k then Some (Inr False) else Some (Inr True))))"

text \<open>
  \<open>SequentialDurableSet::remove\<close>, after the call of \<open>find\<close>. \<open>successor->mark()\<close>
  is a member call: on a pointer that addresses no node it is an error.
\<close>

definition Seq_remove_at ::
  "'a SequentialDurableSet \<Rightarrow> int \<Rightarrow> uintptr \<Rightarrow> uintptr
     \<Rightarrow> error + (bool \<times> 'a SequentialDurableSet)" where
  "Seq_remove_at s k previous current =
     (case deref (heap s) current of
        Inl e \<Rightarrow> Inl e
      | Inr c \<Rightarrow>
          if nkey c \<noteq> k then Inr (False, s)
          else
            let successor = nnext c in
            (case deref (heap s) successor of
               Inl e \<Rightarrow> Inl e
             | Inr _ \<Rightarrow>
            (case store (heap s) current (\<lambda>n. n\<lparr>nnext := mark successor\<rparr>) of
               Inl e \<Rightarrow> Inl e
             | Inr h1 \<Rightarrow>
            (case store h1 previous (\<lambda>n. n\<lparr>nnext := successor\<rparr>) of
               Inl e \<Rightarrow> Inl e
             | Inr h2 \<Rightarrow>
            (case deref h2 current of
               Inl e \<Rightarrow> Inl e
             | Inr n \<Rightarrow>
            (case FLUSH_DELETE n (mem s) of
               Inl e \<Rightarrow> Inl e
             | Inr m3 \<Rightarrow> Inr (True, s\<lparr>heap := h2, mem := m3\<rparr>)))))))"

text \<open>\<open>SequentialDurableSet::remove\<close>\<close>

definition Seq_remove ::
  "'a SequentialDurableSet \<Rightarrow> int \<Rightarrow> (error + bool \<times> 'a SequentialDurableSet) option" where
  "Seq_remove s k =
     (case Seq_find s k of
        None \<Rightarrow> None
      | Some (Inl e) \<Rightarrow> Some (Inl e)
      | Some (Inr (previous, current)) \<Rightarrow> Some (Seq_remove_at s k previous current))"

text \<open>
  \<open>SequentialDurableSet::printSet\<close>: the keys it prints, head first, following
  \<open>next\<close> until the null pointer.
\<close>

partial_function (option) Seq_printSet_loop ::
  "(uintptr \<rightharpoonup> 'a Node) \<Rightarrow> uintptr \<Rightarrow> int list \<Rightarrow> (error + int list) option" where
  "Seq_printSet_loop hp current printed =
     (if current \<noteq> 0 then
        (case hp current of
           None \<Rightarrow> Some (Inl BadDeref)
         | Some c \<Rightarrow> Seq_printSet_loop hp (nnext c) (printed @ [nkey c]))
      else Some (Inr printed))"

definition Seq_printSet :: "'a SequentialDurableSet \<Rightarrow> (error + int list) option" where
  "Seq_printSet s =
     (case heap s (head s) of
        None \<Rightarrow> Some (Inl BadDeref)
      | Some hn \<Rightarrow> Seq_printSet_loop (heap s) (nnext hn) [nkey hn])"

section \<open>Properties of the durable store\<close>

lemma isValid_iff: "isValid c \<longleftrightarrow> (validBits c AND 3) = 3 \<and> nxt c = 0"
  by (simp add: isValid_def)

text \<open>
  Claim C1. A cell is said to be live exactly when \<open>(validBits & 3) == 3\<close> and the low
  (tombstone) bit of its \<open>next\<close> word is clear, whatever the other bits of \<open>next\<close>.
  The code tests \<open>next | 0\<close>, so it rejects every cell whose \<open>next\<close> is not zero:
  the cell below has both validity bits set and an even \<open>next\<close>, and is not live.
\<close>

theorem isValid_rejects_untagged_next:
  "(validBits \<lparr>key = 7, item = (5::int), validBits = 3, insertValidFlag = True,
               deleteValidFlag = False, nxt = 2\<rparr> AND 3) = 3
   \<and> (nxt \<lparr>key = 7, item = (5::int), validBits = 3, insertValidFlag = True,
               deleteValidFlag = False, nxt = 2\<rparr> AND 1) = 0
   \<and> isValid \<lparr>key = 7, item = (5::int), validBits = 3, insertValidFlag = True,
               deleteValidFlag = False, nxt = 2\<rparr> = False"
  by (simp add: isValid_def)

lemma at_error: "at v i = Inl e \<Longrightarrow> e = OutOfRange"
  by (simp add: at_def split: if_splits)

lemma readReset_inner_throws:
  "j < memPoolSectionSize m \<Longrightarrow> readReset_inner m out i j = Inl OutOfRange"
proof (induction m out i j rule: readReset_inner.induct)
  case (1 m out i j)
  show ?case
    using "1.prems" "1.IH"
    by (subst readReset_inner.simps) (auto split: sum.splits dest: at_error)
qed

lemma readReset_outer_throws:
  "i < numMemPoolSections m \<Longrightarrow> 0 < memPoolSectionSize m \<Longrightarrow>
     readReset_outer m out i = Inl OutOfRange"
  by (subst readReset_outer.simps)
     (auto split: sum.splits dest: at_error simp: readReset_inner_throws)

lemma readResetMemory_throws:
  "0 < numMemPoolSections m \<Longrightarrow> 0 < memPoolSectionSize m \<Longrightarrow>
     readResetMemory m ks its prefixes active = Inl OutOfRange"
  by (simp add: readResetMemory_def readReset_outer_throws)

text \<open>
  Claim C3. \<open>readResetMemory\<close> is said to end after a linear scan that visits every
  cell once, returning the number of live cells. On the arena of one section with one
  cell the inner loop never advances \<open>j\<close>: it steps \<open>i\<close> past the last section and
  \<open>memPool.at(i)\<close> throws, so no count is returned.
\<close>

theorem readResetMemory_one_cell_throws:
  "new_MemoryManager 1 1 =
     Inr \<lparr>numMemPoolSections = 1, memPoolSectionSize = 1,
          memPool = [[new_MemCell :: int MemCell]], freeListIndex = [0]\<rparr>
   \<and> readResetMemory
        \<lparr>numMemPoolSections = 1, memPoolSectionSize = 1,
          memPool = [[new_MemCell :: int MemCell]], freeListIndex = [0]\<rparr>
        [] [] [] [0] = Inl OutOfRange"
  by (simp add: new_MemoryManager_def readResetMemory_throws)

lemma updateAddress_counts_down:
  "retrieveAddress m sectionID = Inr c \<Longrightarrow>
     \<exists>m'. updateAddress m sectionID = Inr m' \<and> retrieveAddress m' sectionID = Inr (c - 1)"
  by (auto simp: retrieveAddress_def updateAddress_def at_def split: if_splits)

section \<open>Properties of the Sequential set: allocation\<close>

lemmas Seq_eval =
  new_MemoryManager_def new_SequentialDurableSet_def Seq_insert_def Seq_find_def
  Seq_find_loop.simps new_Node_def MIN_KEY_def MAX_KEY_def Seq_insert_at_def deref_def
  Seq_allocFromArea_def at_def retrieveAddress_def store_def flipV1_def Seq_updateAlloc_def
  updateAddress_def makeValid_def FLUSH_INSERT_def FLUSH_def COPY_def new_MemCell_def
  Seq_contains_def Seq_contains_loop.simps Seq_remove_def Seq_remove_at_def FLUSH_DELETE_def
  mark_def Seq_printSet_def Seq_printSet_loop.simps

lemma store_Inr: "store h p f = Inr h' \<Longrightarrow> \<exists>n. h p = Some n \<and> h' = h(p \<mapsto> f n)"
  by (auto simp: store_def split: option.splits)

lemma Seq_allocFromArea_exhausted:
  "allocIndices s < 0 \<Longrightarrow> Seq_allocFromArea s = Inl OutOfRange"
  by (simp add: Seq_allocFromArea_def at_def)

text \<open>
  Claim C4 (counterexample). After \<open>readResetMemory\<close> the cursors are said to be 0 and
  later inserts to be issued the indices 0, 1, 2, ... upward. On the store of one
  section the scan returns with the cursor at 0; the index issued next is 0, and after
  \<open>updateAddress\<close> the cursor is -1, not 1.
\<close>

theorem cursor_counts_down_after_reset:
  "readResetMemory
     \<lparr>numMemPoolSections = 1, memPoolSectionSize = 0,
       memPool = [[] :: int MemCell list], freeListIndex = [- 1]\<rparr> [] [] [] [0]
     = Inr (0, \<lparr>keys = [], items = [], durableAddressPrefixes = [], activeNodes = [0], count = 0\<rparr>,
            \<lparr>numMemPoolSections = 1, memPoolSectionSize = 0,
             memPool = [[]], freeListIndex = [0]\<rparr>)
   \<and> retrieveAddress
        \<lparr>numMemPoolSections = 1, memPoolSectionSize = 0,
          memPool = [[] :: int MemCell list], freeListIndex = [0]\<rparr> 0 = Inr 0
   \<and> updateAddress
        \<lparr>numMemPoolSections = 1, memPoolSectionSize = 0,
          memPool = [[] :: int MemCell list], freeListIndex = [0]\<rparr> 0
       = Inr \<lparr>numMemPoolSections = 1, memPoolSectionSize = 0,
               memPool = [[]], freeListIndex = [- 1]\<rparr>
   \<and> retrieveAddress
        \<lparr>numMemPoolSections = 1, memPoolSectionSize = 0,
          memPool = [[] :: int MemCell list], freeListIndex = [- 1]\<rparr> 0 = Inr (- 1)"
  by (simp add: readResetMemory_def readReset_outer.simps readReset_inner.simps at_def
        retrieveAddress_def updateAddress_def)

text \<open>
  Claim C4 (amended). Every successful insert is issued the writer's current cursor
  value \<open>c\<close> as its cell index (the flushed cell \<open>(writer, c)\<close> holds the key) and
  leaves the cursor at \<open>c - 1\<close>: indices are issued downward, whatever set the cursor.
\<close>

theorem Seq_insert_issues_cursor_then_decrements:
  assumes "Seq_insert s k it = Some (Inr (True, s'))"
  shows "\<exists>c. retrieveAddress (mem s) (sequential s) = Inr c
           \<and> retrieveAddress (mem s') (sequential s') = Inr (c - 1)
           \<and> (\<exists>row cell. at (memPool (mem s')) (sequential s) = Inr row
                  \<and> at row c = Inr cell \<and> key cell = k)"
  using assms
  apply (simp add: Seq_insert_def Seq_insert_at_def
           split: option.splits sum.splits prod.splits if_splits)
  apply (clarsimp simp: Seq_allocFromArea_def Seq_updateAlloc_def split: sum.splits if_splits)
  apply (drule store_Inr)+
  apply (clarsimp simp: deref_def FLUSH_INSERT_def FLUSH_def updateAddress_def
           retrieveAddress_def makeValid_def flipV1_def
           split: sum.splits if_splits option.splits)
  apply (auto simp: at_def COPY_def split: if_splits)
  done

theorem Seq_insert_issues_cursor_then_decrements_witness:
  "\<exists>m s s'. new_MemoryManager 1 1 = Inr (m :: int MemoryManager)
     \<and> new_SequentialDurableSet m 1 (\<lambda>n. 16 * (of_nat n + 1)) = Inr s
     \<and> Seq_insert s 5 7 = Some (Inr (True, s'))
     \<and> retrieveAddress (mem s) (sequential s) = Inr 0
     \<and> retrieveAddress (mem s') (sequential s') = Inr (- 1)"
proof -
  have "\<exists>(m :: int MemoryManager) s s'.
          new_MemoryManager 1 1 = Inr m
          \<and> new_SequentialDurableSet m 1 (\<lambda>n. 16 * (of_nat n + 1)) = Inr s
          \<and> Seq_insert s 5 7 = Some (Inr (True, s'))
          \<and> retrieveAddress (mem s) (sequential s) = Inr 0"
    by (simp add: Seq_eval)
  then obtain m :: "int MemoryManager" and s s' where
    a: "new_MemoryManager 1 1 = Inr m" and
    b: "new_SequentialDurableSet m 1 (\<lambda>n. 16 * (of_nat n + 1)) = Inr s" and
    c: "Seq_insert s 5 7 = Some (Inr (True, s'))" and
    d: "retrieveAddress (mem s) (sequential s) = Inr 0"
    by blast
  from Seq_insert_issues_cursor_then_decrements[OF c] d
  have "retrieveAddress (mem s') (sequential s') = Inr (- 1)" by auto
  with a b c d show ?thesis by blast
qed

text \<open>
  Claim C5. An insert by a writer whose nodes and cells are all consumed is said to
  return false without an exception. After the one insert its budget allows, the set
  below has \<open>allocIndices = -1\<close> and cursor -1; the next insert reads
  \<open>preAllocatedNodes.at(-1)\<close> before it tests the cursor, and throws.
\<close>

theorem Seq_insert_exhausted_throws:
  "\<exists>m s s1. new_MemoryManager 1 1 = Inr (m :: int MemoryManager)
     \<and> new_SequentialDurableSet m 1 (\<lambda>n. 16 * (of_nat n + 1)) = Inr s
     \<and> Seq_insert s 5 7 = Some (Inr (True, s1))
     \<and> allocIndices s1 = - 1 \<and> retrieveAddress (mem s1) (sequential s1) = Inr (- 1)
     \<and> Seq_insert s1 6 7 = Some (Inl OutOfRange)"
  by (simp add: Seq_eval)

section \<open>The list invariant of the Sequential set\<close>

text \<open>
  \<open>chain hp p as q\<close>: starting at \<open>p\<close> and following \<open>next\<close>, the nodes visited
  are \<open>as\<close>, and the \<open>next\<close> of the last one is \<open>q\<close>.
\<close>

fun chain :: "(uintptr \<rightharpoonup> ('a, 'm) Node_scheme) \<Rightarrow> uintptr \<Rightarrow> uintptr list \<Rightarrow> uintptr \<Rightarrow> bool" where
  "chain hp p [] q \<longleftrightarrow> p = q"
| "chain hp p (a # as) q \<longleftrightarrow> p = a \<and> (\<exists>n. hp a = Some n \<and> chain hp (nnext n) as q)"

definition keyof :: "(uintptr \<rightharpoonup> ('a, 'm) Node_scheme) \<Rightarrow> uintptr \<Rightarrow> int" where
  "keyof hp a = (case hp a of None \<Rightarrow> 0 | Some n \<Rightarrow> nkey n)"

lemma chain_append:
  "chain hp p (xs @ ys) q \<longleftrightarrow> (\<exists>r. chain hp p xs r \<and> chain hp r ys q)"
  by (induction xs arbitrary: p) auto

lemma chain_cong:
  "(\<And>a. a \<in> set as \<Longrightarrow> hp' a = hp a) \<Longrightarrow> chain hp' p as q = chain hp p as q"
  by (induction as arbitrary: p) auto

lemma chain_dom: "chain hp p as q \<Longrightarrow> set as \<subseteq> dom hp"
  by (induction as arbitrary: p) auto

lemma chain_hd: "chain hp p (a # as) q \<Longrightarrow> p = a"
  by simp

lemma keyof_cong:
  "(\<And>a. a \<in> set as \<Longrightarrow> keyof hp' a = keyof hp a) \<Longrightarrow> map (keyof hp') as = map (keyof hp) as"
  by simp

lemma Seq_find_loop_chain:
  "chain hp p (xs @ c # ys) q \<Longrightarrow> (\<forall>a\<in>set xs. keyof hp a < k) \<Longrightarrow> k \<le> keyof hp c \<Longrightarrow>
     Seq_find_loop hp k prev p = Some (Inr (last (prev # xs), c))"
proof (induction xs arbitrary: prev p)
  case Nil
  then show ?case
    by (subst Seq_find_loop.simps) (auto simp: keyof_def)
next
  case (Cons x xs)
  from Cons.prems obtain n where n: "p = x" "hp x = Some n" "chain hp (nnext n) (xs @ c # ys) q"
    by auto
  from Cons.prems n have lt: "nkey n < k" by (auto simp: keyof_def)
  from Cons.IH[OF n(3), of x] Cons.prems
  have "Seq_find_loop hp k x (nnext n) = Some (Inr (last (x # xs), c))" by simp
  with n lt show ?case
    by (subst Seq_find_loop.simps) simp
qed

lemma Seq_find_loop_overrun:
  "chain hp p xs 0 \<Longrightarrow> (\<forall>a\<in>set xs. keyof hp a < k) \<Longrightarrow> hp 0 = None \<Longrightarrow>
     Seq_find_loop hp k prev p = Some (Inl BadDeref)"
proof (induction xs arbitrary: prev p)
  case Nil
  then show ?case by (subst Seq_find_loop.simps) simp
next
  case (Cons x xs)
  from Cons.prems obtain n where n: "p = x" "hp x = Some n" "chain hp (nnext n) xs 0"
    by auto
  from Cons.prems n have lt: "nkey n < k" by (auto simp: keyof_def)
  from Cons.IH[OF n(3), of x] Cons.prems
  have "Seq_find_loop hp k x (nnext n) = Some (Inl BadDeref)" by simp
  with n lt show ?case
    by (subst Seq_find_loop.simps) simp
qed

lemma Seq_contains_loop_chain:
  "chain hp p (xs @ c # ys) q \<Longrightarrow> (\<forall>a\<in>set xs. keyof hp a < k) \<Longrightarrow> k \<le> keyof hp c \<Longrightarrow>
     Seq_contains_loop hp k p = Some (Inr c)"
proof (induction xs arbitrary: p)
  case Nil
  then show ?case
    by (subst Seq_contains_loop.simps) (auto simp: keyof_def)
next
  case (Cons x xs)
  from Cons.prems obtain n where n: "p = x" "hp x = Some n" "chain hp (nnext n) (xs @ c # ys) q"
    by auto
  from Cons.prems n have lt: "nkey n < k" by (auto simp: keyof_def)
  from Cons.IH[OF n(3)] Cons.prems
  have "Seq_contains_loop hp k (nnext n) = Some (Inr c)" by simp
  with n lt show ?case
    by (subst Seq_contains_loop.simps) simp
qed

lemma first_at_least:
  fixes f :: "'b \<Rightarrow> int"
  assumes "ns \<noteq> []" "k \<le> f (last ns)"
  shows "\<exists>xs c ys. ns = xs @ c # ys \<and> (\<forall>a\<in>set xs. f a < k) \<and> k \<le> f c"
proof -
  from assms have "\<exists>x\<in>set ns. k \<le> f x" using last_in_set by blast
  from split_list_first_prop[OF this] show ?thesis by (simp add: not_le) blast
qed

lemma Seq_printSet_loop_chain:
  "chain hp p xs 0 \<Longrightarrow> 0 \<notin> set xs \<Longrightarrow>
     Seq_printSet_loop hp p printed = Some (Inr (printed @ map (keyof hp) xs))"
proof (induction xs arbitrary: p printed)
  case Nil
  then show ?case by (subst Seq_printSet_loop.simps) simp
next
  case (Cons x xs)
  from Cons.prems obtain n where n: "p = x" "hp x = Some n" "chain hp (nnext n) xs 0" "x \<noteq> 0"
    by auto
  from Cons.IH[OF n(3), of "printed @ [nkey n]"] Cons.prems
  have "Seq_printSet_loop hp (nnext n) (printed @ [nkey n])
          = Some (Inr ((printed @ [nkey n]) @ map (keyof hp) xs))" by simp
  with n show ?case
    by (subst Seq_printSet_loop.simps) (simp add: keyof_def)
qed


definition valid_alloc :: "(nat \<Rightarrow> uintptr) \<Rightarrow> nat \<Rightarrow> bool" where
  "valid_alloc alloc n \<longleftrightarrow>
     distinct (map alloc [0..<n]) \<and> (\<forall>i\<in>set [0..<n]. alloc i \<noteq> 0 \<and> (alloc i AND 1) = 0)"

definition Seq_inv :: "(int \<Rightarrow> bool) \<Rightarrow> 'a SequentialDurableSet \<Rightarrow> uintptr list \<Rightarrow> bool" where
  "Seq_inv P s ns \<longleftrightarrow>
     ns \<noteq> [] \<and> last ns = tail s
   \<and> chain (heap s) (head s) (head s # ns) 0
   \<and> distinct (head s # ns)
   \<and> heap s 0 = None
   \<and> keyof (heap s) (head s) = MIN_KEY
   \<and> keyof (heap s) (tail s) = MAX_KEY
   \<and> sorted_wrt (<) (map (keyof (heap s)) ns)
   \<and> (\<forall>a\<in>set (butlast ns). P (keyof (heap s) a))
   \<and> - 1 \<le> allocIndices s \<and> allocIndices s < int (length (preAllocatedNodes s))
   \<and> distinct (take (nat (allocIndices s + 1)) (preAllocatedNodes s))
   \<and> set (take (nat (allocIndices s + 1)) (preAllocatedNodes s)) \<inter> set (head s # ns) = {}
   \<and> set (take (nat (allocIndices s + 1)) (preAllocatedNodes s)) \<subseteq> dom (heap s)"

lemma fold_upd_apply:
  "fold (\<lambda>a hp. hp(a \<mapsto> v)) xs h0 a = (if a \<in> set xs then Some v else h0 a)"
  by (induction xs arbitrary: h0) auto

lemma Seq_fresh_inv:
  assumes "new_SequentialDurableSet m maxWriteOps alloc = Inr s"
    and "valid_alloc alloc (nat maxWriteOps + 2)"
  shows "Seq_inv P s [tail s]"
proof -
  let ?N = "nat maxWriteOps"
  from assms(1) have n0: "0 \<le> maxWriteOps"
    by (auto simp: new_SequentialDurableSet_def split: if_splits)
  have upt: "[0..<?N + 2] = [0..<?N] @ [?N, ?N + 1]" by simp
  from assms(2) have d: "distinct (map alloc [0..<?N])" "alloc ?N \<notin> set (map alloc [0..<?N])"
    "alloc (?N + 1) \<notin> set (map alloc [0..<?N])" "alloc ?N \<noteq> alloc (?N + 1)"
    "alloc ?N \<noteq> 0" "alloc (?N + 1) \<noteq> 0" "0 \<notin> set (map alloc [0..<?N])"
    unfolding valid_alloc_def upt by auto
  from assms(1) n0 have s: "s = \<lparr>heap = (fold (\<lambda>a hp. hp(a \<mapsto> new_Node)) (map alloc [0..<?N]) Map.empty)
        (alloc ?N \<mapsto> new_Node\<lparr>nnext := alloc (?N + 1), nkey := MIN_KEY\<rparr>,
         alloc (?N + 1) \<mapsto> new_Node\<lparr>nkey := MAX_KEY\<rparr>),
      head = alloc ?N, tail = alloc (?N + 1), mem = m,
      preAllocatedNodes = map alloc [0..<?N],
      allocIndices = maxWriteOps - 1, maxIndices = maxWriteOps,
      keysVolatileRecovered = [], keysDurableRecovered = [], sequential = 0\<rparr>"
    using d(4) by (simp add: new_SequentialDurableSet_def Let_def)
  have tk: "take (nat (maxWriteOps - 1 + 1)) (map alloc [0..<?N]) = map alloc [0..<?N]"
    by simp
  show ?thesis
    unfolding Seq_inv_def s using d n0
    by (auto simp: keyof_def new_Node_def fold_upd_apply tk simp del: upt_Suc)
qed

lemma sorted_wrt_last_max:
  fixes f :: "'b \<Rightarrow> int"
  shows "sorted_wrt (<) (map f ns) \<Longrightarrow> a \<in> set ns \<Longrightarrow> f a \<le> f (last ns)"
proof (induction ns)
  case Nil
  then show ?case by simp
next
  case (Cons x xs)
  then show ?case by (cases "xs = []") (auto simp: less_imp_le)
qed

lemma Seq_find_inv:
  assumes "Seq_inv P s ns"
  shows "(MAX_KEY < k \<longrightarrow> Seq_find s k = Some (Inl BadDeref))
       \<and> (k \<le> MAX_KEY \<longrightarrow> (\<exists>xs c ys. ns = xs @ c # ys \<and> (\<forall>a\<in>set xs. keyof (heap s) a < k)
              \<and> k \<le> keyof (heap s) c \<and> Seq_find s k = Some (Inr (last (head s # xs), c))))"
proof -
  from assms obtain hn where hn: "heap s (head s) = Some hn" "chain (heap s) (nnext hn) ns 0"
    by (auto simp: Seq_inv_def)
  from assms have ne: "ns \<noteq> []" and lst: "keyof (heap s) (last ns) = MAX_KEY"
    and srt: "sorted_wrt (<) (map (keyof (heap s)) ns)" and z: "heap s 0 = None"
    by (auto simp: Seq_inv_def)
  show ?thesis
  proof (intro conjI impI)
    assume "MAX_KEY < k"
    with sorted_wrt_last_max[OF srt] lst have "\<forall>a\<in>set ns. keyof (heap s) a < k" by fastforce
    from Seq_find_loop_overrun[OF hn(2) this z] hn(1)
    show "Seq_find s k = Some (Inl BadDeref)" by (simp add: Seq_find_def)
  next
    assume "k \<le> MAX_KEY"
    with lst have "k \<le> keyof (heap s) (last ns)" by simp
    from first_at_least[of ns k "keyof (heap s)", OF ne this] obtain xs c ys where
      d: "ns = xs @ c # ys" "\<forall>a\<in>set xs. keyof (heap s) a < k" "k \<le> keyof (heap s) c" by blast
    from hn(2) d(1) have "chain (heap s) (nnext hn) (xs @ c # ys) 0" by simp
    from Seq_find_loop_chain[OF this d(2,3)] hn(1)
    have "Seq_find s k = Some (Inr (last (head s # xs), c))" by (simp add: Seq_find_def)
    with d show "\<exists>xs c ys. ns = xs @ c # ys \<and> (\<forall>a\<in>set xs. keyof (heap s) a < k)
              \<and> k \<le> keyof (heap s) c \<and> Seq_find s k = Some (Inr (last (head s # xs), c))"
      by blast
  qed
qed

lemma Seq_insert_at_False:
  "Seq_insert_at s k it prev c = Inr (False, s') \<Longrightarrow> heap s 0 = None \<Longrightarrow> s' = s"
  by (auto simp: Seq_insert_at_def Seq_allocFromArea_def store_def
           split: sum.splits if_splits option.splits prod.splits)

lemma Seq_insert_at_True:
  assumes "Seq_insert_at s k it prev c = Inr (True, s')"
    and "at (preAllocatedNodes s) (allocIndices s) = Inr nn"
    and "nn \<noteq> prev" and "heap s prev = Some pn"
  shows "\<exists>N. heap s' = (heap s)(nn \<mapsto> N, prev \<mapsto> pn\<lparr>nnext := nn\<rparr>) \<and> nkey N = k \<and> nnext N = c
           \<and> heap s nn \<noteq> None \<and> keyof (heap s) c \<noteq> k
           \<and> head s' = head s \<and> tail s' = tail s \<and> preAllocatedNodes s' = preAllocatedNodes s
           \<and> allocIndices s' = allocIndices s - 1"
  using assms
  apply (simp add: Seq_insert_at_def split: sum.splits prod.splits if_splits)
  apply (clarsimp simp: Seq_allocFromArea_def Seq_updateAlloc_def split: sum.splits if_splits)
  apply (drule store_Inr)+
  apply (clarsimp simp: deref_def makeValid_def flipV1_def keyof_def split: option.splits if_splits)
  apply (auto simp: fun_upd_twist)
  done

lemma Seq_insert_at_True_at:
  "Seq_insert_at s k it prev c = Inr (True, s') \<Longrightarrow>
     \<exists>nn. at (preAllocatedNodes s) (allocIndices s) = Inr nn"
  by (auto simp: Seq_insert_at_def Seq_allocFromArea_def split: sum.splits prod.splits if_splits)

lemma Seq_remove_at_False:
  "Seq_remove_at s k prev c = Inr (False, s') \<Longrightarrow> s' = s"
  by (auto simp: Seq_remove_at_def Let_def split: sum.splits if_splits)

lemma Seq_remove_at_True:
  assumes "Seq_remove_at s k prev c = Inr (True, s')"
    and "heap s c = Some cn" and "prev \<noteq> c" and "heap s prev = Some pn"
  shows "heap s' = (heap s)(c \<mapsto> cn\<lparr>nnext := mark (nnext cn)\<rparr>, prev \<mapsto> pn\<lparr>nnext := nnext cn\<rparr>)
           \<and> nkey cn = k \<and> heap s (nnext cn) \<noteq> None
           \<and> head s' = head s \<and> tail s' = tail s \<and> preAllocatedNodes s' = preAllocatedNodes s
           \<and> allocIndices s' = allocIndices s"
  using assms
  apply (simp add: Seq_remove_at_def Let_def deref_def split: sum.splits if_splits option.splits)
  apply (drule store_Inr)+
  apply (auto simp: deref_def split: option.splits if_splits)
  done


lemma chain_split_at:
  "chain hp p (zs @ a # rest) q \<longleftrightarrow>
     chain hp p zs a \<and> (\<exists>n. hp a = Some n \<and> chain hp (nnext n) rest q)"
  by (auto simp: chain_append)

lemma keyof_upd: "keyof (hp(a \<mapsto> n)) b = (if b = a then nkey n else keyof hp b)"
  by (simp add: keyof_def)

lemma at_Inr: "at v i = Inr x \<Longrightarrow> 0 \<le> i \<and> i < int (length v) \<and> x = v ! nat i"
  by (auto simp: at_def split: if_splits)

lemma Seq_insert_inv:
  assumes inv: "Seq_inv P s ns" and ins: "Seq_insert s k it = Some (Inr (b, s'))" and pk: "P k"
  shows "\<exists>ns'. Seq_inv P s' ns' \<and> (b \<longrightarrow> k \<in> keyof (heap s') ` set ns')"
proof -
  let ?hp = "heap s" and ?h = "head s" and ?pool = "preAllocatedNodes s" and ?ai = "allocIndices s"
  from Seq_find_inv[OF inv, of k] ins have le: "k \<le> MAX_KEY"
    by (cases "k \<le> MAX_KEY") (auto simp: Seq_insert_def)
  with Seq_find_inv[OF inv, of k] obtain xs c ys where
    d: "ns = xs @ c # ys" "\<forall>a\<in>set xs. keyof ?hp a < k" "k \<le> keyof ?hp c"
       "Seq_find s k = Some (Inr (last (?h # xs), c))" by blast
  define prev where "prev = last (?h # xs)"
  from ins d(4) have at: "Seq_insert_at s k it prev c = Inr (b, s')"
    by (simp add: Seq_insert_def prev_def)
  from inv have z: "?hp 0 = None" by (simp add: Seq_inv_def)
  show ?thesis
  proof (cases b)
    case False
    with at have "Seq_insert_at s k it prev c = Inr (False, s')" by simp
    from Seq_insert_at_False[OF this z] have "s' = s" .
    with inv False show ?thesis by blast
  next
    case True
    with at have atT: "Seq_insert_at s k it prev c = Inr (True, s')" by simp
    from Seq_insert_at_True_at[OF atT] obtain nn where nn: "at ?pool ?ai = Inr nn" by blast
    from at_Inr[OF nn] have ai: "0 \<le> ?ai" "?ai < int (length ?pool)" "nn = ?pool ! nat ?ai" by auto
    have tk: "take (nat (?ai + 1)) ?pool = take (nat ?ai) ?pool @ [nn]"
      using ai by (simp add: nat_add_distrib take_Suc_conv_app_nth)
    from inv tk have fresh: "nn \<notin> set (?h # ns)" "nn \<in> dom ?hp" "nn \<notin> set (take (nat ?ai) ?pool)"
      "distinct (take (nat ?ai) ?pool)" "set (take (nat ?ai) ?pool) \<inter> set (?h # ns) = {}"
      "set (take (nat ?ai) ?pool) \<subseteq> dom ?hp"
      by (auto simp: Seq_inv_def)
    from inv have ch: "chain ?hp ?h (?h # ns) 0" and dist: "distinct (?h # ns)"
      by (auto simp: Seq_inv_def)
    obtain pre where pre: "?h # xs = pre @ [prev]"
      unfolding prev_def by (metis append_butlast_last_id list.distinct(1))
    have full: "?h # ns = pre @ prev # c # ys" using pre d(1) by simp
    from ch have ch': "chain ?hp ?h (pre @ prev # c # ys) 0" by (simp only: full)
    then obtain pn cn where
      c1: "chain ?hp ?h pre prev" and pn: "?hp prev = Some pn" and pc: "nnext pn = c" and
      cn: "?hp c = Some cn" and c2: "chain ?hp (nnext cn) ys 0"
      by (auto simp: chain_split_at)
    have prev_in: "prev \<in> set (?h # ns)" using full by simp
    with fresh have np: "nn \<noteq> prev" by auto
    from Seq_insert_at_True[OF atT nn np pn] obtain N where
      N: "heap s' = ?hp(nn \<mapsto> N, prev \<mapsto> pn\<lparr>nnext := nn\<rparr>)" "nkey N = k" "nnext N = c"
         "keyof ?hp c \<noteq> k"
         "head s' = ?h" "tail s' = tail s" "preAllocatedNodes s' = ?pool"
         "allocIndices s' = ?ai - 1" by blast
    let ?hp' = "heap s'"
    have key': "\<And>a. keyof ?hp' a = (if a = nn then k else keyof ?hp a)"
      using N(1,2) np pn by (auto simp: keyof_def)
    from dist full have dfull: "distinct (pre @ prev # c # ys)" by simp
    have nn_out: "nn \<notin> set pre" "nn \<notin> set ys" "nn \<noteq> c" using fresh(1) full by auto
    have u1: "\<And>a. a \<in> set pre \<Longrightarrow> ?hp' a = ?hp a"
      using dfull nn_out by (auto simp: N(1))
    have u2: "\<And>a. a \<in> set ys \<Longrightarrow> ?hp' a = ?hp a"
      using dfull nn_out by (auto simp: N(1))
    have c1': "chain ?hp' ?h pre prev"
      using c1 chain_cong[of pre ?hp' ?hp, OF u1] by simp
    have c2': "chain ?hp' (nnext cn) ys 0"
      using c2 chain_cong[of ys ?hp' ?hp, OF u2] by simp
    have cn': "?hp' c = Some cn" using cn dfull nn_out by (auto simp: N(1))
    define ns' where "ns' = xs @ nn # c # ys"
    have full': "?h # ns' = pre @ prev # nn # c # ys" using pre by (simp add: ns'_def)
    have chain': "chain ?hp' ?h (?h # ns') 0"
      unfolding full' using c1' c2' cn' N(1,3) np by (simp add: chain_split_at)
    have dist': "distinct (?h # ns')"
      unfolding full' using dfull fresh(1) full by auto
    from inv d(1) have srt: "sorted_wrt (<) (map (keyof ?hp) (xs @ c # ys))" by (simp add: Seq_inv_def)
    have lt: "k < keyof ?hp c" using d(3) N(4) by simp
    have mp: "map (keyof ?hp') ns' = map (keyof ?hp) xs @ k # map (keyof ?hp) (c # ys)"
      using nn_out fresh(1) d(1) by (auto simp: ns'_def key')
    have srt': "sorted_wrt (<) (map (keyof ?hp') ns')"
      unfolding mp using srt d(2) lt by (auto simp: sorted_wrt_append)
    from inv d(1) have Pold: "\<forall>a\<in>set (butlast (xs @ c # ys)). P (keyof ?hp a)"
      by (simp add: Seq_inv_def)
    have bl: "butlast ns' = xs @ nn # butlast (c # ys)" by (simp add: ns'_def butlast_append)
    have bl0: "butlast (xs @ c # ys) = xs @ butlast (c # ys)" by (simp add: butlast_append)
    have P': "\<forall>a\<in>set (butlast ns'). P (keyof ?hp' a)"
      unfolding bl using Pold pk unfolding bl0 by (auto simp: key')
    have lst: "last ns' = tail s'" using inv d(1) N(6) by (simp add: ns'_def Seq_inv_def)
    from inv have tin: "tail s \<in> set ns" by (metis Seq_inv_def last_in_set)
    from inv have hk0: "keyof ?hp ?h = MIN_KEY" "keyof ?hp (tail s) = MAX_KEY"
      by (simp_all add: Seq_inv_def)
    have hk: "keyof ?hp' ?h = MIN_KEY" "keyof ?hp' (tail s) = MAX_KEY"
      using hk0 tin fresh(1) by (auto simp: key')
    have z': "?hp' 0 = None" using z fresh(2) pn by (auto simp: N(1))
    have dom': "dom ?hp \<subseteq> dom ?hp'" by (auto simp: N(1))
    have ta: "nat (?ai - 1 + 1) = nat ?ai" by simp
    have disj': "set (take (nat ?ai) ?pool) \<inter> set (?h # ns') = {}"
      using fresh(3,5) d(1) by (auto simp: ns'_def)
    have "Seq_inv P s' ns'"
      unfolding Seq_inv_def
      using chain' dist' srt' P' lst hk z' dom' ai fresh(4,6) disj'
      by (simp add: N(5,6,7,8) ta ns'_def)
    moreover have "k \<in> keyof ?hp' ` set ns'" by (auto simp: ns'_def key' image_iff)
    ultimately show ?thesis by blast
  qed
qed


lemma Seq_remove_inv:
  assumes inv: "Seq_inv P s ns" and rem: "Seq_remove s k = Some (Inr (b, s'))"
  shows "\<exists>ns'. Seq_inv P s' ns'"
proof -
  let ?hp = "heap s" and ?h = "head s" and ?pool = "preAllocatedNodes s" and ?ai = "allocIndices s"
  from Seq_find_inv[OF inv, of k] rem have le: "k \<le> MAX_KEY"
    by (cases "k \<le> MAX_KEY") (auto simp: Seq_remove_def)
  with Seq_find_inv[OF inv, of k] obtain xs c ys where
    d: "ns = xs @ c # ys" "\<forall>a\<in>set xs. keyof ?hp a < k" "k \<le> keyof ?hp c"
       "Seq_find s k = Some (Inr (last (?h # xs), c))" by blast
  define prev where "prev = last (?h # xs)"
  from rem d(4) have at: "Seq_remove_at s k prev c = Inr (b, s')"
    by (simp add: Seq_remove_def prev_def)
  from inv have z: "?hp 0 = None" by (simp add: Seq_inv_def)
  show ?thesis
  proof (cases b)
    case False
    with at have "Seq_remove_at s k prev c = Inr (False, s')" by simp
    from Seq_remove_at_False[OF this] have "s' = s" .
    with inv show ?thesis by blast
  next
    case True
    with at have atT: "Seq_remove_at s k prev c = Inr (True, s')" by simp
    from inv have ch: "chain ?hp ?h (?h # ns) 0" and dist: "distinct (?h # ns)"
      by (auto simp: Seq_inv_def)
    obtain pre where pre: "?h # xs = pre @ [prev]"
      unfolding prev_def by (metis append_butlast_last_id list.distinct(1))
    have full: "?h # ns = pre @ prev # c # ys" using pre d(1) by simp
    from ch have ch': "chain ?hp ?h (pre @ prev # c # ys) 0" by (simp only: full)
    then obtain pn cn where
      c1: "chain ?hp ?h pre prev" and pn: "?hp prev = Some pn" and pc: "nnext pn = c" and
      cn: "?hp c = Some cn" and c2: "chain ?hp (nnext cn) ys 0"
      by (auto simp: chain_split_at)
    from dist full have dfull: "distinct (pre @ prev # c # ys)" by simp
    then have np: "prev \<noteq> c" by auto
    from Seq_remove_at_True[OF atT cn np pn] have
      N: "heap s' = ?hp(c \<mapsto> cn\<lparr>nnext := mark (nnext cn)\<rparr>, prev \<mapsto> pn\<lparr>nnext := nnext cn\<rparr>)"
         "?hp (nnext cn) \<noteq> None"
         "head s' = ?h" "tail s' = tail s" "preAllocatedNodes s' = ?pool"
         "allocIndices s' = ?ai" by auto
    let ?hp' = "heap s'"
    from N(2) z c2 have ysne: "ys \<noteq> []" by (cases ys) auto
    have key0: "\<And>a. keyof ?hp' a = keyof ?hp a"
      using N(1) np pn cn by (auto simp: keyof_def)
    then have key': "keyof ?hp' = keyof ?hp" by (simp add: fun_eq_iff)
    have u1: "\<And>a. a \<in> set pre \<Longrightarrow> ?hp' a = ?hp a"
      using dfull by (auto simp: N(1))
    have u2: "\<And>a. a \<in> set ys \<Longrightarrow> ?hp' a = ?hp a"
      using dfull by (auto simp: N(1))
    have c1': "chain ?hp' ?h pre prev"
      using c1 chain_cong[of pre ?hp' ?hp, OF u1] by simp
    have c2': "chain ?hp' (nnext cn) ys 0"
      using c2 chain_cong[of ys ?hp' ?hp, OF u2] by simp
    define ns' where "ns' = xs @ ys"
    have full': "?h # ns' = pre @ prev # ys" using pre by (simp add: ns'_def)
    have chain': "chain ?hp' ?h (?h # ns') 0"
      unfolding full' using c1' c2' N(1) by (simp add: chain_split_at)
    have dist': "distinct (?h # ns')"
      unfolding full' using dfull by auto
    from inv d(1) have srt: "sorted_wrt (<) (map (keyof ?hp) (xs @ c # ys))" by (simp add: Seq_inv_def)
    have srt': "sorted_wrt (<) (map (keyof ?hp') ns')"
      using srt by (auto simp: ns'_def key' sorted_wrt_append)
    from inv d(1) have Pold: "\<forall>a\<in>set (butlast (xs @ c # ys)). P (keyof ?hp a)"
      by (simp add: Seq_inv_def)
    have bl: "butlast ns' = xs @ butlast ys" using ysne by (simp add: ns'_def butlast_append)
    have bl0: "butlast (xs @ c # ys) = xs @ c # butlast ys" using ysne by (simp add: butlast_append)
    have P': "\<forall>a\<in>set (butlast ns'). P (keyof ?hp' a)"
      unfolding bl using Pold unfolding bl0 by (auto simp: key')
    have lst: "last ns' = tail s'" using inv d(1) N(4) ysne by (simp add: ns'_def Seq_inv_def)
    from inv have hk: "keyof ?hp' ?h = MIN_KEY" "keyof ?hp' (tail s) = MAX_KEY"
      by (simp_all add: Seq_inv_def key')
    have z': "?hp' 0 = None" using z pn cn by (auto simp: N(1))
    have dom': "dom ?hp \<subseteq> dom ?hp'" by (auto simp: N(1))
    from inv have pl: "- 1 \<le> ?ai" "?ai < int (length ?pool)"
      "distinct (take (nat (?ai + 1)) ?pool)"
      "set (take (nat (?ai + 1)) ?pool) \<inter> set (?h # ns) = {}"
      "set (take (nat (?ai + 1)) ?pool) \<subseteq> dom ?hp"
      by (simp_all add: Seq_inv_def)
    have disj': "set (take (nat (?ai + 1)) ?pool) \<inter> set (?h # ns') = {}"
      using pl(4) d(1) by (auto simp: ns'_def)
    have "Seq_inv P s' ns'"
      unfolding Seq_inv_def
      using chain' dist' srt' P' lst hk z' dom' pl(1,2,3,5) disj' ysne
      by (simp add: N(3,4,5,6) ns'_def)
    then show ?thesis by blast
  qed
qed

lemma sorted_wrt_first_ge:
  fixes f :: "'b \<Rightarrow> int"
  assumes "sorted_wrt (<) (map f (xs @ c # ys))" "\<forall>a\<in>set xs. f a < k" "k \<le> f c"
  shows "k \<in> f ` set (xs @ c # ys) \<longleftrightarrow> f c = k"
  using assms by (fastforce simp: sorted_wrt_append)

lemma Seq_contains_inv:
  assumes inv: "Seq_inv P s ns" and le: "k \<le> MAX_KEY"
  shows "Seq_contains s k = Some (Inr (k \<in> keyof (heap s) ` set ns))"
proof -
  from inv obtain hn where hn: "heap s (head s) = Some hn" "chain (heap s) (nnext hn) ns 0"
    by (auto simp: Seq_inv_def)
  from Seq_find_inv[OF inv, of k] le obtain xs c ys where
    d: "ns = xs @ c # ys" "\<forall>a\<in>set xs. keyof (heap s) a < k" "k \<le> keyof (heap s) c" by blast
  from hn(2) d(1) have ch: "chain (heap s) (nnext hn) (xs @ c # ys) 0" by simp
  then obtain cn where cn: "heap s c = Some cn" by (auto simp: chain_split_at)
  from inv d(1) have srt: "sorted_wrt (<) (map (keyof (heap s)) (xs @ c # ys))"
    by (simp add: Seq_inv_def)
  from sorted_wrt_first_ge[OF srt d(2,3)] d(1)
  have iff: "k \<in> keyof (heap s) ` set ns \<longleftrightarrow> nkey cn = k" using cn by (simp add: keyof_def)
  from Seq_contains_loop_chain[OF ch d(2,3)] hn(1) cn iff
  show ?thesis by (auto simp: Seq_contains_def)
qed

lemma Seq_insert_present:
  assumes inv: "Seq_inv P s ns" and mem: "k \<in> keyof (heap s) ` set ns"
  shows "Seq_insert s k it = Some (Inr (False, s))"
proof -
  from inv have ne: "ns \<noteq> []" and lst: "keyof (heap s) (last ns) = MAX_KEY"
    and srt0: "sorted_wrt (<) (map (keyof (heap s)) ns)"
    by (auto simp: Seq_inv_def)
  from mem sorted_wrt_last_max[OF srt0] lst have le: "k \<le> MAX_KEY" by fastforce
  from inv obtain hn where hn: "heap s (head s) = Some hn" "chain (heap s) (nnext hn) ns 0"
    by (auto simp: Seq_inv_def)
  from Seq_find_inv[OF inv, of k] le obtain xs c ys where
    d: "ns = xs @ c # ys" "\<forall>a\<in>set xs. keyof (heap s) a < k" "k \<le> keyof (heap s) c"
       "Seq_find s k = Some (Inr (last (head s # xs), c))" by blast
  from hn(2) d(1) have ch: "chain (heap s) (nnext hn) (xs @ c # ys) 0" by simp
  then obtain cn where cn: "heap s c = Some cn" by (auto simp: chain_split_at)
  from srt0 d(1) have srt: "sorted_wrt (<) (map (keyof (heap s)) (xs @ c # ys))" by simp
  from sorted_wrt_first_ge[OF srt d(2,3)] d(1) mem
  have "nkey cn = k" using cn by (simp add: keyof_def)
  with d(4) cn show ?thesis
    by (simp add: Seq_insert_def Seq_insert_at_def deref_def)
qed

lemma Seq_printSet_inv:
  assumes inv: "Seq_inv P s ns"
  shows "Seq_printSet s = Some (Inr (MIN_KEY # map (keyof (heap s)) ns))"
proof -
  from inv obtain hn where hn: "heap s (head s) = Some hn" "chain (heap s) (nnext hn) ns 0"
    "nkey hn = MIN_KEY"
    by (auto simp: Seq_inv_def keyof_def)
  from chain_dom[OF hn(2)] inv have "0 \<notin> set ns" by (auto simp: Seq_inv_def)
  from Seq_printSet_loop_chain[OF hn(2) this, of "[nkey hn]"] hn(1,3)
  show ?thesis by (simp add: Seq_printSet_def)
qed

inductive Seq_reachable :: "(int \<Rightarrow> bool) \<Rightarrow> ('a::zero) SequentialDurableSet \<Rightarrow> bool"
  for P :: "int \<Rightarrow> bool" where
  fresh: "new_SequentialDurableSet m maxWriteOps alloc = Inr s \<Longrightarrow>
          valid_alloc alloc (nat maxWriteOps + 2) \<Longrightarrow> Seq_reachable P s"
| after_insert: "Seq_reachable P s \<Longrightarrow> P k \<Longrightarrow> Seq_insert s k it = Some (Inr (b, s')) \<Longrightarrow>
          Seq_reachable P s'"
| after_remove: "Seq_reachable P s \<Longrightarrow> Seq_remove s k = Some (Inr (b, s')) \<Longrightarrow>
          Seq_reachable P s'"

lemma Seq_reachable_inv: "Seq_reachable P s \<Longrightarrow> \<exists>ns. Seq_inv P s ns"
proof (induction rule: Seq_reachable.induct)
  case (fresh m maxWriteOps alloc s)
  from Seq_fresh_inv[OF this] show ?case by blast
next
  case (after_insert s k it b s')
  then obtain ns where "Seq_inv P s ns" by blast
  from Seq_insert_inv[OF this after_insert.hyps(3,2)] show ?case by blast
next
  case (after_remove s k b s')
  then obtain ns where "Seq_inv P s ns" by blast
  from Seq_remove_inv[OF this after_remove.hyps(2)] show ?case by blast
qed

text \<open>
  The keys printed by \<open>printSet\<close> of the Sequential set are strictly ascending, from
  \<open>MIN_KEY\<close> to \<open>MAX_KEY\<close>, when every inserted key is above \<open>MIN_KEY\<close>.
\<close>

lemma Seq_printSet_sorted:
  assumes "Seq_reachable (\<lambda>k. MIN_KEY < k) s"
  shows "\<exists>ks. Seq_printSet s = Some (Inr ks) \<and> sorted_wrt (<) ks
             \<and> hd ks = MIN_KEY \<and> last ks = MAX_KEY"
proof -
  from Seq_reachable_inv[OF assms] obtain ns where inv: "Seq_inv (\<lambda>k. MIN_KEY < k) s ns" by blast
  let ?ks = "map (keyof (heap s)) ns"
  from inv have ne: "ns \<noteq> []" and lst: "keyof (heap s) (last ns) = MAX_KEY"
    and srt: "sorted_wrt (<) ?ks" and lo: "\<forall>a\<in>set (butlast ns). MIN_KEY < keyof (heap s) a"
    by (auto simp: Seq_inv_def)
  have "\<forall>a\<in>set ns. MIN_KEY < keyof (heap s) a"
  proof
    fix a assume "a \<in> set ns"
    with ne have "a \<in> set (butlast ns) \<or> a = last ns"
      by (metis append_butlast_last_id in_set_conv_decomp rotate1.simps(2) set_ConsD set_rotate1)
    with lo lst show "MIN_KEY < keyof (heap s) a" by (auto simp: MIN_KEY_def MAX_KEY_def)
  qed
  with srt have "sorted_wrt (<) (MIN_KEY # ?ks)" by auto
  moreover have "last (MIN_KEY # ?ks) = MAX_KEY" using ne lst by (simp add: last_map)
  ultimately show ?thesis using Seq_printSet_inv[OF inv] by auto
qed

text \<open>
  Claim C7. In every reachable state of the Sequential set and for every key \<open>k\<close>:
  after an insert of \<open>k\<close> that returned true, \<open>contains(k)\<close> returns true, and a
  second insert of \<open>k\<close> returns false and leaves the whole state unchanged.
\<close>

theorem Seq_insert_then_contains:
  assumes "Seq_reachable (\<lambda>k. True) s" and "Seq_insert s k it = Some (Inr (True, s'))"
  shows "Seq_contains s' k = Some (Inr True) \<and> Seq_insert s' k it' = Some (Inr (False, s'))"
proof -
  from Seq_reachable_inv[OF assms(1)] obtain ns where inv: "Seq_inv (\<lambda>k. True) s ns" by blast
  from Seq_insert_inv[OF inv assms(2)] obtain ns' where
    inv': "Seq_inv (\<lambda>k. True) s' ns'" and mem: "k \<in> keyof (heap s') ` set ns'" by blast
  from inv' have lst: "keyof (heap s') (last ns') = MAX_KEY"
    and srt0: "sorted_wrt (<) (map (keyof (heap s')) ns')"
    by (auto simp: Seq_inv_def)
  from mem sorted_wrt_last_max[OF srt0] lst have le: "k \<le> MAX_KEY" by fastforce
  from Seq_contains_inv[OF inv' le] mem Seq_insert_present[OF inv' mem]
  show ?thesis by simp
qed

lemma Seq_contains_MAX_KEY:
  assumes "Seq_reachable (\<lambda>k. True) s"
  shows "Seq_contains s MAX_KEY = Some (Inr True)"
proof -
  from Seq_reachable_inv[OF assms] obtain ns where inv: "Seq_inv (\<lambda>k. True) s ns" by blast
  then have ne: "ns \<noteq> []" and lst: "keyof (heap s) (last ns) = MAX_KEY"
    by (simp_all add: Seq_inv_def)
  from last_in_set[OF ne] lst have "MAX_KEY \<in> keyof (heap s) ` set ns" by (metis image_eqI)
  with Seq_contains_inv[OF inv, of MAX_KEY] show ?thesis by simp
qed

lemma valid_alloc_example: "valid_alloc (\<lambda>n. 16 * of_nat n + 16) (nat 1 + 2)"
  by (simp add: valid_alloc_def numeral_3_eq_3)

theorem Seq_insert_then_contains_witness:
  "\<exists>m s s1. new_MemoryManager 1 1 = Inr (m :: int MemoryManager)
     \<and> new_SequentialDurableSet m 1 (\<lambda>n. 16 * of_nat n + 16) = Inr s
     \<and> Seq_reachable (\<lambda>k. True) s
     \<and> Seq_insert s 5 7 = Some (Inr (True, s1))
     \<and> Seq_contains s1 5 = Some (Inr True)
     \<and> Seq_insert s1 5 9 = Some (Inr (False, s1))"
proof -
  have "\<exists>(m :: int MemoryManager) s s1.
          new_MemoryManager 1 1 = Inr m
          \<and> new_SequentialDurableSet m 1 (\<lambda>n. 16 * of_nat n + 16) = Inr s
          \<and> Seq_insert s 5 7 = Some (Inr (True, s1))"
    by (simp add: Seq_eval)
  then obtain m :: "int MemoryManager" and s s1 where
    a: "new_MemoryManager 1 1 = Inr m" and
    b: "new_SequentialDurableSet m 1 (\<lambda>n. 16 * of_nat n + 16) = Inr s" and
    c: "Seq_insert s 5 7 = Some (Inr (True, s1))"
    by blast
  have r: "Seq_reachable (\<lambda>k. True) s"
    by (rule Seq_reachable.fresh[OF b]) (rule valid_alloc_example)
  from Seq_insert_then_contains[OF r c, of 9] a b c r show ?thesis by blast
qed


section \<open>MRLockDurableSet: construction\<close>

text \<open>A counted \<open>for\<close> loop whose body may throw: the indices are visited in order.\<close>

fun for_loop :: "nat list \<Rightarrow> (nat \<Rightarrow> 's \<Rightarrow> error + 's) \<Rightarrow> 's \<Rightarrow> error + 's" where
  "for_loop [] body st = Inr st"
| "for_loop (i # is) body st =
     (case body i st of Inl e \<Rightarrow> Inl e | Inr st' \<Rightarrow> for_loop is body st')"

record 'a MRNode = "'a Node" +
  resourceID :: "32 word"

definition new_MRNode :: "32 word \<Rightarrow> ('a::zero) MRNode" where
  "new_MRNode rid = \<lparr>nkey = 0, nitem = 0, nvalidBits = 0, nnext = 0,
               durableAddressPrefix = - 1, durableAddressPostfix = - 1, resourceID = rid\<rparr>"

text \<open>
  Modelled from the spec: the class \<open>MRLock\<close> of \<open>mrlock.h\<close>, which is not among the
  sources. A request is a 32-bit mask; \<open>Lock(mask)\<close> is admitted only when no held mask
  intersects it and otherwise waits (here: never returns, \<open>None\<close>), and returns a
  handle; \<open>Unlock(handle)\<close> releases the request.
\<close>

record MRLock =
  mr_size :: "32 word"
  mr_held :: "(32 word \<times> 32 word) list"
  mr_next :: "32 word"

definition new_MRLock :: "32 word \<Rightarrow> MRLock" where
  "new_MRLock n = \<lparr>mr_size = n, mr_held = [], mr_next = 0\<rparr>"

definition MRLock_Lock :: "MRLock \<Rightarrow> 32 word \<Rightarrow> (32 word \<times> MRLock) option" where
  "MRLock_Lock l req =
     (if list_ex (\<lambda>(h, m). (m AND req) \<noteq> 0) (mr_held l) then None
      else Some (mr_next l, l\<lparr>mr_held := (mr_next l, req) # mr_held l, mr_next := mr_next l + 1\<rparr>))"

definition MRLock_Unlock :: "MRLock \<Rightarrow> 32 word \<Rightarrow> MRLock" where
  "MRLock_Unlock l handle = l\<lparr>mr_held := filter (\<lambda>(h, m). h \<noteq> handle) (mr_held l)\<rparr>"

record 'a MRLockDurableSet =
  MR_heap :: "uintptr \<rightharpoonup> 'a MRNode"
  MR_head :: uintptr
  MR_tail :: uintptr
  MR_mrLock :: MRLock
  MR_mem :: "'a MemoryManager"
  MR_preAllocatedNodes :: "uintptr list list"
  MR_allocIndices :: "int list"
  MR_maxIndices :: "int list"
  MR_keysVolatileRecovered :: "int list"
  MR_keysDurableRecovered :: "int list"
  MR_numIDs :: int

text \<open>
  The local variables of the constructor's allocation loops: the heap and the pool
  vectors built so far, \<open>resourceNum\<close>, \<open>pointBit\<close>, \<open>resourceID\<close>, and the number of
  \<open>new Node\<close> calls made.
\<close>

record 'a MR_build =
  b_heap :: "uintptr \<rightharpoonup> 'a MRNode"
  b_pools :: "uintptr list list"
  b_resourceNum :: "32 word"
  b_pointBit :: "32 word"
  b_resourceID :: "32 word"
  b_news :: nat

text \<open>The body of the inner loop, for writer \<open>i\<close> and index \<open>j\<close>.\<close>

definition MR_build_node :: "(nat \<Rightarrow> uintptr) \<Rightarrow> nat \<Rightarrow> nat \<Rightarrow> ('a::zero) MR_build \<Rightarrow> error + 'a MR_build" where
  "MR_build_node alloc i j b =
     (case at (b_pools b) (int i) of
        Inl e \<Rightarrow> Inl e
      | Inr row \<Rightarrow>
         (case at row (int j) of
            Inl e \<Rightarrow> Inl e
          | Inr _ \<Rightarrow>
              let a = alloc (b_news b);
                  b1 = b\<lparr>b_heap := (b_heap b)(a \<mapsto> new_MRNode (b_resourceID b)),
                         b_pools := (b_pools b)[i := row[j := a]],
                         b_news := b_news b + 1\<rparr>;
                  b2 = b1\<lparr>b_resourceID := push_bit 1 (b_resourceID b1)\<rparr>;
                  b3 = b2\<lparr>b_pointBit := b_pointBit b2 + 1\<rparr>;
                  b4 = (if b_pointBit b3 > 31 then b3\<lparr>b_pointBit := 1, b_resourceID := 1\<rparr> else b3)
              in Inr (b4\<lparr>b_resourceNum := b_resourceNum b4 + 1\<rparr>)))"

text \<open>The body of the outer allocation loop, for writer \<open>i\<close>.\<close>

definition MR_build_section ::
  "(nat \<Rightarrow> uintptr) \<Rightarrow> int list \<Rightarrow> nat \<Rightarrow> ('a::zero) MR_build \<Rightarrow> error + 'a MR_build" where
  "MR_build_section alloc writeOpsVector i b =
     (case at (b_pools b) (int i) of
        Inl e \<Rightarrow> Inl e
      | Inr _ \<Rightarrow>
         (case at writeOpsVector (int i) of
            Inl e \<Rightarrow> Inl e
          | Inr w \<Rightarrow>
              if w < 0 then Inl LengthError
              else for_loop [0..<nat w] (MR_build_node alloc i)
                     (b\<lparr>b_pools := (b_pools b)[i := replicate (nat w) 0]\<rparr>)))"

text \<open>The first loop of the constructor: \<open>allocIndices\<close> and \<open>maxIndices\<close>.\<close>

definition set_indices :: "int list \<Rightarrow> nat \<Rightarrow> int list \<times> int list \<Rightarrow> error + int list \<times> int list" where
  "set_indices writeOpsVector i st =
     (case at (fst st) (int i) of
        Inl e \<Rightarrow> Inl e
      | Inr _ \<Rightarrow>
         (case at writeOpsVector (int i) of
            Inl e \<Rightarrow> Inl e
          | Inr w \<Rightarrow> Inr ((fst st)[i := w - 1], (snd st)[i := w])))"

text \<open>\<open>MRLockDurableSet::MRLockDurableSet\<close>\<close>

definition new_MRLockDurableSet ::
  "('a::zero) MemoryManager \<Rightarrow> int \<Rightarrow> int list \<Rightarrow> (nat \<Rightarrow> uintptr) \<Rightarrow> error + 'a MRLockDurableSet" where
  "new_MRLockDurableSet m numIDs writeOpsVector alloc =
     (if numIDs < 0 then Inl LengthError
      else
        (case for_loop [0..<nat numIDs] (set_indices writeOpsVector)
                (replicate (nat numIDs) 0, replicate (nat numIDs) 0) of
           Inl e \<Rightarrow> Inl e
         | Inr (ai, mi) \<Rightarrow>
            (case for_loop [0..<nat numIDs] (MR_build_section alloc writeOpsVector)
                    \<lparr>b_heap = Map.empty, b_pools = replicate (nat numIDs) [],
                     b_resourceNum = 3, b_pointBit = 3, b_resourceID = 4, b_news = 0\<rparr> of
               Inl e \<Rightarrow> Inl e
             | Inr b \<Rightarrow>
                 let h = alloc (b_news b);
                     t = alloc (b_news b + 1);
                     hp1 = (b_heap b)(h \<mapsto> new_MRNode 1);
                     hp2 = hp1(t \<mapsto> new_MRNode 2);
                     hp3 = (case hp2 h of None \<Rightarrow> hp2 | Some n \<Rightarrow> hp2(h \<mapsto> n\<lparr>nnext := t\<rparr>));
                     hp4 = (case hp3 h of None \<Rightarrow> hp3 | Some n \<Rightarrow> hp3(h \<mapsto> n\<lparr>nkey := MIN_KEY\<rparr>));
                     hp5 = (case hp4 t of None \<Rightarrow> hp4 | Some n \<Rightarrow> hp4(t \<mapsto> n\<lparr>nkey := MAX_KEY\<rparr>))
                 in Inr \<lparr>MR_heap = hp5, MR_head = h, MR_tail = t,
                          MR_mrLock = new_MRLock (b_resourceID b), MR_mem = m,
                          MR_preAllocatedNodes = b_pools b,
                          MR_allocIndices = ai, MR_maxIndices = mi,
                          MR_keysVolatileRecovered = [], MR_keysDurableRecovered = [],
                          MR_numIDs = numIDs\<rparr>)))"


section \<open>Resource identifiers of the MRLock set\<close>

lemmas MR_ctor_eval =
  new_MRLockDurableSet_def MR_build_section_def MR_build_node_def set_indices_def
  new_MRNode_def new_MRLock_def at_def Let_def MIN_KEY_def MAX_KEY_def new_MemoryManager_def

lemma upt_30: "[0..<30] = [0,1,2,3,4,5,6,7,8,9,10,11,12,13,14,15,16,17,18,19,20,21,22,23,24,25,26,27,28,29]"
  by code_simp

text \<open>
  Claim C9 (counterexample). Every pre-allocated node is said to receive a resource ID
  drawn from the 30 bit positions other than those of the IDs 1 and 2. With one writer
  and a budget of 30, the thirtieth node (index 29) receives the ID 1, the ID of head.
\<close>

theorem MR_thirtieth_node_shares_head_id:
  "(case new_MemoryManager 1 30 of
      Inl e \<Rightarrow> False
    | Inr m \<Rightarrow>
       (case new_MRLockDurableSet (m :: int MemoryManager) 1 [30] (\<lambda>n. 16 * of_nat n + 16) of
          Inl e \<Rightarrow> False
        | Inr s \<Rightarrow>
            map_option resourceID (MR_heap s (MR_preAllocatedNodes s ! 0 ! 29)) = Some 1
          \<and> map_option resourceID (MR_heap s (MR_head s)) = Some 1))"
  by (simp add: MR_ctor_eval upt_30)


lemma for_loop_append:
  "for_loop (xs @ ys) body st =
     (case for_loop xs body st of Inl e \<Rightarrow> Inl e | Inr st' \<Rightarrow> for_loop ys body st')"
  by (induction xs arbitrary: st) (auto split: sum.splits)

lemma for_loop_upt_inv:
  assumes "for_loop [0..<n] body st0 = Inr st" and "I 0 st0"
    and "\<And>j a b. j < n \<Longrightarrow> I j a \<Longrightarrow> body j a = Inr b \<Longrightarrow> I (Suc j) b"
  shows "I n st"
  using assms
proof (induction n arbitrary: st)
  case 0
  then show ?case by simp
next
  case (Suc n)
  from Suc.prems(1) obtain mid where
    mid: "for_loop [0..<n] body st0 = Inr mid" "body n mid = Inr st"
    by (auto simp: for_loop_append split: sum.splits)
  have "I n mid"
    by (rule Suc.IH[OF mid(1) Suc.prems(2)]) (use Suc.prems(3) in auto)
  with Suc.prems(3)[of n mid st] mid(2) show ?case by simp
qed

definition build_ok :: "(nat \<Rightarrow> uintptr) \<Rightarrow> ('a::zero) MR_build \<Rightarrow> bool" where
  "build_ok alloc b \<longleftrightarrow>
     b_pointBit b = of_nat ((b_news b + 2) mod 31 + 1)
   \<and> b_resourceID b = 2 ^ ((b_news b + 2) mod 31)
   \<and> (distinct (map alloc [0..<b_news b]) \<longrightarrow>
        (\<forall>n<b_news b. b_heap b (alloc n) = Some (new_MRNode (2 ^ ((n + 2) mod 31)))))
   \<and> dom (b_heap b) = alloc ` {..<b_news b}"

lemma unat_small32: "k < 4294967296 \<Longrightarrow> unat (of_nat k :: 32 word) = k"
  by (simp add: unat_of_nat)

lemma pointBit_step:
  fixes n :: nat
  shows "((of_nat ((n + 2) mod 31 + 1) + 1 :: 32 word) > 31) \<longleftrightarrow> (n + 2) mod 31 = 30"
proof -
  define k where "k = (n + 2) mod 31"
  have k: "k < 31" by (simp add: k_def)
  have "(of_nat (k + 1) + 1 :: 32 word) = of_nat (k + 2)" by simp
  moreover have "unat (of_nat (k + 2) :: 32 word) = k + 2"
    by (rule unat_small32) (use k in simp)
  moreover have "unat (31 :: 32 word) = 31" by simp
  ultimately have "((of_nat (k + 1) + 1 :: 32 word) > 31) \<longleftrightarrow> k + 2 > 31"
    by (simp only: word_less_nat_alt)
  with k show ?thesis unfolding k_def by auto
qed

lemma distinct_upt_Suc:
  "distinct (map alloc [0..<Suc n]) \<Longrightarrow> distinct (map alloc [0..<n]) \<and> (\<forall>x<n. alloc x \<noteq> alloc n)"
proof -
  assume "distinct (map alloc [0..<Suc n])"
  then have d: "distinct (map alloc [0..<n])" and nin: "alloc n \<notin> set (map alloc [0..<n])"
    by simp_all
  have "\<forall>x<n. alloc x \<noteq> alloc n"
  proof (intro allI impI)
    fix x assume "x < n"
    then have "alloc x \<in> set (map alloc [0..<n])" by simp
    with nin show "alloc x \<noteq> alloc n" by metis
  qed
  with d show ?thesis by simp
qed

lemma MR_build_node_Inr:
  assumes "MR_build_node alloc i j b = Inr b'"
  shows "b' = b\<lparr>b_heap := (b_heap b)(alloc (b_news b) \<mapsto> new_MRNode (b_resourceID b)),
            b_pools := (b_pools b)[i := (b_pools b ! i)[j := alloc (b_news b)]],
            b_news := Suc (b_news b),
            b_resourceID := (if b_pointBit b + 1 > 31 then 1 else push_bit 1 (b_resourceID b)),
            b_pointBit := (if b_pointBit b + 1 > 31 then 1 else b_pointBit b + 1),
            b_resourceNum := b_resourceNum b + 1\<rparr>"
  using assms
  by (auto simp: MR_build_node_def Let_def at_def split: sum.splits if_splits)

lemma heap_step:
  assumes "distinct (map alloc [0..<n]) \<longrightarrow> (\<forall>m<n. h (alloc m) = Some (f m))"
  shows "distinct (map alloc [0..<Suc n]) \<longrightarrow>
           (\<forall>m<Suc n. (h(alloc n \<mapsto> f n)) (alloc m) = Some (f m))"
proof (intro impI allI)
  fix m
  assume d: "distinct (map alloc [0..<Suc n])" and m: "m < Suc n"
  from distinct_upt_Suc[OF d] have d0: "distinct (map alloc [0..<n])"
    and ne: "\<forall>x<n. alloc x \<noteq> alloc n" by simp_all
  show "(h(alloc n \<mapsto> f n)) (alloc m) = Some (f m)"
  proof (cases "m = n")
    case True
    then show ?thesis by simp
  next
    case False
    with m have "m < n" by simp
    with assms d0 ne show ?thesis by simp
  qed
qed

lemma MR_build_node_ok:
  assumes "MR_build_node alloc i j b = Inr b'" and "build_ok alloc b"
  shows "build_ok alloc b' \<and> b_news b' = b_news b + 1
       \<and> b_pools b' = (b_pools b)[i := (b_pools b ! i)[j := alloc (b_news b)]]"
proof -
  let ?n = "b_news b"
  note b' = MR_build_node_Inr[OF assms(1)]
  from assms(2) have pb: "b_pointBit b = of_nat ((?n + 2) mod 31 + 1)"
    and rid: "b_resourceID b = 2 ^ ((?n + 2) mod 31)"
    and hp: "distinct (map alloc [0..<?n]) \<longrightarrow>
        (\<forall>m<?n. b_heap b (alloc m) = Some (new_MRNode (2 ^ ((m + 2) mod 31))))"
    and dm: "dom (b_heap b) = alloc ` {..<?n}"
    by (simp_all add: build_ok_def)
  from heap_step[OF hp] have hp': "distinct (map alloc [0..<Suc ?n]) \<longrightarrow>
      (\<forall>m<Suc ?n. ((b_heap b)(alloc ?n \<mapsto> new_MRNode (2 ^ ((?n + 2) mod 31)))) (alloc m)
          = Some (new_MRNode (2 ^ ((m + 2) mod 31))))" .
  have dm': "dom ((b_heap b)(alloc ?n \<mapsto> new_MRNode (2 ^ ((?n + 2) mod 31)))) = alloc ` {..<Suc ?n}"
    using dm by (simp add: lessThan_Suc)
  have common:
    "b_heap b' = (b_heap b)(alloc ?n \<mapsto> new_MRNode (2 ^ ((?n + 2) mod 31)))"
    "b_news b' = Suc ?n"
    "b_pools b' = (b_pools b)[i := (b_pools b ! i)[j := alloc ?n]]"
    by (subst b', simp add: rid)+
  have ids: "b_pointBit b' = of_nat ((Suc ?n + 2) mod 31 + 1)
           \<and> b_resourceID b' = 2 ^ ((Suc ?n + 2) mod 31)"
  proof (cases "(?n + 2) mod 31 = 30")
    case True
    then have m0: "(Suc ?n + 2) mod 31 = 0" by (simp add: mod_Suc)
    from True pointBit_step[of ?n] have gt: "b_pointBit b + 1 > 31" by (simp only: pb)
    have "b_pointBit b' = 1" "b_resourceID b' = 1"
      by (subst b', simp only: gt if_True, simp)+
    then show ?thesis by (simp only: m0) simp
  next
    case False
    then have m1: "(Suc ?n + 2) mod 31 = (?n + 2) mod 31 + 1" by (simp add: mod_Suc)
    from False pointBit_step[of ?n] have gt: "\<not> b_pointBit b + 1 > 31" by (simp only: pb not_False_eq_True)
    have "b_pointBit b' = b_pointBit b + 1"
      "b_resourceID b' = push_bit 1 (b_resourceID b)"
      by (subst b', simp only: gt if_False, simp)+
    then show ?thesis by (simp only: m1 pb rid) (simp add: push_bit_eq_mult)
  qed
  show ?thesis
    unfolding build_ok_def using hp' dm' ids by (simp only: common) simp
qed

lemma fill_row_step:
  assumes "j < w"
  shows "(map alloc [n0..<n0 + j] @ replicate (w - j) (0::uintptr))[j := alloc (n0 + j)]
           = map alloc [n0..<n0 + Suc j] @ replicate (w - Suc j) 0"
proof -
  from assms have "w - j = Suc (w - Suc j)" by simp
  then show ?thesis by (simp add: list_update_append)
qed

lemma MR_build_section_ok:
  assumes sec: "MR_build_section alloc ws i b = Inr b'" and ok: "build_ok alloc b"
  shows "build_ok alloc b' \<and> i < length ws \<and> 0 \<le> ws ! i \<and> i < length (b_pools b)
       \<and> b_news b' = b_news b + nat (ws ! i)
       \<and> b_pools b' = (b_pools b)[i := map alloc [b_news b..<b_news b + nat (ws ! i)]]"
proof -
  let ?w = "nat (ws ! i)" and ?n0 = "b_news b" and ?P0 = "b_pools b"
  from sec have i: "i < length ?P0" "i < length ws" "0 \<le> ws ! i"
    and loop: "for_loop [0..<?w] (MR_build_node alloc i)
                 (b\<lparr>b_pools := ?P0[i := replicate ?w 0]\<rparr>) = Inr b'"
    by (auto simp: MR_build_section_def at_def split: sum.splits if_splits)
  define K where "K = (\<lambda>j (st :: 'a MR_build). build_ok alloc st \<and> b_news st = ?n0 + j
      \<and> b_pools st = ?P0[i := map alloc [?n0..<?n0 + j] @ replicate (?w - j) 0])"
  have K0: "K 0 (b\<lparr>b_pools := ?P0[i := replicate ?w 0]\<rparr>)"
    using ok by (simp add: K_def build_ok_def)
  have Kstep: "\<And>j a c. j < ?w \<Longrightarrow> K j a \<Longrightarrow> MR_build_node alloc i j a = Inr c \<Longrightarrow> K (Suc j) c"
  proof -
    fix j a c
    assume j: "j < ?w" and Ka: "K j a" and step: "MR_build_node alloc i j a = Inr c"
    from Ka have oka: "build_ok alloc a" and na: "b_news a = ?n0 + j"
      and pa: "b_pools a = ?P0[i := map alloc [?n0..<?n0 + j] @ replicate (?w - j) 0]"
      by (simp_all add: K_def)
    from MR_build_node_ok[OF step oka] have okc: "build_ok alloc c"
      and nc: "b_news c = b_news a + 1"
      and pc: "b_pools c = (b_pools a)[i := (b_pools a ! i)[j := alloc (b_news a)]]"
      by simp_all
    have row: "b_pools a ! i = map alloc [?n0..<?n0 + j] @ replicate (?w - j) 0"
      using i(1) by (simp add: pa)
    have "b_pools c = ?P0[i := map alloc [?n0..<?n0 + Suc j] @ replicate (?w - Suc j) 0]"
      unfolding pc row na fill_row_step[OF j] by (simp add: pa)
    with okc nc na show "K (Suc j) c" by (simp add: K_def)
  qed
  have "K ?w b'"
    by (rule for_loop_upt_inv[where I = K, OF loop K0]) (rule Kstep, assumption+)
  with i show ?thesis by (simp add: K_def)
qed

lemma MR_build_sections_ok:
  assumes loop: "for_loop [0..<L] (MR_build_section alloc ws) b0 = Inr b"
    and b0: "b0 = \<lparr>b_heap = Map.empty, b_pools = replicate L [],
                     b_resourceNum = 3, b_pointBit = 3, b_resourceID = 4, b_news = 0\<rparr>"
  shows "build_ok alloc b \<and> length (b_pools b) = L \<and> L \<le> length ws
       \<and> b_news b = sum_list (map nat (take L ws))
       \<and> concat (b_pools b) = map alloc [0..<b_news b]
       \<and> (\<forall>i<L. 0 \<le> ws ! i \<and> length (b_pools b ! i) = nat (ws ! i))"
proof -
  define J where "J = (\<lambda>i (st :: 'a MR_build). build_ok alloc st \<and> length (b_pools st) = L
      \<and> i \<le> length ws
      \<and> b_news st = sum_list (map nat (take i ws))
      \<and> concat (take i (b_pools st)) = map alloc [0..<b_news st]
      \<and> (\<forall>i'<i. 0 \<le> ws ! i' \<and> length (b_pools st ! i') = nat (ws ! i')))"
  have J0: "J 0 b0" by (simp add: J_def b0 build_ok_def)
  have Jstep: "\<And>i a c. i < L \<Longrightarrow> J i a \<Longrightarrow> MR_build_section alloc ws i a = Inr c \<Longrightarrow> J (Suc i) c"
  proof -
    fix i a c
    assume i: "i < L" and Ja: "J i a" and step: "MR_build_section alloc ws i a = Inr c"
    from Ja have oka: "build_ok alloc a" and la: "length (b_pools a) = L"
      and na: "b_news a = sum_list (map nat (take i ws))"
      and ca: "concat (take i (b_pools a)) = map alloc [0..<b_news a]"
      and ra: "\<forall>i'<i. 0 \<le> ws ! i' \<and> length (b_pools a ! i') = nat (ws ! i')"
      by (simp_all add: J_def)
    from MR_build_section_ok[OF step oka] have okc: "build_ok alloc c"
      and iw: "i < length ws" and w0: "0 \<le> ws ! i"
      and nc: "b_news c = b_news a + nat (ws ! i)"
      and pc: "b_pools c = (b_pools a)[i := map alloc [b_news a..<b_news a + nat (ws ! i)]]"
      by simp_all
    have tk: "take (Suc i) (b_pools c) = take i (b_pools a) @ [map alloc [b_news a..<b_news a + nat (ws ! i)]]"
      using i la by (simp add: pc take_Suc_conv_app_nth)
    have cc: "concat (take (Suc i) (b_pools c)) = map alloc [0..<b_news c]"
      unfolding tk nc using ca by (simp add: upt_add_eq_append[of 0, simplified] del: upt_Suc)
    have sm: "sum_list (map nat (take (Suc i) ws)) = sum_list (map nat (take i ws)) + nat (ws ! i)"
      using iw by (simp add: take_Suc_conv_app_nth)
    have rc: "\<forall>i'<Suc i. 0 \<le> ws ! i' \<and> length (b_pools c ! i') = nat (ws ! i')"
      using ra w0 i la by (auto simp: pc less_Suc_eq nth_list_update)
    show "J (Suc i) c"
      unfolding J_def using okc la iw nc na cc sm rc by (simp add: pc del: upt_Suc)
  qed
  have "J L b"
    by (rule for_loop_upt_inv[where I = J, OF loop J0]) (rule Jstep, assumption+)
  then have "length (b_pools b) = L" by (simp add: J_def)
  then have "take L (b_pools b) = b_pools b" by simp
  with \<open>J L b\<close> show ?thesis by (simp add: J_def)
qed

lemma set_indices_loop:
  assumes "for_loop [0..<L] (set_indices ws) (replicate L 0, replicate L 0) = Inr (ai, mi)"
  shows "L \<le> length ws \<and> ai = map (\<lambda>w. w - 1) (take L ws) \<and> mi = take L ws"
proof -
  define J where "J = (\<lambda>i (st :: int list \<times> int list). i \<le> length ws
      \<and> length (fst st) = L \<and> length (snd st) = L
      \<and> take i (fst st) = map (\<lambda>w. w - 1) (take i ws) \<and> take i (snd st) = take i ws)"
  have J0: "J 0 (replicate L 0, replicate L 0)" by (simp add: J_def)
  have Jstep: "\<And>i a c. i < L \<Longrightarrow> J i a \<Longrightarrow> set_indices ws i a = Inr c \<Longrightarrow> J (Suc i) c"
    by (auto simp: J_def set_indices_def at_def take_Suc_conv_app_nth split: sum.splits if_splits)
  have "J L (ai, mi)"
    by (rule for_loop_upt_inv[where I = J, OF assms J0]) (rule Jstep, assumption+)
  then have "length ai = L" "length mi = L" by (simp_all add: J_def)
  then have "take L ai = ai" "take L mi = mi" by simp_all
  with \<open>J L (ai, mi)\<close> show ?thesis by (simp add: J_def)
qed


lemma notin_map_upt: "a \<notin> set (map f [0..<N]) \<Longrightarrow> n < N \<Longrightarrow> f n \<noteq> a"
proof
  assume nin: "a \<notin> set (map f [0..<N])" and n: "n < N" and eq: "f n = a"
  from n have "f n \<in> set (map f [0..<N])" by simp
  with nin eq show False by simp
qed

lemma MR_ctor_result:
  assumes ctor: "new_MRLockDurableSet m numIDs ws alloc = Inr s"
    and va: "valid_alloc alloc (sum_list (map nat (take (nat numIDs) ws)) + 2)"
  shows "concat (MR_preAllocatedNodes s) = map alloc [0..<sum_list (map nat (take (nat numIDs) ws))]
       \<and> MR_head s = alloc (sum_list (map nat (take (nat numIDs) ws)))
       \<and> MR_tail s = alloc (Suc (sum_list (map nat (take (nat numIDs) ws))))
       \<and> (\<forall>n. n < sum_list (map nat (take (nat numIDs) ws)) \<longrightarrow>
             MR_heap s (alloc n) = Some (new_MRNode (2 ^ ((n + 2) mod 31))))
       \<and> MR_heap s (MR_head s) = Some ((new_MRNode 1)\<lparr>nnext := MR_tail s, nkey := MIN_KEY\<rparr>)
       \<and> MR_heap s (MR_tail s) = Some ((new_MRNode 2)\<lparr>nkey := MAX_KEY\<rparr>)
       \<and> dom (MR_heap s) = alloc ` {..<sum_list (map nat (take (nat numIDs) ws)) + 2}
       \<and> length (MR_preAllocatedNodes s) = nat numIDs
       \<and> length (MR_allocIndices s) = nat numIDs
       \<and> (\<forall>i. i < nat numIDs \<longrightarrow>
             MR_allocIndices s ! i = int (length (MR_preAllocatedNodes s ! i)) - 1)"
proof -
  let ?L = "nat numIDs"
  let ?N = "sum_list (map nat (take ?L ws))"
  from ctor obtain ai mi b where
    l1: "for_loop [0..<?L] (set_indices ws) (replicate ?L 0, replicate ?L 0) = Inr (ai, mi)" and
    l2: "for_loop [0..<?L] (MR_build_section alloc ws)
           \<lparr>b_heap = Map.empty, b_pools = replicate ?L [],
            b_resourceNum = 3, b_pointBit = 3, b_resourceID = 4, b_news = 0\<rparr> = Inr b" and
    s: "s = \<lparr>MR_heap = (b_heap b)(alloc (b_news b) \<mapsto> (new_MRNode 1)\<lparr>nnext := alloc (b_news b + 1), nkey := MIN_KEY\<rparr>,
                       alloc (b_news b + 1) \<mapsto> (new_MRNode 2)\<lparr>nkey := MAX_KEY\<rparr>),
             MR_head = alloc (b_news b), MR_tail = alloc (b_news b + 1),
             MR_mrLock = new_MRLock (b_resourceID b), MR_mem = m,
             MR_preAllocatedNodes = b_pools b,
             MR_allocIndices = ai, MR_maxIndices = mi,
             MR_keysVolatileRecovered = [], MR_keysDurableRecovered = [],
             MR_numIDs = numIDs\<rparr> \<or> alloc (b_news b) = alloc (b_news b + 1)"
    by (auto simp: new_MRLockDurableSet_def Let_def split: sum.splits if_splits prod.splits)
  from set_indices_loop[OF l1] have ai: "?L \<le> length ws" "ai = map (\<lambda>w. w - 1) (take ?L ws)" by simp_all
  from MR_build_sections_ok[OF l2 refl] have ok: "build_ok alloc b"
    and lp: "length (b_pools b) = ?L" and nb: "b_news b = ?N"
    and cc: "concat (b_pools b) = map alloc [0..<b_news b]"
    and rows: "\<forall>i<?L. 0 \<le> ws ! i \<and> length (b_pools b ! i) = nat (ws ! i)"
    by simp_all
  have upt: "[0..<?N + 2] = [0..<?N] @ [?N, Suc ?N]" by simp
  from va have d: "distinct (map alloc [0..<?N])" "alloc ?N \<notin> set (map alloc [0..<?N])"
    "alloc (Suc ?N) \<notin> set (map alloc [0..<?N])" "alloc ?N \<noteq> alloc (Suc ?N)"
    unfolding valid_alloc_def upt by auto
  from ok d(1) nb have hp: "\<forall>n<?N. b_heap b (alloc n) = Some (new_MRNode (2 ^ ((n + 2) mod 31)))"
    and dm: "dom (b_heap b) = alloc ` {..<?N}"
    by (simp_all add: build_ok_def)
  from s d(4) nb have s': "s = \<lparr>MR_heap = (b_heap b)(alloc ?N \<mapsto> (new_MRNode 1)\<lparr>nnext := alloc (Suc ?N), nkey := MIN_KEY\<rparr>,
                       alloc (Suc ?N) \<mapsto> (new_MRNode 2)\<lparr>nkey := MAX_KEY\<rparr>),
             MR_head = alloc ?N, MR_tail = alloc (Suc ?N),
             MR_mrLock = new_MRLock (b_resourceID b), MR_mem = m,
             MR_preAllocatedNodes = b_pools b,
             MR_allocIndices = ai, MR_maxIndices = mi,
             MR_keysVolatileRecovered = [], MR_keysDurableRecovered = [],
             MR_numIDs = numIDs\<rparr>"
    by simp
  have ne: "\<And>n. n < ?N \<Longrightarrow> alloc n \<noteq> alloc ?N \<and> alloc n \<noteq> alloc (Suc ?N)"
    using notin_map_upt[OF d(2)] notin_map_upt[OF d(3)] by blast
  have h1: "\<forall>n<?N. MR_heap s (alloc n) = Some (new_MRNode (2 ^ ((n + 2) mod 31)))"
    using hp ne by (simp add: s')
  have al: "\<forall>i<?L. ai ! i = int (length (b_pools b ! i)) - 1"
    using rows ai by (simp add: nth_take)
  have dm': "dom (MR_heap s) = alloc ` {..<?N + 2}"
    using dm by (auto simp: s' lessThan_Suc)
  show ?thesis
    using cc nb h1 d(4) lp ai al dm' by (simp add: s')
qed

lemma valid_alloc_4: "valid_alloc (\<lambda>n. 16 * of_nat n + 16) (Suc (Suc (Suc (Suc 0))))"
  by (simp add: valid_alloc_def)

text \<open>
  Claim C9 (amended). Head has the resource ID 1 and tail the ID 2, and the \<open>n\<close>-th node
  pre-allocated by the constructor (counting from 0, in allocation order across the
  writers) receives the one-hot ID \<open>2 ^ ((n + 2) mod 31)\<close>: the IDs start at 4 and cycle
  through the 31 bit positions 0 to 30, the IDs 1 and 2 included; bit 31 is never used.
\<close>

theorem MR_resource_ids:
  assumes "new_MRLockDurableSet m numIDs ws alloc = Inr s"
      and "valid_alloc alloc (sum_list (map nat (take (nat numIDs) ws)) + 2)"
  shows "map_option resourceID (MR_heap s (MR_head s)) = Some 1
       \<and> map_option resourceID (MR_heap s (MR_tail s)) = Some 2
       \<and> map (\<lambda>a. map_option resourceID (MR_heap s a)) (concat (MR_preAllocatedNodes s))
           = map (\<lambda>n. Some (2 ^ ((n + 2) mod 31))) [0..<length (concat (MR_preAllocatedNodes s))]"
proof -
  let ?N = "sum_list (map nat (take (nat numIDs) ws))"
  from MR_ctor_result[OF assms] have
    c: "concat (MR_preAllocatedNodes s) = map alloc [0..<?N]" and
    ids: "\<forall>n. n < ?N \<longrightarrow> MR_heap s (alloc n) = Some (new_MRNode (2 ^ ((n + 2) mod 31)))" and
    h: "MR_heap s (MR_head s) = Some ((new_MRNode 1)\<lparr>nnext := MR_tail s, nkey := MIN_KEY\<rparr>)" and
    t: "MR_heap s (MR_tail s) = Some ((new_MRNode 2)\<lparr>nkey := MAX_KEY\<rparr>)"
    by blast+
  show ?thesis
    unfolding h t c using ids by (simp add: new_MRNode_def)
qed

theorem MR_resource_ids_witness:
  "\<exists>s. new_MRLockDurableSet
          \<lparr>numMemPoolSections = 1, memPoolSectionSize = 2,
            memPool = [[new_MemCell, new_MemCell :: int MemCell]], freeListIndex = [1]\<rparr>
          1 [2] (\<lambda>n. 16 * of_nat n + 16) = Inr s
     \<and> map_option resourceID (MR_heap s (MR_head s)) = Some 1
     \<and> map_option resourceID (MR_heap s (MR_tail s)) = Some 2
     \<and> map (\<lambda>a. map_option resourceID (MR_heap s a)) (concat (MR_preAllocatedNodes s)) = [Some 4, Some 8]"
proof -
  have "\<exists>s. new_MRLockDurableSet
          \<lparr>numMemPoolSections = 1, memPoolSectionSize = 2,
            memPool = [[new_MemCell, new_MemCell :: int MemCell]], freeListIndex = [1]\<rparr>
          1 [2] (\<lambda>n. 16 * of_nat n + 16) = Inr s
        \<and> length (concat (MR_preAllocatedNodes s)) = 2"
    by (simp add: MR_ctor_eval numeral_2_eq_2)
  then obtain s where
    a: "new_MRLockDurableSet
          \<lparr>numMemPoolSections = 1, memPoolSectionSize = 2,
            memPool = [[new_MemCell, new_MemCell :: int MemCell]], freeListIndex = [1]\<rparr>
          1 [2] (\<lambda>n. 16 * of_nat n + 16) = Inr s"
    and l: "length (concat (MR_preAllocatedNodes s)) = 2" by blast
  have "sum_list (map nat (take (nat 1) [2])) + 2 = Suc (Suc (Suc (Suc 0)))" by simp
  then have v: "valid_alloc (\<lambda>n. 16 * of_nat n + 16) (sum_list (map nat (take (nat 1) [2])) + 2)"
    using valid_alloc_4 by (simp only:)
  from MR_resource_ids[OF a v] a l show ?thesis by (simp add: numeral_2_eq_2)
qed

section \<open>SOFTDurableSet: the sentinels\<close>

text \<open>\<open>struct PNode\<close> and \<open>struct Node\<close> of the SOFT set; atomics are plain fields here.\<close>

record 'a PNode =
  p_key :: int
  p_item :: 'a
  validStart :: bool
  validEnd :: bool
  deleted :: bool
  p_durableAddressPrefix :: int
  p_durableAddressPostfix :: int

record 'a SOFTNode =
  s_key :: int
  s_item :: 'a
  PNodePointer :: uintptr
  s_next :: uintptr

text \<open>\<open>PNode::PNode(void)\<close>\<close>

definition new_PNode :: "('a::zero) PNode" where
  "new_PNode = \<lparr>p_key = 0, p_item = 0, validStart = False, validEnd = False, deleted = False,
                p_durableAddressPrefix = - 1, p_durableAddressPostfix = - 1\<rparr>"

text \<open>The four node states, and \<open>createRef\<close>, \<open>getRef\<close>, \<open>getState\<close>.\<close>

definition INTEND_TO_INSERT :: int where "INTEND_TO_INSERT = 0"
definition INSERTED :: int where "INSERTED = 1"
definition INTEND_TO_DELETE :: int where "INTEND_TO_DELETE = 2"
definition DELETED :: int where "DELETED = 3"

definition createRef :: "uintptr \<Rightarrow> int \<Rightarrow> uintptr" where
  "createRef node state = (node OR of_int state)"

definition getRef :: "uintptr \<Rightarrow> uintptr" where
  "getRef node = (node AND NOT 3)"

definition getState :: "uintptr \<Rightarrow> int" where
  "getState node = uint (node AND 3)"

text \<open>
  The part of the set's state the sentinel code touches: the nodes and PNodes on the
  heap, the three sentinel pointers, and the number of allocations made so far.
\<close>

record 'a SOFT_list =
  S_nodes :: "uintptr \<rightharpoonup> 'a SOFTNode"
  S_pnodes :: "uintptr \<rightharpoonup> 'a PNode"
  S_head :: uintptr
  S_tailOne :: uintptr
  S_tailTwo :: uintptr
  S_news :: nat

text \<open>
  \<open>new Node()\<close>: the node is allocated, then its constructor allocates the PNode.
\<close>

definition SOFT_new_Node :: "(nat \<Rightarrow> uintptr) \<Rightarrow> ('a::zero) SOFT_list \<Rightarrow> uintptr \<times> 'a SOFT_list" where
  "SOFT_new_Node alloc st =
     (let a = alloc (S_news st); p = alloc (S_news st + 1)
      in (a, st\<lparr>S_pnodes := (S_pnodes st)(p \<mapsto> new_PNode),
                 S_nodes := (S_nodes st)(a \<mapsto> \<lparr>s_key = 0, s_item = 0, PNodePointer = p, s_next = 0\<rparr>),
                 S_news := S_news st + 2\<rparr>))"

text \<open>
  The sentinel statements of \<open>SOFTDurableSet::SOFTDurableSet\<close> (from
  \<open>this->head = new Node()\<close> to \<open>this->head->next.store(...)\<close>).
\<close>

definition SOFT_ctor_sentinels :: "(nat \<Rightarrow> uintptr) \<Rightarrow> ('a::zero) SOFT_list \<Rightarrow> error + 'a SOFT_list" where
  "SOFT_ctor_sentinels alloc st0 =
     (let (h, st1) = SOFT_new_Node alloc st0;
          (t1, st2) = SOFT_new_Node alloc st1;
          (t2, st3) = SOFT_new_Node alloc st2;
          st4 = st3\<lparr>S_head := h, S_tailOne := t1, S_tailTwo := t2\<rparr>
      in (case store (S_nodes st4) (S_head st4) (\<lambda>n. n\<lparr>s_key := MIN_KEY\<rparr>) of
            Inl e \<Rightarrow> Inl e
          | Inr n5 \<Rightarrow>
         (case store n5 (S_tailOne st4) (\<lambda>n. n\<lparr>s_key := MAX_KEY\<rparr>) of
            Inl e \<Rightarrow> Inl e
          | Inr n6 \<Rightarrow>
         (case store n6 (S_tailTwo st4) (\<lambda>n. n\<lparr>s_key := MAX_KEY + 1\<rparr>) of
            Inl e \<Rightarrow> Inl e
          | Inr n7 \<Rightarrow>
         (case store n7 (S_tailOne st4) (\<lambda>n. n\<lparr>s_next := createRef (S_tailTwo st4) INSERTED\<rparr>) of
            Inl e \<Rightarrow> Inl e
          | Inr n8 \<Rightarrow>
         (case store n8 (S_head st4) (\<lambda>n. n\<lparr>s_next := createRef (S_tailOne st4) INSERTED\<rparr>) of
            Inl e \<Rightarrow> Inl e
          | Inr n9 \<Rightarrow> Inr (st4\<lparr>S_nodes := n9\<rparr>)))))))"

text \<open>
  The sentinel statements of \<open>SOFTDurableSet::recover\<close>, after \<open>this->FREE()\<close>: the same
  statements, except that \<open>tailTwo->key\<close> is assigned \<open>MAX_KEY\<close>.
\<close>

definition SOFT_recover_sentinels :: "(nat \<Rightarrow> uintptr) \<Rightarrow> ('a::zero) SOFT_list \<Rightarrow> error + 'a SOFT_list" where
  "SOFT_recover_sentinels alloc st0 =
     (let (h, st1) = SOFT_new_Node alloc st0;
          (t1, st2) = SOFT_new_Node alloc st1;
          (t2, st3) = SOFT_new_Node alloc st2;
          st4 = st3\<lparr>S_head := h, S_tailOne := t1, S_tailTwo := t2\<rparr>
      in (case store (S_nodes st4) (S_head st4) (\<lambda>n. n\<lparr>s_key := MIN_KEY\<rparr>) of
            Inl e \<Rightarrow> Inl e
          | Inr n5 \<Rightarrow>
         (case store n5 (S_tailOne st4) (\<lambda>n. n\<lparr>s_key := MAX_KEY\<rparr>) of
            Inl e \<Rightarrow> Inl e
          | Inr n6 \<Rightarrow>
         (case store n6 (S_tailTwo st4) (\<lambda>n. n\<lparr>s_key := MAX_KEY\<rparr>) of
            Inl e \<Rightarrow> Inl e
          | Inr n7 \<Rightarrow>
         (case store n7 (S_tailOne st4) (\<lambda>n. n\<lparr>s_next := createRef (S_tailTwo st4) INSERTED\<rparr>) of
            Inl e \<Rightarrow> Inl e
          | Inr n8 \<Rightarrow>
         (case store n8 (S_head st4) (\<lambda>n. n\<lparr>s_next := createRef (S_tailOne st4) INSERTED\<rparr>) of
            Inl e \<Rightarrow> Inl e
          | Inr n9 \<Rightarrow> Inr (st4\<lparr>S_nodes := n9\<rparr>)))))))"

text \<open>The keys met from head along the references: head, its successor, and the successor's successor.\<close>

definition SOFT_first_three :: "'a SOFT_list \<Rightarrow> (int \<times> int \<times> int) option" where
  "SOFT_first_three st =
     (case S_nodes st (S_head st) of
        None \<Rightarrow> None
      | Some h \<Rightarrow>
         (case S_nodes st (getRef (s_next h)) of
            None \<Rightarrow> None
          | Some a \<Rightarrow>
             (case S_nodes st (getRef (s_next a)) of
                None \<Rightarrow> None
              | Some b \<Rightarrow> Some (s_key h, s_key a, s_key b))))"

text \<open>No node allocated yet.\<close>

definition SOFT_empty :: "('a::zero) SOFT_list" where
  "SOFT_empty = \<lparr>S_nodes = Map.empty, S_pnodes = Map.empty, S_head = 0, S_tailOne = 0,
                 S_tailTwo = 0, S_news = 0\<rparr>"

lemmas SOFT_eval = SOFT_ctor_sentinels_def SOFT_recover_sentinels_def SOFT_new_Node_def
  SOFT_first_three_def SOFT_empty_def store_def createRef_def getRef_def INSERTED_def
  MIN_KEY_def MAX_KEY_def new_PNode_def Let_def

text \<open>
  Claim C8. The SOFT list is said to end with two sentinels of keys \<open>MAX_KEY\<close> and
  \<open>MAX_KEY + 1\<close>, at construction and after every recover. The constructor's
  statements give the keys \<open>MIN_KEY, MAX_KEY, MAX_KEY + 1\<close>; those of recover give
  \<open>MIN_KEY, MAX_KEY, MAX_KEY\<close>: the second tail has the key \<open>MAX_KEY\<close>.
\<close>

theorem SOFT_recover_second_tail_key:
  "(case SOFT_ctor_sentinels (\<lambda>n. 16 * of_nat n + 16) (SOFT_empty :: int SOFT_list) of
      Inl e \<Rightarrow> False
    | Inr st \<Rightarrow> SOFT_first_three st = Some (MIN_KEY, MAX_KEY, MAX_KEY + 1))
   \<and> (case SOFT_recover_sentinels (\<lambda>n. 16 * of_nat n + 16) (SOFT_empty :: int SOFT_list) of
      Inl e \<Rightarrow> False
    | Inr st \<Rightarrow> SOFT_first_three st = Some (MIN_KEY, MAX_KEY, MAX_KEY)
              \<and> map_option s_key (S_nodes st (S_tailTwo st)) = Some MAX_KEY
              \<and> map_option s_key (S_nodes st (S_tailTwo st)) \<noteq> Some (MAX_KEY + 1))"
  by (simp add: SOFT_eval)


section \<open>The list structure of the Lock and MRLock sets\<close>

text \<open>What the list structure depends on: the key and the \<open>next\<close> word of every node.\<close>

definition links :: "(uintptr \<rightharpoonup> ('a, 'm) Node_scheme) \<Rightarrow> uintptr \<rightharpoonup> int \<times> uintptr" where
  "links hp a = map_option (\<lambda>n. (nkey n, nnext n)) (hp a)"

definition list_ok :: "(uintptr \<rightharpoonup> ('a, 'm) Node_scheme) \<Rightarrow> uintptr \<Rightarrow> uintptr \<Rightarrow> uintptr list \<Rightarrow> bool" where
  "list_ok hp h t ns \<longleftrightarrow>
     ns \<noteq> [] \<and> last ns = t
   \<and> chain hp h (h # ns) 0
   \<and> distinct (h # ns)
   \<and> hp 0 = None
   \<and> keyof hp h = MIN_KEY
   \<and> keyof hp t = MAX_KEY
   \<and> sorted_wrt (<) (map (keyof hp) ns)"

lemma links_upd: "links (hp(a \<mapsto> n)) = (links hp)(a \<mapsto> (nkey n, nnext n))"
  by (auto simp: links_def fun_eq_iff)

lemma links_None: "links hp a = None \<longleftrightarrow> hp a = None"
  by (simp add: links_def)

lemma links_Some: "links hp a = Some (k, x) \<longleftrightarrow> (\<exists>n. hp a = Some n \<and> nkey n = k \<and> nnext n = x)"
  by (auto simp: links_def)

lemma dom_links: "dom (links hp) = dom hp"
  by (auto simp: links_def dom_def)

lemma keyof_links: "keyof hp a = (case links hp a of None \<Rightarrow> 0 | Some (k, x) \<Rightarrow> k)"
  by (auto simp: keyof_def links_def split: option.splits)

lemma chain_links:
  "(\<And>a. a \<in> set as \<Longrightarrow> links hp' a = links hp a) \<Longrightarrow> chain hp' p as q = chain hp p as q"
proof (induction as arbitrary: p)
  case Nil
  then show ?case by simp
next
  case (Cons a as)
  have la: "links hp' a = links hp a" using Cons.prems by simp
  have ih: "\<And>p. chain hp' p as q = chain hp p as q" using Cons.IH Cons.prems by simp
  show ?case
  proof (cases "hp a")
    case None
    with la have "hp' a = None" by (simp add: links_def)
    with None show ?thesis by simp
  next
    case (Some n)
    with la obtain n' where n': "hp' a = Some n'" "nnext n' = nnext n"
      by (auto simp: links_def)
    with Some ih show ?thesis by simp
  qed
qed

lemma list_ok_split:
  assumes "list_ok hp h t ns" and "k \<le> MAX_KEY"
  shows "\<exists>xs c ys. ns = xs @ c # ys \<and> (\<forall>a\<in>set xs. keyof hp a < k) \<and> k \<le> keyof hp c"
proof -
  from assms have ne: "ns \<noteq> []" and "k \<le> keyof hp (last ns)" by (auto simp: list_ok_def)
  from first_at_least[of ns k "keyof hp", OF this] show ?thesis .
qed

lemma list_ok_above:
  assumes "list_ok hp h t ns" and "MAX_KEY < k"
  shows "\<forall>a\<in>set ns. keyof hp a < k"
proof -
  from assms have srt: "sorted_wrt (<) (map (keyof hp) ns)" and lst: "keyof hp (last ns) = MAX_KEY"
    by (auto simp: list_ok_def)
  with sorted_wrt_last_max[OF srt] assms(2) show ?thesis by fastforce
qed

lemma list_insert_step:
  assumes ok: "list_ok hp h t ns" and d: "ns = xs @ c # ys"
    and lt: "\<forall>a\<in>set xs. keyof hp a < k" "k < keyof hp c"
    and fresh: "nn \<notin> set (h # ns)" "hp nn \<noteq> None"
    and l': "links hp' = (links hp)(nn \<mapsto> (k, c), last (h # xs) \<mapsto> (keyof hp (last (h # xs)), nn))"
  shows "list_ok hp' h t (xs @ nn # c # ys)"
proof -
  define prev where "prev = last (h # xs)"
  from ok have ch: "chain hp h (h # ns) 0" and dist: "distinct (h # ns)" and z: "hp 0 = None"
    by (auto simp: list_ok_def)
  obtain pre where pre: "h # xs = pre @ [prev]"
    unfolding prev_def by (metis append_butlast_last_id list.distinct(1))
  have full: "h # ns = pre @ prev # c # ys" using pre d by simp
  from ch have ch': "chain hp h (pre @ prev # c # ys) 0" by (simp only: full)
  then obtain pn cn where
    c1: "chain hp h pre prev" and pn: "hp prev = Some pn" and pc: "nnext pn = c" and
    cn: "hp c = Some cn" and c2: "chain hp (nnext cn) ys 0"
    by (auto simp: chain_split_at)
  have prev_in: "prev \<in> set (h # ns)" using full by simp
  with fresh have np: "nn \<noteq> prev" by auto
  from dist full have dfull: "distinct (pre @ prev # c # ys)" by simp
  have nn_out: "nn \<notin> set pre" "nn \<notin> set ys" "nn \<noteq> c" using fresh(1) full by auto
  note l = l'[folded prev_def]
  have lk: "\<And>a. a \<noteq> nn \<Longrightarrow> a \<noteq> prev \<Longrightarrow> links hp' a = links hp a" by (simp add: l)
  have u1: "\<And>a. a \<in> set pre \<Longrightarrow> links hp' a = links hp a"
    using dfull nn_out by (auto intro: lk)
  have u2: "\<And>a. a \<in> set (c # ys) \<Longrightarrow> links hp' a = links hp a"
    using dfull nn_out by (auto intro!: lk)
  have c1': "chain hp' h pre prev" using c1 chain_links[of pre hp' hp, OF u1] by simp
  have c2': "chain hp' c (c # ys) 0"
    using c2 cn chain_links[of "c # ys" hp' hp c 0, OF u2] by simp
  from l np have "links hp' nn = Some (k, c)" by simp
  then obtain N where N: "hp' nn = Some N" "nkey N = k" "nnext N = c" by (auto simp: links_Some)
  from l have "links hp' prev = Some (keyof hp prev, nn)" by simp
  then obtain pn' where pn': "hp' prev = Some pn'" "nnext pn' = nn" by (auto simp: links_Some)
  have full': "h # (xs @ nn # c # ys) = pre @ prev # nn # c # ys" using pre by simp
  have chain': "chain hp' h (h # (xs @ nn # c # ys)) 0"
    unfolding full' using c1' c2' N pn' by (simp add: chain_split_at)
  have dist': "distinct (h # (xs @ nn # c # ys))"
    unfolding full' using dfull fresh(1) full by auto
  have key': "\<And>a. keyof hp' a = (if a = nn then k else keyof hp a)"
    using np pn by (auto simp: keyof_links l)
  from ok d have srt: "sorted_wrt (<) (map (keyof hp) (xs @ c # ys))" by (simp add: list_ok_def)
  have mp: "map (keyof hp') (xs @ nn # c # ys) = map (keyof hp) xs @ k # map (keyof hp) (c # ys)"
    using nn_out fresh(1) d by (auto simp: key')
  have srt': "sorted_wrt (<) (map (keyof hp') (xs @ nn # c # ys))"
    unfolding mp using srt lt by (auto simp: sorted_wrt_append)
  from ok have tin: "t \<in> set ns" by (metis list_ok_def last_in_set)
  from ok have hk0: "keyof hp h = MIN_KEY" "keyof hp t = MAX_KEY" by (simp_all add: list_ok_def)
  have hk: "keyof hp' h = MIN_KEY" "keyof hp' t = MAX_KEY"
    using hk0 tin fresh(1) by (auto simp: key')
  have "links hp' 0 = None" using z fresh(2) pn np by (auto simp: l links_None)
  then have z': "hp' 0 = None" by (simp add: links_None)
  have lst: "last (xs @ nn # c # ys) = t" using ok d by (simp add: list_ok_def)
  show ?thesis
    unfolding list_ok_def using chain' dist' srt' lst hk z' by simp
qed

lemma list_remove_step:
  assumes ok: "list_ok hp h t ns" and d: "ns = xs @ c # ys"
    and cn: "hp c = Some cn" and sc: "hp (nnext cn) \<noteq> None"
    and l': "links hp' = (links hp)(c \<mapsto> (nkey cn, x), last (h # xs) \<mapsto> (keyof hp (last (h # xs)), nnext cn))"
  shows "list_ok hp' h t (xs @ ys) \<and> ys \<noteq> []"
proof -
  define prev where "prev = last (h # xs)"
  from ok have ch: "chain hp h (h # ns) 0" and dist: "distinct (h # ns)" and z: "hp 0 = None"
    by (auto simp: list_ok_def)
  obtain pre where pre: "h # xs = pre @ [prev]"
    unfolding prev_def by (metis append_butlast_last_id list.distinct(1))
  have full: "h # ns = pre @ prev # c # ys" using pre d by simp
  from ch have ch': "chain hp h (pre @ prev # c # ys) 0" by (simp only: full)
  then obtain pn where
    c1: "chain hp h pre prev" and pn: "hp prev = Some pn" and pc: "nnext pn = c" and
    c2: "chain hp (nnext cn) ys 0"
    using cn by (auto simp: chain_split_at)
  from dist full have dfull: "distinct (pre @ prev # c # ys)" by simp
  then have np: "prev \<noteq> c" by auto
  from sc z c2 have ysne: "ys \<noteq> []" by (cases ys) auto
  note l = l'[folded prev_def]
  have lk: "\<And>a. a \<noteq> c \<Longrightarrow> a \<noteq> prev \<Longrightarrow> links hp' a = links hp a" by (simp add: l)
  have u1: "\<And>a. a \<in> set pre \<Longrightarrow> links hp' a = links hp a"
    using dfull by (auto intro!: lk)
  have u2: "\<And>a. a \<in> set ys \<Longrightarrow> links hp' a = links hp a"
    using dfull by (auto intro!: lk)
  have c1': "chain hp' h pre prev" using c1 chain_links[of pre hp' hp, OF u1] by simp
  have c2': "chain hp' (nnext cn) ys 0" using c2 chain_links[of ys hp' hp, OF u2] by simp
  from l have "links hp' prev = Some (keyof hp prev, nnext cn)" by simp
  then obtain pn' where pn': "hp' prev = Some pn'" "nnext pn' = nnext cn" by (auto simp: links_Some)
  have full': "h # (xs @ ys) = pre @ prev # ys" using pre by simp
  have chain': "chain hp' h (h # (xs @ ys)) 0"
    unfolding full' using c1' c2' pn' by (simp add: chain_split_at)
  have dist': "distinct (h # (xs @ ys))" unfolding full' using dfull by auto
  have key0: "\<And>a. keyof hp' a = keyof hp a"
    using np pn cn by (auto simp: keyof_links l) (auto simp: links_def)
  then have key': "keyof hp' = keyof hp" by (simp add: fun_eq_iff)
  from ok d have srt: "sorted_wrt (<) (map (keyof hp) (xs @ c # ys))" by (simp add: list_ok_def)
  have srt': "sorted_wrt (<) (map (keyof hp') (xs @ ys))"
    using srt by (auto simp: key' sorted_wrt_append)
  from ok have hk: "keyof hp' h = MIN_KEY" "keyof hp' t = MAX_KEY" by (simp_all add: list_ok_def key')
  have "links hp' 0 = None" using z pn cn by (auto simp: l links_None)
  then have z': "hp' 0 = None" by (simp add: links_None)
  have lst: "last (xs @ ys) = t" using ok d ysne by (simp add: list_ok_def)
  show ?thesis
    unfolding list_ok_def using chain' dist' srt' lst hk z' ysne by simp
qed

text \<open>The nodes of the pools not yet handed out: for each writer, the entries up to its index.\<close>

definition free_nodes :: "int list \<Rightarrow> uintptr list list \<Rightarrow> uintptr list" where
  "free_nodes ais pools = concat (map (\<lambda>(ai, p). take (nat (ai + 1)) p) (zip ais pools))"

lemma free_nodes_consume:
  assumes "i < length ais" "length ais = length pools" "0 \<le> ais ! i" "ais ! i < int (length (pools ! i))"
  shows "\<exists>A B. free_nodes ais pools = A @ [pools ! i ! nat (ais ! i)] @ B
             \<and> free_nodes (ais[i := ais ! i - 1]) pools = A @ B"
proof -
  let ?Z = "zip ais pools" and ?f = "\<lambda>(ai, p :: uintptr list). take (nat (ai + 1)) p"
  have iz: "i < length ?Z" using assms by simp
  have Z: "?Z = take i ?Z @ (ais ! i, pools ! i) # drop (Suc i) ?Z"
    using id_take_nth_drop[OF iz] assms by simp
  have Z': "zip (ais[i := ais ! i - 1]) pools = take i ?Z @ (ais ! i - 1, pools ! i) # drop (Suc i) ?Z"
  proof -
    have "zip (ais[i := ais ! i - 1]) pools = ?Z[i := (ais ! i - 1, pools ! i)]"
      using assms by (simp add: update_zip)
    also have "\<dots> = take i ?Z @ (ais ! i - 1, pools ! i) # drop (Suc i) ?Z"
      using iz by (rule upd_conv_take_nth_drop)
    finally show ?thesis .
  qed
  have r: "take (nat (ais ! i + 1)) (pools ! i) = take (nat (ais ! i)) (pools ! i) @ [pools ! i ! nat (ais ! i)]"
    using assms by (simp add: nat_add_distrib take_Suc_conv_app_nth)
  have r': "nat (ais ! i - 1 + 1) = nat (ais ! i)" by simp
  let ?A = "concat (map ?f (take i ?Z)) @ take (nat (ais ! i)) (pools ! i)"
  let ?B = "concat (map ?f (drop (Suc i) ?Z))"
  have "free_nodes ais pools = ?A @ [pools ! i ! nat (ais ! i)] @ ?B"
    unfolding free_nodes_def by (subst Z) (simp add: r)
  moreover have "free_nodes (ais[i := ais ! i - 1]) pools = ?A @ ?B"
    unfolding free_nodes_def Z' by (simp add: r')
  ultimately show ?thesis by blast
qed

lemma free_nodes_full:
  assumes "length ais = length pools" "\<forall>i. i < length pools \<longrightarrow> ais ! i = int (length (pools ! i)) - 1"
  shows "free_nodes ais pools = concat pools"
proof -
  have "map (\<lambda>(ai, p). take (nat (ai + 1)) p) (zip ais pools) = pools"
    using assms by (intro nth_equalityI) auto
  then show ?thesis by (simp add: free_nodes_def)
qed


section \<open>MRLockDurableSet: the operations\<close>

text \<open>\<open>MRLockDurableSet::allocFromArea\<close>\<close>

definition MR_allocFromArea ::
  "'a MRLockDurableSet \<Rightarrow> int \<Rightarrow> error + (uintptr \<times> 'a MRLockDurableSet)" where
  "MR_allocFromArea s ident =
     (case at (MR_preAllocatedNodes s) ident of
        Inl e \<Rightarrow> Inl e
      | Inr row \<Rightarrow>
     (case at (MR_allocIndices s) ident of
        Inl e \<Rightarrow> Inl e
      | Inr ai \<Rightarrow>
     (case at row ai of
        Inl e \<Rightarrow> Inl e
      | Inr newNode \<Rightarrow>
     (case retrieveAddress (MR_mem s) ident of
        Inl e \<Rightarrow> Inl e
      | Inr durAddr \<Rightarrow>
          if durAddr = - 1 then Inr (0, s)
          else
            (case store (MR_heap s) newNode
                    (\<lambda>n. n\<lparr>durableAddressPrefix := ident, durableAddressPostfix := durAddr\<rparr>) of
               Inl e \<Rightarrow> Inl e
             | Inr hp \<Rightarrow> Inr (newNode, s\<lparr>MR_heap := hp\<rparr>))))))"

text \<open>\<open>MRLockDurableSet::updateAlloc\<close>\<close>

definition MR_updateAlloc :: "'a MRLockDurableSet \<Rightarrow> int \<Rightarrow> error + 'a MRLockDurableSet" where
  "MR_updateAlloc s ident =
     (case at (MR_allocIndices s) ident of
        Inl e \<Rightarrow> Inl e
      | Inr ai \<Rightarrow>
     (case updateAddress (MR_mem s) ident of
        Inl e \<Rightarrow> Inl e
      | Inr m \<Rightarrow>
          Inr (s\<lparr>MR_allocIndices := (MR_allocIndices s)[nat ident := ai - 1], MR_mem := m\<rparr>)))"

text \<open>The loop of \<open>MRLockDurableSet::find\<close>, and \<open>find\<close>.\<close>

partial_function (option) MR_find_loop ::
  "(uintptr \<rightharpoonup> 'a MRNode) \<Rightarrow> int \<Rightarrow> uintptr \<Rightarrow> uintptr \<Rightarrow> (error + uintptr \<times> uintptr) option" where
  "MR_find_loop hp k previous current =
     (case hp current of
        None \<Rightarrow> Some (Inl BadDeref)
      | Some c \<Rightarrow>
          if nkey c \<ge> k then Some (Inr (previous, current))
          else MR_find_loop hp k current (nnext c))"

definition MR_find ::
  "'a MRLockDurableSet \<Rightarrow> int \<Rightarrow> (error + uintptr \<times> uintptr) option" where
  "MR_find s k =
     (case MR_heap s (MR_head s) of
        None \<Rightarrow> Some (Inl BadDeref)
      | Some hn \<Rightarrow> MR_find_loop (MR_heap s) k (MR_head s) (nnext hn))"

text \<open>
  The lock and unlock statements of \<open>insert\<close> and \<open>remove\<close>: one request when the two
  bit patterns are equal, two otherwise. \<open>currentHandle\<close> is then not assigned; it is 0 here.
\<close>

definition MR_lock_nodes :: "MRLock \<Rightarrow> 32 word \<Rightarrow> 32 word \<Rightarrow> (32 word \<times> 32 word \<times> MRLock) option" where
  "MR_lock_nodes l previousBitPattern currentBitPattern =
     (if previousBitPattern = currentBitPattern then
        (case MRLock_Lock l previousBitPattern of
           None \<Rightarrow> None
         | Some (previousHandle, l1) \<Rightarrow> Some (previousHandle, 0, l1))
      else
        (case MRLock_Lock l previousBitPattern of
           None \<Rightarrow> None
         | Some (previousHandle, l1) \<Rightarrow>
            (case MRLock_Lock l1 currentBitPattern of
               None \<Rightarrow> None
             | Some (currentHandle, l2) \<Rightarrow> Some (previousHandle, currentHandle, l2))))"

definition MR_unlock_nodes ::
  "'a MRLockDurableSet \<Rightarrow> 32 word \<Rightarrow> 32 word \<Rightarrow> 32 word \<Rightarrow> 32 word \<Rightarrow> 'a MRLockDurableSet" where
  "MR_unlock_nodes s previousBitPattern currentBitPattern previousHandle currentHandle =
     (if previousBitPattern = currentBitPattern then
        s\<lparr>MR_mrLock := MRLock_Unlock (MR_mrLock s) previousHandle\<rparr>
      else
        s\<lparr>MR_mrLock := MRLock_Unlock (MRLock_Unlock (MR_mrLock s) previousHandle) currentHandle\<rparr>)"

text \<open>
  One pass of the \<open>while (true)\<close> loop of \<open>MRLockDurableSet::insert\<close>, after the nodes
  are locked. The result \<open>None\<close> is \<open>continue\<close>, \<open>Some b\<close> is \<open>return b\<close>.
\<close>

definition MR_insert_locked ::
  "'a MRLockDurableSet \<Rightarrow> int \<Rightarrow> 'a \<Rightarrow> int \<Rightarrow> uintptr \<Rightarrow> uintptr
     \<Rightarrow> 32 word \<Rightarrow> 32 word \<Rightarrow> 32 word \<Rightarrow> 32 word
     \<Rightarrow> error + (bool option \<times> 'a MRLockDurableSet)" where
  "MR_insert_locked s k it ident previous current pbp cbp ph ch =
     (case deref (MR_heap s) previous of
        Inl e \<Rightarrow> Inl e
      | Inr pn \<Rightarrow>
          if nnext pn \<noteq> current then Inr (None, MR_unlock_nodes s pbp cbp ph ch)
          else
     (case deref (MR_heap s) current of
        Inl e \<Rightarrow> Inl e
      | Inr cn \<Rightarrow>
          if isNextMarked cn then Inr (None, MR_unlock_nodes s pbp cbp ph ch)
          else if nkey cn = k then Inr (Some False, MR_unlock_nodes s pbp cbp ph ch)
          else
     (case MR_allocFromArea s ident of
        Inl e \<Rightarrow> Inl e
      | Inr (newNode, s1) \<Rightarrow>
          if newNode = 0 then Inr (Some False, MR_unlock_nodes s1 pbp cbp ph ch)
          else
     (case store (MR_heap s1) newNode
             (\<lambda>n. (flipV1 n)\<lparr>nkey := k, nitem := it, nnext := current\<rparr>) of
        Inl e \<Rightarrow> Inl e
      | Inr h2 \<Rightarrow>
     (case store h2 previous (\<lambda>n. n\<lparr>nnext := newNode\<rparr>) of
        Inl e \<Rightarrow> Inl e
      | Inr h3 \<Rightarrow>
     (case MR_updateAlloc (s1\<lparr>MR_heap := h3\<rparr>) ident of
        Inl e \<Rightarrow> Inl e
      | Inr s4 \<Rightarrow>
     (case store (MR_heap s4) newNode makeValid of
        Inl e \<Rightarrow> Inl e
      | Inr h5 \<Rightarrow>
     (case deref h5 newNode of
        Inl e \<Rightarrow> Inl e
      | Inr n \<Rightarrow>
     (case FLUSH_INSERT n (MR_mem s4) of
        Inl e \<Rightarrow> Inl e
      | Inr m6 \<Rightarrow>
          Inr (Some True,
               MR_unlock_nodes (s4\<lparr>MR_heap := h5, MR_mem := m6\<rparr>) pbp cbp ph ch))))))))))"

text \<open>One pass of the loop of \<open>insert\<close>: \<open>find\<close>, the bit patterns, the lock requests.\<close>

definition MR_insert_attempt ::
  "'a MRLockDurableSet \<Rightarrow> int \<Rightarrow> 'a \<Rightarrow> int \<Rightarrow> (error + (bool option \<times> 'a MRLockDurableSet)) option" where
  "MR_insert_attempt s k it ident =
     (case MR_find s k of
        None \<Rightarrow> None
      | Some (Inl e) \<Rightarrow> Some (Inl e)
      | Some (Inr (previous, current)) \<Rightarrow>
         (case deref (MR_heap s) previous of
            Inl e \<Rightarrow> Some (Inl e)
          | Inr pn \<Rightarrow>
         (case deref (MR_heap s) current of
            Inl e \<Rightarrow> Some (Inl e)
          | Inr cn \<Rightarrow>
         (case MR_lock_nodes (MR_mrLock s) (resourceID pn) (resourceID cn) of
            None \<Rightarrow> None
          | Some (ph, ch, l) \<Rightarrow>
              Some (MR_insert_locked (s\<lparr>MR_mrLock := l\<rparr>) k it ident previous current
                      (resourceID pn) (resourceID cn) ph ch)))))"

text \<open>\<open>MRLockDurableSet::insert\<close>\<close>

partial_function (option) MR_insert ::
  "'a MRLockDurableSet \<Rightarrow> int \<Rightarrow> 'a \<Rightarrow> int \<Rightarrow> (error + bool \<times> 'a MRLockDurableSet) option" where
  "MR_insert s k it ident =
     (case MR_insert_attempt s k it ident of
        None \<Rightarrow> None
      | Some (Inl e) \<Rightarrow> Some (Inl e)
      | Some (Inr (None, s')) \<Rightarrow> MR_insert s' k it ident
      | Some (Inr (Some b, s')) \<Rightarrow> Some (Inr (b, s')))"

text \<open>\<open>MRLockDurableSet::contains\<close>\<close>

partial_function (option) MR_contains_loop ::
  "(uintptr \<rightharpoonup> 'a MRNode) \<Rightarrow> int \<Rightarrow> uintptr \<Rightarrow> (error + uintptr) option" where
  "MR_contains_loop hp k current =
     (case hp current of
        None \<Rightarrow> Some (Inl BadDeref)
      | Some c \<Rightarrow>
          if nkey c < k then MR_contains_loop hp k (nnext c)
          else Some (Inr current))"

definition MR_contains :: "'a MRLockDurableSet \<Rightarrow> int \<Rightarrow> (error + bool) option" where
  "MR_contains s k =
     (case MR_heap s (MR_head s) of
        None \<Rightarrow> Some (Inl BadDeref)
      | Some hn \<Rightarrow>
         (case MR_contains_loop (MR_heap s) k (nnext hn) of
            None \<Rightarrow> None
          | Some (Inl e) \<Rightarrow> Some (Inl e)
          | Some (Inr current) \<Rightarrow>
             (case MR_heap s current of
                None \<Rightarrow> Some (Inl BadDeref)
              | Some c \<Rightarrow>
                  if nkey c \<noteq> k \<or> isNextMarked c then Some (Inr False) else Some (Inr True))))"

text \<open>
  One pass of the loop of \<open>MRLockDurableSet::remove\<close>, after the nodes are locked.
  \<open>successor->mark()\<close> is a member call: on a pointer that addresses no node it is an
  error.
\<close>

definition MR_remove_locked ::
  "'a MRLockDurableSet \<Rightarrow> int \<Rightarrow> uintptr \<Rightarrow> uintptr
     \<Rightarrow> 32 word \<Rightarrow> 32 word \<Rightarrow> 32 word \<Rightarrow> 32 word
     \<Rightarrow> error + (bool option \<times> 'a MRLockDurableSet)" where
  "MR_remove_locked s k previous current pbp cbp ph ch =
     (case deref (MR_heap s) previous of
        Inl e \<Rightarrow> Inl e
      | Inr pn \<Rightarrow>
          if nnext pn \<noteq> current then Inr (None, MR_unlock_nodes s pbp cbp ph ch)
          else
     (case deref (MR_heap s) current of
        Inl e \<Rightarrow> Inl e
      | Inr cn \<Rightarrow>
          if isNextMarked cn then Inr (None, MR_unlock_nodes s pbp cbp ph ch)
          else if nkey cn \<noteq> k then Inr (Some False, MR_unlock_nodes s pbp cbp ph ch)
          else
            let successor = nnext cn in
     (case deref (MR_heap s) successor of
        Inl e \<Rightarrow> Inl e
      | Inr _ \<Rightarrow>
     (case store (MR_heap s) current (\<lambda>n. n\<lparr>nnext := mark successor\<rparr>) of
        Inl e \<Rightarrow> Inl e
      | Inr h1 \<Rightarrow>
     (case store h1 previous (\<lambda>n. n\<lparr>nnext := successor\<rparr>) of
        Inl e \<Rightarrow> Inl e
      | Inr h2 \<Rightarrow>
     (case deref h2 current of
        Inl e \<Rightarrow> Inl e
      | Inr n \<Rightarrow>
     (case FLUSH_DELETE n (MR_mem s) of
        Inl e \<Rightarrow> Inl e
      | Inr m3 \<Rightarrow>
          Inr (Some True,
               MR_unlock_nodes (s\<lparr>MR_heap := h2, MR_mem := m3\<rparr>) pbp cbp ph ch))))))))"

definition MR_remove_attempt ::
  "'a MRLockDurableSet \<Rightarrow> int \<Rightarrow> int \<Rightarrow> (error + (bool option \<times> 'a MRLockDurableSet)) option" where
  "MR_remove_attempt s k ident =
     (case MR_find s k of
        None \<Rightarrow> None
      | Some (Inl e) \<Rightarrow> Some (Inl e)
      | Some (Inr (previous, current)) \<Rightarrow>
         (case deref (MR_heap s) previous of
            Inl e \<Rightarrow> Some (Inl e)
          | Inr pn \<Rightarrow>
         (case deref (MR_heap s) current of
            Inl e \<Rightarrow> Some (Inl e)
          | Inr cn \<Rightarrow>
         (case MR_lock_nodes (MR_mrLock s) (resourceID pn) (resourceID cn) of
            None \<Rightarrow> None
          | Some (ph, ch, l) \<Rightarrow>
              Some (MR_remove_locked (s\<lparr>MR_mrLock := l\<rparr>) k previous current
                      (resourceID pn) (resourceID cn) ph ch)))))"

text \<open>\<open>MRLockDurableSet::remove\<close>\<close>

partial_function (option) MR_remove ::
  "'a MRLockDurableSet \<Rightarrow> int \<Rightarrow> int \<Rightarrow> (error + bool \<times> 'a MRLockDurableSet) option" where
  "MR_remove s k ident =
     (case MR_remove_attempt s k ident of
        None \<Rightarrow> None
      | Some (Inl e) \<Rightarrow> Some (Inl e)
      | Some (Inr (None, s')) \<Rightarrow> MR_remove s' k ident
      | Some (Inr (Some b, s')) \<Rightarrow> Some (Inr (b, s')))"

lemmas MR_eval = MR_ctor_eval MR_insert.simps MR_insert_attempt_def MR_insert_locked_def
  MR_find_def MR_find_loop.simps MR_lock_nodes_def MR_unlock_nodes_def MRLock_Lock_def
  MRLock_Unlock_def MR_allocFromArea_def MR_updateAlloc_def deref_def store_def
  retrieveAddress_def updateAddress_def flipV1_def makeValid_def FLUSH_INSERT_def FLUSH_def
  COPY_def new_MemCell_def isNextMarked_def MR_contains_def MR_contains_loop.simps
  MR_remove.simps MR_remove_attempt_def MR_remove_locked_def FLUSH_DELETE_def mark_def


section \<open>The list invariant of the MRLock set\<close>

definition pool_ok ::
  "(uintptr \<rightharpoonup> 'n) \<Rightarrow> uintptr list \<Rightarrow> int list \<Rightarrow> uintptr list list \<Rightarrow> bool" where
  "pool_ok hp used ais pools \<longleftrightarrow>
     length ais = length pools
   \<and> (\<forall>i. i < length ais \<longrightarrow> - 1 \<le> ais ! i \<and> ais ! i < int (length (pools ! i)))
   \<and> distinct (free_nodes ais pools)
   \<and> set (free_nodes ais pools) \<inter> set used = {}
   \<and> set (free_nodes ais pools) \<subseteq> dom hp"

lemma pool_ok_same:
  "pool_ok hp used ais pools \<Longrightarrow> dom hp \<subseteq> dom hp' \<Longrightarrow> set used' \<subseteq> set used \<Longrightarrow>
     pool_ok hp' used' ais pools"
  unfolding pool_ok_def by blast

lemma pool_ok_consume:
  assumes ok: "pool_ok hp used ais pools"
    and at1: "at pools ident = Inr row" and at2: "at ais ident = Inr a" and at3: "at row a = Inr nn"
    and dm: "dom hp \<subseteq> dom hp'" and us: "set used' \<subseteq> set used \<union> {nn}"
  shows "pool_ok hp' used' (ais[nat ident := a - 1]) pools \<and> nn \<notin> set used \<and> nn \<in> dom hp"
proof -
  from at_Inr[OF at1] at_Inr[OF at2] at_Inr[OF at3]
  have i: "0 \<le> ident" "nat ident < length pools" "row = pools ! nat ident"
    "nat ident < length ais" "a = ais ! nat ident" "0 \<le> a" "a < int (length row)" "nn = row ! nat a"
    by auto
  from ok have len: "length ais = length pools"
    and rng: "\<forall>i. i < length ais \<longrightarrow> - 1 \<le> ais ! i \<and> ais ! i < int (length (pools ! i))"
    and dist: "distinct (free_nodes ais pools)"
    and disj: "set (free_nodes ais pools) \<inter> set used = {}"
    and sub: "set (free_nodes ais pools) \<subseteq> dom hp"
    by (simp_all add: pool_ok_def)
  from free_nodes_consume[of "nat ident" ais pools] i len obtain A B where
    f: "free_nodes ais pools = A @ [nn] @ B"
       "free_nodes (ais[nat ident := a - 1]) pools = A @ B"
    by auto
  from f(1) dist have nnA: "nn \<notin> set A" "nn \<notin> set B" "distinct (A @ B)" by auto
  from f(1) disj sub have nn: "nn \<notin> set used" "nn \<in> dom hp" by auto
  have rng': "\<forall>i. i < length (ais[nat ident := a - 1]) \<longrightarrow>
      - 1 \<le> ais[nat ident := a - 1] ! i \<and> ais[nat ident := a - 1] ! i < int (length (pools ! i))"
    using rng i by (auto simp: nth_list_update)
  have disj': "set (A @ B) \<inter> set used' = {}"
    using disj f(1) nnA us by auto
  have "set (A @ B) \<subseteq> set (free_nodes ais pools)" unfolding f(1) by auto
  with sub dm have sub': "set (A @ B) \<subseteq> dom hp'" by blast
  show ?thesis
    unfolding pool_ok_def f(2) using len rng' nnA(3) disj' sub' nn by simp
qed

lemma MR_find_loop_chain:
  "chain hp p (xs @ c # ys) q \<Longrightarrow> (\<forall>a\<in>set xs. keyof hp a < k) \<Longrightarrow> k \<le> keyof hp c \<Longrightarrow>
     MR_find_loop hp k prev p = Some (Inr (last (prev # xs), c))"
proof (induction xs arbitrary: prev p)
  case Nil
  then show ?case
    by (subst MR_find_loop.simps) (auto simp: keyof_def)
next
  case (Cons x xs)
  from Cons.prems obtain n where n: "p = x" "hp x = Some n" "chain hp (nnext n) (xs @ c # ys) q"
    by auto
  from Cons.prems n have lt: "nkey n < k" by (auto simp: keyof_def)
  from Cons.IH[OF n(3), of x] Cons.prems
  have "MR_find_loop hp k x (nnext n) = Some (Inr (last (x # xs), c))" by simp
  with n lt show ?case
    by (subst MR_find_loop.simps) simp
qed

lemma MR_find_loop_overrun:
  "chain hp p xs 0 \<Longrightarrow> (\<forall>a\<in>set xs. keyof hp a < k) \<Longrightarrow> hp 0 = None \<Longrightarrow>
     MR_find_loop hp k prev p = Some (Inl BadDeref)"
proof (induction xs arbitrary: prev p)
  case Nil
  then show ?case by (subst MR_find_loop.simps) simp
next
  case (Cons x xs)
  from Cons.prems obtain n where n: "p = x" "hp x = Some n" "chain hp (nnext n) xs 0"
    by auto
  from Cons.prems n have lt: "nkey n < k" by (auto simp: keyof_def)
  from Cons.IH[OF n(3), of x] Cons.prems
  have "MR_find_loop hp k x (nnext n) = Some (Inl BadDeref)" by simp
  with n lt show ?case
    by (subst MR_find_loop.simps) simp
qed

lemma MR_contains_loop_chain:
  "chain hp p (xs @ c # ys) q \<Longrightarrow> (\<forall>a\<in>set xs. keyof hp a < k) \<Longrightarrow> k \<le> keyof hp c \<Longrightarrow>
     MR_contains_loop hp k p = Some (Inr c)"
proof (induction xs arbitrary: p)
  case Nil
  then show ?case
    by (subst MR_contains_loop.simps) (auto simp: keyof_def)
next
  case (Cons x xs)
  from Cons.prems obtain n where n: "p = x" "hp x = Some n" "chain hp (nnext n) (xs @ c # ys) q"
    by auto
  from Cons.prems n have lt: "nkey n < k" by (auto simp: keyof_def)
  from Cons.IH[OF n(3)] Cons.prems
  have "MR_contains_loop hp k (nnext n) = Some (Inr c)" by simp
  with n lt show ?case
    by (subst MR_contains_loop.simps) simp
qed

definition MR_inv :: "'a MRLockDurableSet \<Rightarrow> uintptr list \<Rightarrow> bool" where
  "MR_inv s ns \<longleftrightarrow>
     list_ok (MR_heap s) (MR_head s) (MR_tail s) ns
   \<and> pool_ok (MR_heap s) (MR_head s # ns) (MR_allocIndices s) (MR_preAllocatedNodes s)"

lemma MR_find_inv:
  assumes "MR_inv s ns"
  shows "(MAX_KEY < k \<longrightarrow> MR_find s k = Some (Inl BadDeref))
       \<and> (k \<le> MAX_KEY \<longrightarrow> (\<exists>xs c ys. ns = xs @ c # ys \<and> (\<forall>a\<in>set xs. keyof (MR_heap s) a < k)
              \<and> k \<le> keyof (MR_heap s) c \<and> MR_find s k = Some (Inr (last (MR_head s # xs), c))))"
proof -
  from assms have ok: "list_ok (MR_heap s) (MR_head s) (MR_tail s) ns" by (simp add: MR_inv_def)
  then obtain hn where hn: "MR_heap s (MR_head s) = Some hn" "chain (MR_heap s) (nnext hn) ns 0"
    by (auto simp: list_ok_def)
  from ok have z: "MR_heap s 0 = None" by (simp add: list_ok_def)
  show ?thesis
  proof (intro conjI impI)
    assume "MAX_KEY < k"
    from MR_find_loop_overrun[OF hn(2) list_ok_above[OF ok this] z] hn(1)
    show "MR_find s k = Some (Inl BadDeref)" by (simp add: MR_find_def)
  next
    assume "k \<le> MAX_KEY"
    from list_ok_split[OF ok this] obtain xs c ys where
      d: "ns = xs @ c # ys" "\<forall>a\<in>set xs. keyof (MR_heap s) a < k" "k \<le> keyof (MR_heap s) c" by blast
    from hn(2) d(1) have "chain (MR_heap s) (nnext hn) (xs @ c # ys) 0" by simp
    from MR_find_loop_chain[OF this d(2,3)] hn(1)
    have "MR_find s k = Some (Inr (last (MR_head s # xs), c))" by (simp add: MR_find_def)
    with d show "\<exists>xs c ys. ns = xs @ c # ys \<and> (\<forall>a\<in>set xs. keyof (MR_heap s) a < k)
              \<and> k \<le> keyof (MR_heap s) c \<and> MR_find s k = Some (Inr (last (MR_head s # xs), c))"
      by blast
  qed
qed

lemma MR_unlock_nodes_fields [simp]:
  "MR_heap (MR_unlock_nodes s a b c d) = MR_heap s"
  "MR_head (MR_unlock_nodes s a b c d) = MR_head s"
  "MR_tail (MR_unlock_nodes s a b c d) = MR_tail s"
  "MR_allocIndices (MR_unlock_nodes s a b c d) = MR_allocIndices s"
  "MR_preAllocatedNodes (MR_unlock_nodes s a b c d) = MR_preAllocatedNodes s"
  by (simp_all add: MR_unlock_nodes_def)

lemma MR_insert_locked_unchanged:
  assumes "MR_insert_locked s k it ident prev c pbp cbp ph ch = Inr (r, s')"
    and "r \<noteq> Some True" and "MR_heap s 0 = None"
  shows "MR_heap s' = MR_heap s \<and> MR_head s' = MR_head s \<and> MR_tail s' = MR_tail s
       \<and> MR_allocIndices s' = MR_allocIndices s \<and> MR_preAllocatedNodes s' = MR_preAllocatedNodes s"
  using assms
  by (auto simp: MR_insert_locked_def MR_allocFromArea_def store_def
           split: sum.splits if_splits option.splits prod.splits)

lemma MR_insert_locked_True:
  assumes "MR_insert_locked s k it ident prev c pbp cbp ph ch = Inr (Some True, s')"
  shows "\<exists>row a nn pn. at (MR_preAllocatedNodes s) ident = Inr row \<and> at (MR_allocIndices s) ident = Inr a
           \<and> at row a = Inr nn \<and> MR_heap s nn \<noteq> None \<and> MR_heap s prev = Some pn
           \<and> keyof (MR_heap s) c \<noteq> k
           \<and> (nn \<noteq> prev \<longrightarrow> links (MR_heap s') = (links (MR_heap s))(nn \<mapsto> (k, c), prev \<mapsto> (nkey pn, nn)))
           \<and> MR_head s' = MR_head s \<and> MR_tail s' = MR_tail s
           \<and> MR_preAllocatedNodes s' = MR_preAllocatedNodes s
           \<and> MR_allocIndices s' = (MR_allocIndices s)[nat ident := a - 1]"
  using assms
  apply (simp add: MR_insert_locked_def deref_def split: sum.splits prod.splits if_splits option.splits)
  apply (clarsimp simp: MR_allocFromArea_def MR_updateAlloc_def split: sum.splits if_splits)
  apply (drule store_Inr)+
  apply (clarsimp simp: makeValid_def flipV1_def keyof_def split: option.splits if_splits)
  apply (auto simp: links_upd fun_upd_twist)
  done

lemma MR_inv_frame:
  assumes "MR_inv s ns" and "MR_heap s' = MR_heap s" "MR_head s' = MR_head s" "MR_tail s' = MR_tail s"
    "MR_allocIndices s' = MR_allocIndices s" "MR_preAllocatedNodes s' = MR_preAllocatedNodes s"
  shows "MR_inv s' ns"
  using assms by (simp add: MR_inv_def)

lemma MR_insert_attempt_inv:
  assumes inv: "MR_inv s ns" and att: "MR_insert_attempt s k it ident = Some (Inr (r, s'))"
  shows "\<exists>ns'. MR_inv s' ns'"
proof -
  let ?hp = "MR_heap s" and ?h = "MR_head s"
  from inv have ok: "list_ok ?hp ?h (MR_tail s) ns"
    and pl: "pool_ok ?hp (?h # ns) (MR_allocIndices s) (MR_preAllocatedNodes s)"
    by (simp_all add: MR_inv_def)
  from ok have z: "?hp 0 = None" by (simp add: list_ok_def)
  from MR_find_inv[OF inv, of k] att have le: "k \<le> MAX_KEY"
    by (cases "k \<le> MAX_KEY") (auto simp: MR_insert_attempt_def)
  with MR_find_inv[OF inv, of k] obtain xs c ys where
    d: "ns = xs @ c # ys" "\<forall>a\<in>set xs. keyof ?hp a < k" "k \<le> keyof ?hp c"
       "MR_find s k = Some (Inr (last (?h # xs), c))" by blast
  define prev where "prev = last (?h # xs)"
  from att d(4) obtain l pbp cbp ph ch where
    lk: "MR_insert_locked (s\<lparr>MR_mrLock := l\<rparr>) k it ident prev c pbp cbp ph ch = Inr (r, s')"
    by (auto simp: MR_insert_attempt_def prev_def split: sum.splits option.splits)
  let ?s1 = "s\<lparr>MR_mrLock := l\<rparr>"
  have inv1: "MR_inv ?s1 ns" using inv by (simp add: MR_inv_def)
  show ?thesis
  proof (cases "r = Some True")
    case False
    from MR_insert_locked_unchanged[OF lk False] z
    have "MR_inv s' ns" by (intro MR_inv_frame[OF inv]) simp_all
    then show ?thesis by blast
  next
    case True
    with lk have lkT: "MR_insert_locked ?s1 k it ident prev c pbp cbp ph ch = Inr (Some True, s')"
      by simp
    from MR_insert_locked_True[OF lkT] obtain row a nn pn where
      all: "at (MR_preAllocatedNodes ?s1) ident = Inr row \<and> at (MR_allocIndices ?s1) ident = Inr a
           \<and> at row a = Inr nn \<and> MR_heap ?s1 nn \<noteq> None \<and> MR_heap ?s1 prev = Some pn
           \<and> keyof (MR_heap ?s1) c \<noteq> k
           \<and> (nn \<noteq> prev \<longrightarrow> links (MR_heap s') = (links (MR_heap ?s1))(nn \<mapsto> (k, c), prev \<mapsto> (nkey pn, nn)))
           \<and> MR_head s' = MR_head ?s1 \<and> MR_tail s' = MR_tail ?s1
           \<and> MR_preAllocatedNodes s' = MR_preAllocatedNodes ?s1
           \<and> MR_allocIndices s' = (MR_allocIndices ?s1)[nat ident := a - 1]"
      by blast
    from all have
      at: "at (MR_preAllocatedNodes s) ident = Inr row" "at (MR_allocIndices s) ident = Inr a"
          "at row a = Inr nn" and
      nn: "?hp nn \<noteq> None" and pn: "?hp prev = Some pn" and ne: "keyof ?hp c \<noteq> k" and
      l': "nn \<noteq> prev \<longrightarrow> links (MR_heap s') = (links ?hp)(nn \<mapsto> (k, c), prev \<mapsto> (nkey pn, nn))" and
      f: "MR_head s' = ?h" "MR_tail s' = MR_tail s"
         "MR_preAllocatedNodes s' = MR_preAllocatedNodes s"
         "MR_allocIndices s' = (MR_allocIndices s)[nat ident := a - 1]"
      by simp_all
    have prev_in: "prev \<in> set (?h # ns)" unfolding prev_def d(1)
      by (cases xs rule: rev_cases) auto
    let ?ns' = "xs @ nn # c # ys"
    have us: "set (?h # ?ns') \<subseteq> set (?h # ns) \<union> {nn}" using d(1) by auto
    have "dom (links ?hp) \<subseteq> dom (links ((MR_heap s')))"
    proof (cases "nn = prev")
      case True
      with pool_ok_consume[OF pl at subset_refl us] prev_in show ?thesis by blast
    next
      case False
      with l' show ?thesis by auto
    qed
    then have dm: "dom ?hp \<subseteq> dom (MR_heap s')" by (simp add: dom_links)
    from pool_ok_consume[OF pl at dm us]
    have pl': "pool_ok (MR_heap s') (?h # ?ns') ((MR_allocIndices s)[nat ident := a - 1])
                 (MR_preAllocatedNodes s)"
      and fresh: "nn \<notin> set (?h # ns)" by simp_all
    from fresh prev_in have np: "nn \<noteq> prev" by auto
    have kp: "nkey pn = keyof ?hp prev" using pn by (simp add: keyof_def)
    from l' np kp have l: "links (MR_heap s') =
        (links ?hp)(nn \<mapsto> (k, c), last (?h # xs) \<mapsto> (keyof ?hp (last (?h # xs)), nn))"
      by (simp add: prev_def)
    from d(3) ne have lt: "k < keyof ?hp c" by simp
    from list_insert_step[OF ok d(1) d(2) lt fresh nn l]
    have "list_ok (MR_heap s') ?h (MR_tail s) ?ns'" .
    with pl' have "MR_inv s' ?ns'" by (simp add: MR_inv_def f)
    then show ?thesis by blast
  qed
qed

lemma MR_insert_inv:
  assumes "MR_insert s k it ident = Some (Inr (b, s'))" and "\<exists>ns. MR_inv s ns"
  shows "\<exists>ns'. MR_inv s' ns'"
proof -
  define P where "P = (\<lambda>(s :: 'a MRLockDurableSet) (k :: int) (it :: 'a) (ident :: int)
      (y :: error + bool \<times> 'a MRLockDurableSet).
        (\<exists>ns. MR_inv s ns) \<longrightarrow> (\<forall>b s'. y = Inr (b, s') \<longrightarrow> (\<exists>ns'. MR_inv s' ns')))"
  have "P s k it ident (Inr (b, s'))"
  proof (rule MR_insert.raw_induct[where P = P, OF _ assms(1)])
    fix ins :: "'a MRLockDurableSet \<Rightarrow> int \<Rightarrow> 'a \<Rightarrow> int \<Rightarrow> (error + bool \<times> 'a MRLockDurableSet) option"
    fix s k it ident y
    assume IH: "\<And>s k it ident y. ins s k it ident = Some y \<Longrightarrow> P s k it ident y"
      and step: "(case MR_insert_attempt s k it ident of None \<Rightarrow> None
                  | Some (Inl e) \<Rightarrow> Some (Inl e)
                  | Some (Inr (None, s')) \<Rightarrow> ins s' k it ident
                  | Some (Inr (Some b, s')) \<Rightarrow> Some (Inr (b, s'))) = Some y"
    show "P s k it ident y"
      unfolding P_def
    proof (intro impI allI)
      fix b s'
      assume ex: "\<exists>ns. MR_inv s ns" and y: "y = Inr (b, s')"
      then obtain ns where inv: "MR_inv s ns" by blast
      from step y obtain r s1 where att: "MR_insert_attempt s k it ident = Some (Inr (r, s1))"
        and rest: "(case r of None \<Rightarrow> ins s1 k it ident | Some b \<Rightarrow> Some (Inr (b, s1))) = Some (Inr (b, s'))"
        by (auto split: option.splits sum.splits prod.splits)
      from MR_insert_attempt_inv[OF inv att] have inv1: "\<exists>ns'. MR_inv s1 ns'" .
      show "\<exists>ns'. MR_inv s' ns'"
      proof (cases r)
        case None
        with rest have "ins s1 k it ident = Some (Inr (b, s'))" by simp
        from IH[OF this] inv1 show ?thesis unfolding P_def by blast
      next
        case (Some b')
        with rest inv1 show ?thesis by simp
      qed
    qed
  qed
  with assms(2) show ?thesis unfolding P_def by blast
qed

lemma MR_remove_locked_unchanged:
  assumes "MR_remove_locked s k prev c pbp cbp ph ch = Inr (r, s')"
    and "r \<noteq> Some True"
  shows "MR_heap s' = MR_heap s \<and> MR_head s' = MR_head s \<and> MR_tail s' = MR_tail s
       \<and> MR_allocIndices s' = MR_allocIndices s \<and> MR_preAllocatedNodes s' = MR_preAllocatedNodes s"
  using assms
  by (auto simp: MR_remove_locked_def Let_def
           split: sum.splits if_splits option.splits prod.splits)

lemma MR_remove_locked_True:
  assumes "MR_remove_locked s k prev c pbp cbp ph ch = Inr (Some True, s')"
  shows "\<exists>pn cn. MR_heap s prev = Some pn \<and> MR_heap s c = Some cn \<and> MR_heap s (nnext cn) \<noteq> None
           \<and> links (MR_heap s') = (links (MR_heap s))(c \<mapsto> (nkey cn, mark (nnext cn)),
                                                       prev \<mapsto> (nkey pn, nnext cn))
           \<and> MR_head s' = MR_head s \<and> MR_tail s' = MR_tail s
           \<and> MR_preAllocatedNodes s' = MR_preAllocatedNodes s
           \<and> MR_allocIndices s' = MR_allocIndices s"
  using assms
  apply (simp add: MR_remove_locked_def deref_def Let_def split: sum.splits prod.splits if_splits option.splits)
  apply (drule store_Inr)+
  apply (auto simp: links_upd fun_upd_twist split: if_splits)
  done

lemma MR_remove_attempt_inv:
  assumes inv: "MR_inv s ns" and att: "MR_remove_attempt s k ident = Some (Inr (r, s'))"
  shows "\<exists>ns'. MR_inv s' ns'"
proof -
  let ?hp = "MR_heap s" and ?h = "MR_head s"
  from inv have ok: "list_ok ?hp ?h (MR_tail s) ns"
    and pl: "pool_ok ?hp (?h # ns) (MR_allocIndices s) (MR_preAllocatedNodes s)"
    by (simp_all add: MR_inv_def)
  from MR_find_inv[OF inv, of k] att have le: "k \<le> MAX_KEY"
    by (cases "k \<le> MAX_KEY") (auto simp: MR_remove_attempt_def)
  with MR_find_inv[OF inv, of k] obtain xs c ys where
    d: "ns = xs @ c # ys" "\<forall>a\<in>set xs. keyof ?hp a < k" "k \<le> keyof ?hp c"
       "MR_find s k = Some (Inr (last (?h # xs), c))" by blast
  define prev where "prev = last (?h # xs)"
  from att d(4) obtain l pbp cbp ph ch where
    lk: "MR_remove_locked (s\<lparr>MR_mrLock := l\<rparr>) k prev c pbp cbp ph ch = Inr (r, s')"
    by (auto simp: MR_remove_attempt_def prev_def split: sum.splits option.splits)
  let ?s1 = "s\<lparr>MR_mrLock := l\<rparr>"
  show ?thesis
  proof (cases "r = Some True")
    case False
    from MR_remove_locked_unchanged[OF lk False]
    have "MR_inv s' ns" by (intro MR_inv_frame[OF inv]) simp_all
    then show ?thesis by blast
  next
    case True
    with lk have lkT: "MR_remove_locked ?s1 k prev c pbp cbp ph ch = Inr (Some True, s')"
      by simp
    from MR_remove_locked_True[OF lkT] obtain pn cn where
      all: "MR_heap ?s1 prev = Some pn \<and> MR_heap ?s1 c = Some cn \<and> MR_heap ?s1 (nnext cn) \<noteq> None
           \<and> links (MR_heap s') = (links (MR_heap ?s1))(c \<mapsto> (nkey cn, mark (nnext cn)),
                                                       prev \<mapsto> (nkey pn, nnext cn))
           \<and> MR_head s' = MR_head ?s1 \<and> MR_tail s' = MR_tail ?s1
           \<and> MR_preAllocatedNodes s' = MR_preAllocatedNodes ?s1
           \<and> MR_allocIndices s' = MR_allocIndices ?s1"
      by blast
    from all have pn: "?hp prev = Some pn" and cn: "?hp c = Some cn" and sc: "?hp (nnext cn) \<noteq> None"
      and l': "links (MR_heap s') = (links ?hp)(c \<mapsto> (nkey cn, mark (nnext cn)),
                                                       prev \<mapsto> (nkey pn, nnext cn))"
      and f: "MR_head s' = ?h" "MR_tail s' = MR_tail s"
         "MR_preAllocatedNodes s' = MR_preAllocatedNodes s"
         "MR_allocIndices s' = MR_allocIndices s"
      by simp_all
    have kp: "nkey pn = keyof ?hp prev" using pn by (simp add: keyof_def)
    from l' kp have l: "links (MR_heap s') =
        (links ?hp)(c \<mapsto> (nkey cn, mark (nnext cn)),
                    last (?h # xs) \<mapsto> (keyof ?hp (last (?h # xs)), nnext cn))"
      by (simp add: prev_def)
    from list_remove_step[OF ok d(1) cn sc l]
    have ok': "list_ok (MR_heap s') ?h (MR_tail s) (xs @ ys)" by simp
    from l' have "dom (links ?hp) \<subseteq> dom (links (MR_heap s'))" by auto
    then have dm: "dom ?hp \<subseteq> dom (MR_heap s')" by (simp add: dom_links)
    have us: "set (?h # xs @ ys) \<subseteq> set (?h # ns)" using d(1) by auto
    from pool_ok_same[OF pl dm us] ok'
    have "MR_inv s' (xs @ ys)" by (simp add: MR_inv_def f)
    then show ?thesis by blast
  qed
qed

lemma MR_remove_inv:
  assumes "MR_remove s k ident = Some (Inr (b, s'))" and "\<exists>ns. MR_inv s ns"
  shows "\<exists>ns'. MR_inv s' ns'"
proof -
  define P where "P = (\<lambda>(s :: 'a MRLockDurableSet) (k :: int) (ident :: int)
      (y :: error + bool \<times> 'a MRLockDurableSet).
        (\<exists>ns. MR_inv s ns) \<longrightarrow> (\<forall>b s'. y = Inr (b, s') \<longrightarrow> (\<exists>ns'. MR_inv s' ns')))"
  have "P s k ident (Inr (b, s'))"
  proof (rule MR_remove.raw_induct[where P = P, OF _ assms(1)])
    fix rmv :: "'a MRLockDurableSet \<Rightarrow> int \<Rightarrow> int \<Rightarrow> (error + bool \<times> 'a MRLockDurableSet) option"
    fix s k ident y
    assume IH: "\<And>s k ident y. rmv s k ident = Some y \<Longrightarrow> P s k ident y"
      and step: "(case MR_remove_attempt s k ident of None \<Rightarrow> None
                  | Some (Inl e) \<Rightarrow> Some (Inl e)
                  | Some (Inr (None, s')) \<Rightarrow> rmv s' k ident
                  | Some (Inr (Some b, s')) \<Rightarrow> Some (Inr (b, s'))) = Some y"
    show "P s k ident y"
      unfolding P_def
    proof (intro impI allI)
      fix b s'
      assume ex: "\<exists>ns. MR_inv s ns" and y: "y = Inr (b, s')"
      then obtain ns where inv: "MR_inv s ns" by blast
      from step y obtain r s1 where att: "MR_remove_attempt s k ident = Some (Inr (r, s1))"
        and rest: "(case r of None \<Rightarrow> rmv s1 k ident | Some b \<Rightarrow> Some (Inr (b, s1))) = Some (Inr (b, s'))"
        by (auto split: option.splits sum.splits prod.splits)
      from MR_remove_attempt_inv[OF inv att] have inv1: "\<exists>ns'. MR_inv s1 ns'" .
      show "\<exists>ns'. MR_inv s' ns'"
      proof (cases r)
        case None
        with rest have "rmv s1 k ident = Some (Inr (b, s'))" by simp
        from IH[OF this] inv1 show ?thesis unfolding P_def by blast
      next
        case (Some b')
        with rest inv1 show ?thesis by simp
      qed
    qed
  qed
  with assms(2) show ?thesis unfolding P_def by blast
qed

text \<open>The constructor establishes the invariant.\<close>

lemma MR_fresh_inv:
  assumes new: "new_MRLockDurableSet m numIDs ws alloc = Inr s"
    and va: "valid_alloc alloc (sum_list (map nat (take (nat numIDs) ws)) + 2)"
  shows "MR_inv s [MR_tail s]"
proof -
  define N where "N = sum_list (map nat (take (nat numIDs) ws))"
  from MR_ctor_result[OF new va] have
    cc: "concat (MR_preAllocatedNodes s) = map alloc [0..<N]" and
    h: "MR_head s = alloc N" and t: "MR_tail s = alloc (Suc N)" and
    hh: "MR_heap s (MR_head s) = Some ((new_MRNode 1)\<lparr>nnext := MR_tail s, nkey := MIN_KEY\<rparr>)" and
    ht: "MR_heap s (MR_tail s) = Some ((new_MRNode 2)\<lparr>nkey := MAX_KEY\<rparr>)" and
    dm: "dom (MR_heap s) = alloc ` {..<N + 2}" and
    lp: "length (MR_preAllocatedNodes s) = nat numIDs" and
    la: "length (MR_allocIndices s) = nat numIDs" and
    ai: "\<forall>i. i < nat numIDs \<longrightarrow> MR_allocIndices s ! i = int (length (MR_preAllocatedNodes s ! i)) - 1"
    unfolding N_def by blast+
  have upt: "[0..<N + 2] = [0..<N] @ [N, Suc N]" by simp
  from va have d: "distinct (map alloc [0..<N])" "alloc N \<notin> set (map alloc [0..<N])"
    "alloc (Suc N) \<notin> set (map alloc [0..<N])" "alloc N \<noteq> alloc (Suc N)"
    unfolding valid_alloc_def N_def[symmetric] upt by auto
  from va have nz: "\<forall>i<N + 2. alloc i \<noteq> 0"
    unfolding valid_alloc_def N_def[symmetric] by (auto simp: less_Suc_eq)
  from nz have "0 \<notin> alloc ` {..<N + 2}" by (metis imageE lessThan_iff)
  with dm have "0 \<notin> dom (MR_heap s)" by simp
  then have z: "MR_heap s 0 = None" by blast
  have ok: "list_ok (MR_heap s) (MR_head s) (MR_tail s) [MR_tail s]"
    unfolding list_ok_def using hh ht z d(4) h t
    by (simp add: keyof_def new_MRNode_def)
  from free_nodes_full[of "MR_allocIndices s" "MR_preAllocatedNodes s"] la lp ai
  have fr: "free_nodes (MR_allocIndices s) (MR_preAllocatedNodes s) = map alloc [0..<N]"
    by (simp add: cc)
  have sub: "set (map alloc [0..<N]) \<subseteq> dom (MR_heap s)" unfolding dm by auto
  have pl: "pool_ok (MR_heap s) [MR_head s, MR_tail s] (MR_allocIndices s) (MR_preAllocatedNodes s)"
    unfolding pool_ok_def fr using la lp ai d sub h t by auto
  from ok pl show ?thesis by (simp add: MR_inv_def)
qed

lemma MR_contains_inv:
  assumes "MR_inv s ns"
  shows "MR_contains s MAX_KEY = Some (Inr True)"
proof -
  let ?hp = "MR_heap s"
  from assms have ok: "list_ok ?hp (MR_head s) (MR_tail s) ns" by (simp add: MR_inv_def)
  then have ne: "ns \<noteq> []" and lst: "last ns = MR_tail s" and kt: "keyof ?hp (MR_tail s) = MAX_KEY"
    and srt: "sorted_wrt (<) (map (keyof ?hp) ns)" and dist: "distinct ns"
    by (simp_all add: list_ok_def)
  from ok obtain hn where hn: "?hp (MR_head s) = Some hn" "chain ?hp (nnext hn) ns 0"
    by (auto simp: list_ok_def)
  from ne lst have d: "ns = butlast ns @ [MR_tail s]" by (metis append_butlast_last_id)
  from srt have "sorted_wrt (<) (map (keyof ?hp) (butlast ns @ [MR_tail s]))" using d by simp
  then have lt: "\<forall>a\<in>set (butlast ns). keyof ?hp a < MAX_KEY"
    by (simp add: sorted_wrt_append kt)
  from hn(2) d have ch: "chain ?hp (nnext hn) (butlast ns @ MR_tail s # []) 0" by simp
  then obtain tn where tn: "?hp (MR_tail s) = Some tn" "nnext tn = 0"
    by (auto simp: chain_split_at)
  from kt tn have ktn: "nkey tn = MAX_KEY" by (simp add: keyof_def)
  from MR_contains_loop_chain[OF ch lt] kt
  have "MR_contains_loop ?hp MAX_KEY (nnext hn) = Some (Inr (MR_tail s))" by simp
  with hn(1) tn ktn show ?thesis by (simp add: MR_contains_def isNextMarked_def)
qed

text \<open>
  The states of the MRLock set reached from the constructor by inserts and removes of one
  caller at a time that return.
\<close>

inductive MR_reachable :: "('a :: zero) MRLockDurableSet \<Rightarrow> bool" where
  fresh: "new_MRLockDurableSet m numIDs ws alloc = Inr s \<Longrightarrow>
          valid_alloc alloc (sum_list (map nat (take (nat numIDs) ws)) + 2) \<Longrightarrow> MR_reachable s"
| after_insert: "MR_reachable s \<Longrightarrow> MR_insert s k it ident = Some (Inr (b, s')) \<Longrightarrow> MR_reachable s'"
| after_remove: "MR_reachable s \<Longrightarrow> MR_remove s k ident = Some (Inr (b, s')) \<Longrightarrow> MR_reachable s'"

lemma MR_reachable_inv: "MR_reachable s \<Longrightarrow> \<exists>ns. MR_inv s ns"
proof (induction rule: MR_reachable.induct)
  case (fresh m numIDs ws alloc s)
  from MR_fresh_inv[OF this] show ?case by blast
next
  case (after_insert s k it ident b s')
  from MR_insert_inv[OF after_insert(2) after_insert(3)] show ?case .
next
  case (after_remove s k ident b s')
  from MR_remove_inv[OF after_remove(2) after_remove(3)] show ?case .
qed

lemma MR_contains_MAX_KEY:
  assumes "MR_reachable s"
  shows "MR_contains s MAX_KEY = Some (Inr True)"
  using MR_reachable_inv[OF assms] MR_contains_inv by blast


section \<open>LockDurableSet\<close>

text \<open>
  \<open>struct Node\<close> of the Lock set: the fields of the Sequential node and a \<open>std::mutex\<close>,
  which is held (\<open>True\<close>) or free.
\<close>

record 'a LockNode = "'a Node" +
  mtx :: bool

definition new_LockNode :: "('a::zero) LockNode" where
  "new_LockNode = \<lparr>nkey = 0, nitem = 0, nvalidBits = 0, nnext = 0,
               durableAddressPrefix = - 1, durableAddressPostfix = - 1, mtx = False\<rparr>"

text \<open>
  \<open>p->mtx.lock()\<close> and \<open>p->mtx.unlock()\<close>. Locking a mutex that is held waits; with one
  caller nobody releases it, so the call never returns (\<open>None\<close>).
\<close>

definition mtx_lock ::
  "(uintptr \<rightharpoonup> 'a LockNode) \<Rightarrow> uintptr \<Rightarrow> (error + (uintptr \<rightharpoonup> 'a LockNode)) option" where
  "mtx_lock hp p =
     (case hp p of
        None \<Rightarrow> Some (Inl BadDeref)
      | Some n \<Rightarrow> if mtx n then None else Some (Inr (hp(p \<mapsto> n\<lparr>mtx := True\<rparr>))))"

definition mtx_unlock ::
  "(uintptr \<rightharpoonup> 'a LockNode) \<Rightarrow> uintptr \<Rightarrow> error + (uintptr \<rightharpoonup> 'a LockNode)" where
  "mtx_unlock hp p = store hp p (\<lambda>n. n\<lparr>mtx := False\<rparr>)"

record 'a LockDurableSet =
  Lock_heap :: "uintptr \<rightharpoonup> 'a LockNode"
  Lock_head :: uintptr
  Lock_tail :: uintptr
  Lock_mem :: "'a MemoryManager"
  Lock_preAllocatedNodes :: "uintptr list list"
  Lock_allocIndices :: "int list"
  Lock_maxIndices :: "int list"
  Lock_keysVolatileRecovered :: "int list"
  Lock_keysDurableRecovered :: "int list"
  Lock_numIDs :: int

text \<open>
  The local state of the constructor's allocation loops: the heap and the pool vectors
  built so far, and the number of \<open>new Node()\<close> calls made.
\<close>

record 'a Lock_build =
  lb_heap :: "uintptr \<rightharpoonup> 'a LockNode"
  lb_pools :: "uintptr list list"
  lb_news :: nat

text \<open>The body of the inner loop, for writer \<open>i\<close> and index \<open>j\<close>.\<close>

definition Lock_build_node ::
  "(nat \<Rightarrow> uintptr) \<Rightarrow> nat \<Rightarrow> nat \<Rightarrow> ('a::zero) Lock_build \<Rightarrow> error + 'a Lock_build" where
  "Lock_build_node alloc i j b =
     (case at (lb_pools b) (int i) of
        Inl e \<Rightarrow> Inl e
      | Inr row \<Rightarrow>
         (case at row (int j) of
            Inl e \<Rightarrow> Inl e
          | Inr _ \<Rightarrow>
              let a = alloc (lb_news b)
              in Inr (b\<lparr>lb_heap := (lb_heap b)(a \<mapsto> new_LockNode),
                        lb_pools := (lb_pools b)[i := row[j := a]],
                        lb_news := lb_news b + 1\<rparr>)))"

text \<open>The body of the outer allocation loop, for writer \<open>i\<close>.\<close>

definition Lock_build_section ::
  "(nat \<Rightarrow> uintptr) \<Rightarrow> int list \<Rightarrow> nat \<Rightarrow> ('a::zero) Lock_build \<Rightarrow> error + 'a Lock_build" where
  "Lock_build_section alloc writeOpsVector i b =
     (case at (lb_pools b) (int i) of
        Inl e \<Rightarrow> Inl e
      | Inr _ \<Rightarrow>
         (case at writeOpsVector (int i) of
            Inl e \<Rightarrow> Inl e
          | Inr w \<Rightarrow>
              if w < 0 then Inl LengthError
              else for_loop [0..<nat w] (Lock_build_node alloc i)
                     (b\<lparr>lb_pools := (lb_pools b)[i := replicate (nat w) 0]\<rparr>)))"

text \<open>\<open>LockDurableSet::LockDurableSet\<close>\<close>

definition new_LockDurableSet ::
  "('a::zero) MemoryManager \<Rightarrow> int \<Rightarrow> int list \<Rightarrow> (nat \<Rightarrow> uintptr) \<Rightarrow> error + 'a LockDurableSet" where
  "new_LockDurableSet m numIDs writeOpsVector alloc =
     (if numIDs < 0 then Inl LengthError
      else
        (case for_loop [0..<nat numIDs] (set_indices writeOpsVector)
                (replicate (nat numIDs) 0, replicate (nat numIDs) 0) of
           Inl e \<Rightarrow> Inl e
         | Inr (ai, mi) \<Rightarrow>
            (case for_loop [0..<nat numIDs] (Lock_build_section alloc writeOpsVector)
                    \<lparr>lb_heap = Map.empty, lb_pools = replicate (nat numIDs) [], lb_news = 0\<rparr> of
               Inl e \<Rightarrow> Inl e
             | Inr b \<Rightarrow>
                 let h = alloc (lb_news b);
                     t = alloc (lb_news b + 1);
                     hp1 = (lb_heap b)(h \<mapsto> new_LockNode);
                     hp2 = hp1(t \<mapsto> new_LockNode);
                     hp3 = (case hp2 h of None \<Rightarrow> hp2 | Some n \<Rightarrow> hp2(h \<mapsto> n\<lparr>nnext := t\<rparr>));
                     hp4 = (case hp3 h of None \<Rightarrow> hp3 | Some n \<Rightarrow> hp3(h \<mapsto> n\<lparr>nkey := MIN_KEY\<rparr>));
                     hp5 = (case hp4 t of None \<Rightarrow> hp4 | Some n \<Rightarrow> hp4(t \<mapsto> n\<lparr>nkey := MAX_KEY\<rparr>))
                 in Inr \<lparr>Lock_heap = hp5, Lock_head = h, Lock_tail = t, Lock_mem = m,
                          Lock_preAllocatedNodes = lb_pools b,
                          Lock_allocIndices = ai, Lock_maxIndices = mi,
                          Lock_keysVolatileRecovered = [], Lock_keysDurableRecovered = [],
                          Lock_numIDs = numIDs\<rparr>)))"

text \<open>\<open>LockDurableSet::allocFromArea\<close>\<close>

definition Lock_allocFromArea ::
  "'a LockDurableSet \<Rightarrow> int \<Rightarrow> error + (uintptr \<times> 'a LockDurableSet)" where
  "Lock_allocFromArea s ident =
     (case at (Lock_preAllocatedNodes s) ident of
        Inl e \<Rightarrow> Inl e
      | Inr row \<Rightarrow>
     (case at (Lock_allocIndices s) ident of
        Inl e \<Rightarrow> Inl e
      | Inr ai \<Rightarrow>
     (case at row ai of
        Inl e \<Rightarrow> Inl e
      | Inr newNode \<Rightarrow>
     (case retrieveAddress (Lock_mem s) ident of
        Inl e \<Rightarrow> Inl e
      | Inr durAddr \<Rightarrow>
          if durAddr = - 1 then Inr (0, s)
          else
            (case store (Lock_heap s) newNode
                    (\<lambda>n. n\<lparr>durableAddressPrefix := ident, durableAddressPostfix := durAddr\<rparr>) of
               Inl e \<Rightarrow> Inl e
             | Inr hp \<Rightarrow> Inr (newNode, s\<lparr>Lock_heap := hp\<rparr>))))))"

text \<open>\<open>LockDurableSet::updateAlloc\<close>\<close>

definition Lock_updateAlloc :: "'a LockDurableSet \<Rightarrow> int \<Rightarrow> error + 'a LockDurableSet" where
  "Lock_updateAlloc s ident =
     (case at (Lock_allocIndices s) ident of
        Inl e \<Rightarrow> Inl e
      | Inr ai \<Rightarrow>
     (case updateAddress (Lock_mem s) ident of
        Inl e \<Rightarrow> Inl e
      | Inr m \<Rightarrow>
          Inr (s\<lparr>Lock_allocIndices := (Lock_allocIndices s)[nat ident := ai - 1], Lock_mem := m\<rparr>)))"

text \<open>The loop of \<open>LockDurableSet::find\<close>, and \<open>find\<close>: the links are read with \<open>getNextRef\<close>.\<close>

partial_function (option) Lock_find_loop ::
  "(uintptr \<rightharpoonup> 'a LockNode) \<Rightarrow> int \<Rightarrow> uintptr \<Rightarrow> uintptr \<Rightarrow> (error + uintptr \<times> uintptr) option" where
  "Lock_find_loop hp k previous current =
     (case hp current of
        None \<Rightarrow> Some (Inl BadDeref)
      | Some c \<Rightarrow>
          if nkey c \<ge> k then Some (Inr (previous, current))
          else Lock_find_loop hp k current (getNextRef c))"

definition Lock_find ::
  "'a LockDurableSet \<Rightarrow> int \<Rightarrow> (error + uintptr \<times> uintptr) option" where
  "Lock_find s k =
     (case Lock_heap s (Lock_head s) of
        None \<Rightarrow> Some (Inl BadDeref)
      | Some hn \<Rightarrow> Lock_find_loop (Lock_heap s) k (Lock_head s) (getNextRef hn))"

text \<open>
  The two statements \<open>previous->mtx.unlock(); current->mtx.unlock();\<close> that end every
  branch of \<open>insert\<close> and \<open>remove\<close>, with the value \<open>r\<close> the branch leaves the loop body
  with: \<open>None\<close> is \<open>continue\<close>, \<open>Some b\<close> is \<open>return b\<close>.
\<close>

definition Lock_unlock_nodes ::
  "'a LockDurableSet \<Rightarrow> uintptr \<Rightarrow> uintptr \<Rightarrow> bool option
     \<Rightarrow> error + (bool option \<times> 'a LockDurableSet)" where
  "Lock_unlock_nodes s previous current r =
     (case mtx_unlock (Lock_heap s) previous of
        Inl e \<Rightarrow> Inl e
      | Inr h1 \<Rightarrow>
     (case mtx_unlock h1 current of
        Inl e \<Rightarrow> Inl e
      | Inr h2 \<Rightarrow> Inr (r, s\<lparr>Lock_heap := h2\<rparr>)))"

text \<open>
  One pass of the \<open>while (true)\<close> loop of \<open>LockDurableSet::insert\<close>, after the two nodes
  are locked.
\<close>

definition Lock_insert_locked ::
  "'a LockDurableSet \<Rightarrow> int \<Rightarrow> 'a \<Rightarrow> int \<Rightarrow> uintptr \<Rightarrow> uintptr
     \<Rightarrow> error + (bool option \<times> 'a LockDurableSet)" where
  "Lock_insert_locked s k it ident previous current =
     (case deref (Lock_heap s) previous of
        Inl e \<Rightarrow> Inl e
      | Inr pn \<Rightarrow>
          if nnext pn \<noteq> current then Lock_unlock_nodes s previous current None
          else
     (case deref (Lock_heap s) current of
        Inl e \<Rightarrow> Inl e
      | Inr cn \<Rightarrow>
          if isNextMarked cn then Lock_unlock_nodes s previous current None
          else if nkey cn = k then Lock_unlock_nodes s previous current (Some False)
          else
     (case Lock_allocFromArea s ident of
        Inl e \<Rightarrow> Inl e
      | Inr (newNode, s1) \<Rightarrow>
          if newNode = 0 then Lock_unlock_nodes s1 previous current (Some False)
          else
     (case store (Lock_heap s1) newNode
             (\<lambda>n. (flipV1 n)\<lparr>nkey := k, nitem := it, nnext := current\<rparr>) of
        Inl e \<Rightarrow> Inl e
      | Inr h2 \<Rightarrow>
     (case store h2 previous (\<lambda>n. n\<lparr>nnext := newNode\<rparr>) of
        Inl e \<Rightarrow> Inl e
      | Inr h3 \<Rightarrow>
     (case Lock_updateAlloc (s1\<lparr>Lock_heap := h3\<rparr>) ident of
        Inl e \<Rightarrow> Inl e
      | Inr s4 \<Rightarrow>
     (case store (Lock_heap s4) newNode makeValid of
        Inl e \<Rightarrow> Inl e
      | Inr h5 \<Rightarrow>
     (case deref h5 newNode of
        Inl e \<Rightarrow> Inl e
      | Inr n \<Rightarrow>
     (case FLUSH_INSERT n (Lock_mem s4) of
        Inl e \<Rightarrow> Inl e
      | Inr m6 \<Rightarrow>
          Lock_unlock_nodes (s4\<lparr>Lock_heap := h5, Lock_mem := m6\<rparr>) previous current
            (Some True))))))))))"

text \<open>One pass of the loop of \<open>insert\<close>: \<open>find\<close> and the two \<open>lock\<close> calls.\<close>

definition Lock_insert_attempt ::
  "'a LockDurableSet \<Rightarrow> int \<Rightarrow> 'a \<Rightarrow> int \<Rightarrow> (error + (bool option \<times> 'a LockDurableSet)) option" where
  "Lock_insert_attempt s k it ident =
     (case Lock_find s k of
        None \<Rightarrow> None
      | Some (Inl e) \<Rightarrow> Some (Inl e)
      | Some (Inr (previous, current)) \<Rightarrow>
         (case mtx_lock (Lock_heap s) previous of
            None \<Rightarrow> None
          | Some (Inl e) \<Rightarrow> Some (Inl e)
          | Some (Inr h1) \<Rightarrow>
         (case mtx_lock h1 current of
            None \<Rightarrow> None
          | Some (Inl e) \<Rightarrow> Some (Inl e)
          | Some (Inr h2) \<Rightarrow>
              Some (Lock_insert_locked (s\<lparr>Lock_heap := h2\<rparr>) k it ident previous current))))"

text \<open>\<open>LockDurableSet::insert\<close>\<close>

partial_function (option) Lock_insert ::
  "'a LockDurableSet \<Rightarrow> int \<Rightarrow> 'a \<Rightarrow> int \<Rightarrow> (error + bool \<times> 'a LockDurableSet) option" where
  "Lock_insert s k it ident =
     (case Lock_insert_attempt s k it ident of
        None \<Rightarrow> None
      | Some (Inl e) \<Rightarrow> Some (Inl e)
      | Some (Inr (None, s')) \<Rightarrow> Lock_insert s' k it ident
      | Some (Inr (Some b, s')) \<Rightarrow> Some (Inr (b, s')))"

text \<open>\<open>LockDurableSet::contains\<close>\<close>

partial_function (option) Lock_contains_loop ::
  "(uintptr \<rightharpoonup> 'a LockNode) \<Rightarrow> int \<Rightarrow> uintptr \<Rightarrow> (error + uintptr) option" where
  "Lock_contains_loop hp k current =
     (case hp current of
        None \<Rightarrow> Some (Inl BadDeref)
      | Some c \<Rightarrow>
          if nkey c < k then Lock_contains_loop hp k (getNextRef c)
          else Some (Inr current))"

definition Lock_contains :: "'a LockDurableSet \<Rightarrow> int \<Rightarrow> (error + bool) option" where
  "Lock_contains s k =
     (case Lock_heap s (Lock_head s) of
        None \<Rightarrow> Some (Inl BadDeref)
      | Some hn \<Rightarrow>
         (case Lock_contains_loop (Lock_heap s) k (getNextRef hn) of
            None \<Rightarrow> None
          | Some (Inl e) \<Rightarrow> Some (Inl e)
          | Some (Inr current) \<Rightarrow>
             (case Lock_heap s current of
                None \<Rightarrow> Some (Inl BadDeref)
              | Some c \<Rightarrow>
                  if nkey c \<noteq> k \<or> isNextMarked c then Some (Inr False) else Some (Inr True))))"

text \<open>
  One pass of the loop of \<open>LockDurableSet::remove\<close>, after the two nodes are locked.
  \<open>successor->mark()\<close> is a member call: on a pointer that addresses no node it is an
  error.
\<close>

definition Lock_remove_locked ::
  "'a LockDurableSet \<Rightarrow> int \<Rightarrow> uintptr \<Rightarrow> uintptr
     \<Rightarrow> error + (bool option \<times> 'a LockDurableSet)" where
  "Lock_remove_locked s k previous current =
     (case deref (Lock_heap s) previous of
        Inl e \<Rightarrow> Inl e
      | Inr pn \<Rightarrow>
          if nnext pn \<noteq> current then Lock_unlock_nodes s previous current None
          else
     (case deref (Lock_heap s) current of
        Inl e \<Rightarrow> Inl e
      | Inr cn \<Rightarrow>
          if isNextMarked cn then Lock_unlock_nodes s previous current None
          else if nkey cn \<noteq> k then Lock_unlock_nodes s previous current (Some False)
          else
            let successor = nnext cn in
     (case deref (Lock_heap s) successor of
        Inl e \<Rightarrow> Inl e
      | Inr _ \<Rightarrow>
     (case store (Lock_heap s) current (\<lambda>n. n\<lparr>nnext := mark successor\<rparr>) of
        Inl e \<Rightarrow> Inl e
      | Inr h1 \<Rightarrow>
     (case store h1 previous (\<lambda>n. n\<lparr>nnext := successor\<rparr>) of
        Inl e \<Rightarrow> Inl e
      | Inr h2 \<Rightarrow>
     (case deref h2 current of
        Inl e \<Rightarrow> Inl e
      | Inr n \<Rightarrow>
     (case FLUSH_DELETE n (Lock_mem s) of
        Inl e \<Rightarrow> Inl e
      | Inr m3 \<Rightarrow>
          Lock_unlock_nodes (s\<lparr>Lock_heap := h2, Lock_mem := m3\<rparr>) previous current
            (Some True))))))))"

definition Lock_remove_attempt ::
  "'a LockDurableSet \<Rightarrow> int \<Rightarrow> int \<Rightarrow> (error + (bool option \<times> 'a LockDurableSet)) option" where
  "Lock_remove_attempt s k ident =
     (case Lock_find s k of
        None \<Rightarrow> None
      | Some (Inl e) \<Rightarrow> Some (Inl e)
      | Some (Inr (previous, current)) \<Rightarrow>
         (case mtx_lock (Lock_heap s) previous of
            None \<Rightarrow> None
          | Some (Inl e) \<Rightarrow> Some (Inl e)
          | Some (Inr h1) \<Rightarrow>
         (case mtx_lock h1 current of
            None \<Rightarrow> None
          | Some (Inl e) \<Rightarrow> Some (Inl e)
          | Some (Inr h2) \<Rightarrow>
              Some (Lock_remove_locked (s\<lparr>Lock_heap := h2\<rparr>) k previous current))))"

text \<open>\<open>LockDurableSet::remove\<close>\<close>

partial_function (option) Lock_remove ::
  "'a LockDurableSet \<Rightarrow> int \<Rightarrow> int \<Rightarrow> (error + bool \<times> 'a LockDurableSet) option" where
  "Lock_remove s k ident =
     (case Lock_remove_attempt s k ident of
        None \<Rightarrow> None
      | Some (Inl e) \<Rightarrow> Some (Inl e)
      | Some (Inr (None, s')) \<Rightarrow> Lock_remove s' k ident
      | Some (Inr (Some b, s')) \<Rightarrow> Some (Inr (b, s')))"

lemmas Lock_eval =
  new_LockDurableSet_def Lock_build_section_def Lock_build_node_def set_indices_def
  new_LockNode_def at_def Let_def MIN_KEY_def MAX_KEY_def new_MemoryManager_def
  Lock_insert.simps Lock_insert_attempt_def Lock_insert_locked_def
  Lock_find_def Lock_find_loop.simps Lock_unlock_nodes_def mtx_lock_def mtx_unlock_def
  Lock_allocFromArea_def Lock_updateAlloc_def deref_def store_def
  retrieveAddress_def updateAddress_def flipV1_def makeValid_def FLUSH_INSERT_def FLUSH_def
  COPY_def new_MemCell_def isNextMarked_def getNextRef_def Lock_contains_def Lock_contains_loop.simps
  Lock_remove.simps Lock_remove_attempt_def Lock_remove_locked_def FLUSH_DELETE_def mark_def


section \<open>LockDurableSet: construction\<close>

definition Lock_build_ok :: "(nat \<Rightarrow> uintptr) \<Rightarrow> ('a::zero) Lock_build \<Rightarrow> bool" where
  "Lock_build_ok alloc b \<longleftrightarrow>
     (\<forall>n<lb_news b. lb_heap b (alloc n) = Some new_LockNode)
   \<and> dom (lb_heap b) = alloc ` {..<lb_news b}"

lemma Lock_build_node_ok:
  assumes "Lock_build_node alloc i j b = Inr b'" and "Lock_build_ok alloc b"
  shows "Lock_build_ok alloc b' \<and> lb_news b' = lb_news b + 1
       \<and> lb_pools b' = (lb_pools b)[i := (lb_pools b ! i)[j := alloc (lb_news b)]]"
proof -
  from assms(1) have b': "b' = b\<lparr>lb_heap := (lb_heap b)(alloc (lb_news b) \<mapsto> new_LockNode),
            lb_pools := (lb_pools b)[i := (lb_pools b ! i)[j := alloc (lb_news b)]],
            lb_news := Suc (lb_news b)\<rparr>"
    by (auto simp: Lock_build_node_def Let_def at_def split: sum.splits if_splits)
  from assms(2) have hp: "\<forall>n<lb_news b. lb_heap b (alloc n) = Some new_LockNode"
    and dm: "dom (lb_heap b) = alloc ` {..<lb_news b}"
    by (simp_all add: Lock_build_ok_def)
  have "\<forall>n<Suc (lb_news b). ((lb_heap b)(alloc (lb_news b) \<mapsto> new_LockNode)) (alloc n) = Some new_LockNode"
    using hp by (simp add: less_Suc_eq)
  moreover have "dom ((lb_heap b)(alloc (lb_news b) \<mapsto> new_LockNode)) = alloc ` {..<Suc (lb_news b)}"
    using dm by (simp add: lessThan_Suc)
  ultimately show ?thesis
    unfolding Lock_build_ok_def by (subst b')+ simp
qed

lemma Lock_build_section_ok:
  assumes sec: "Lock_build_section alloc ws i b = Inr b'" and ok: "Lock_build_ok alloc b"
  shows "Lock_build_ok alloc b' \<and> i < length ws \<and> 0 \<le> ws ! i \<and> i < length (lb_pools b)
       \<and> lb_news b' = lb_news b + nat (ws ! i)
       \<and> lb_pools b' = (lb_pools b)[i := map alloc [lb_news b..<lb_news b + nat (ws ! i)]]"
proof -
  let ?w = "nat (ws ! i)" and ?n0 = "lb_news b" and ?P0 = "lb_pools b"
  from sec have i: "i < length ?P0" "i < length ws" "0 \<le> ws ! i"
    and loop: "for_loop [0..<?w] (Lock_build_node alloc i)
                 (b\<lparr>lb_pools := ?P0[i := replicate ?w 0]\<rparr>) = Inr b'"
    by (auto simp: Lock_build_section_def at_def split: sum.splits if_splits)
  define K where "K = (\<lambda>j (st :: 'a Lock_build). Lock_build_ok alloc st \<and> lb_news st = ?n0 + j
      \<and> lb_pools st = ?P0[i := map alloc [?n0..<?n0 + j] @ replicate (?w - j) 0])"
  have K0: "K 0 (b\<lparr>lb_pools := ?P0[i := replicate ?w 0]\<rparr>)"
    using ok by (simp add: K_def Lock_build_ok_def)
  have Kstep: "\<And>j a c. j < ?w \<Longrightarrow> K j a \<Longrightarrow> Lock_build_node alloc i j a = Inr c \<Longrightarrow> K (Suc j) c"
  proof -
    fix j a c
    assume j: "j < ?w" and Ka: "K j a" and step: "Lock_build_node alloc i j a = Inr c"
    from Ka have oka: "Lock_build_ok alloc a" and na: "lb_news a = ?n0 + j"
      and pa: "lb_pools a = ?P0[i := map alloc [?n0..<?n0 + j] @ replicate (?w - j) 0]"
      by (simp_all add: K_def)
    from Lock_build_node_ok[OF step oka] have okc: "Lock_build_ok alloc c"
      and nc: "lb_news c = lb_news a + 1"
      and pc: "lb_pools c = (lb_pools a)[i := (lb_pools a ! i)[j := alloc (lb_news a)]]"
      by simp_all
    have row: "lb_pools a ! i = map alloc [?n0..<?n0 + j] @ replicate (?w - j) 0"
      using i(1) by (simp add: pa)
    have "lb_pools c = ?P0[i := map alloc [?n0..<?n0 + Suc j] @ replicate (?w - Suc j) 0]"
      unfolding pc row na fill_row_step[OF j] by (simp add: pa)
    with okc nc na show "K (Suc j) c" by (simp add: K_def)
  qed
  have "K ?w b'"
    by (rule for_loop_upt_inv[where I = K, OF loop K0]) (rule Kstep, assumption+)
  with i show ?thesis by (simp add: K_def)
qed

lemma Lock_build_sections_ok:
  assumes loop: "for_loop [0..<L] (Lock_build_section alloc ws) b0 = Inr b"
    and b0: "b0 = \<lparr>lb_heap = Map.empty, lb_pools = replicate L [], lb_news = 0\<rparr>"
  shows "Lock_build_ok alloc b \<and> length (lb_pools b) = L \<and> L \<le> length ws
       \<and> lb_news b = sum_list (map nat (take L ws))
       \<and> concat (lb_pools b) = map alloc [0..<lb_news b]
       \<and> (\<forall>i<L. 0 \<le> ws ! i \<and> length (lb_pools b ! i) = nat (ws ! i))"
proof -
  define J where "J = (\<lambda>i (st :: 'a Lock_build). Lock_build_ok alloc st \<and> length (lb_pools st) = L
      \<and> i \<le> length ws
      \<and> lb_news st = sum_list (map nat (take i ws))
      \<and> concat (take i (lb_pools st)) = map alloc [0..<lb_news st]
      \<and> (\<forall>i'<i. 0 \<le> ws ! i' \<and> length (lb_pools st ! i') = nat (ws ! i')))"
  have J0: "J 0 b0" by (simp add: J_def b0 Lock_build_ok_def)
  have Jstep: "\<And>i a c. i < L \<Longrightarrow> J i a \<Longrightarrow> Lock_build_section alloc ws i a = Inr c \<Longrightarrow> J (Suc i) c"
  proof -
    fix i a c
    assume i: "i < L" and Ja: "J i a" and step: "Lock_build_section alloc ws i a = Inr c"
    from Ja have oka: "Lock_build_ok alloc a" and la: "length (lb_pools a) = L"
      and na: "lb_news a = sum_list (map nat (take i ws))"
      and ca: "concat (take i (lb_pools a)) = map alloc [0..<lb_news a]"
      and ra: "\<forall>i'<i. 0 \<le> ws ! i' \<and> length (lb_pools a ! i') = nat (ws ! i')"
      by (simp_all add: J_def)
    from Lock_build_section_ok[OF step oka] have okc: "Lock_build_ok alloc c"
      and iw: "i < length ws" and w0: "0 \<le> ws ! i"
      and nc: "lb_news c = lb_news a + nat (ws ! i)"
      and pc: "lb_pools c = (lb_pools a)[i := map alloc [lb_news a..<lb_news a + nat (ws ! i)]]"
      by simp_all
    have tk: "take (Suc i) (lb_pools c) = take i (lb_pools a) @ [map alloc [lb_news a..<lb_news a + nat (ws ! i)]]"
      using i la by (simp add: pc take_Suc_conv_app_nth)
    have cc: "concat (take (Suc i) (lb_pools c)) = map alloc [0..<lb_news c]"
      unfolding tk nc using ca by (simp add: upt_add_eq_append[of 0, simplified] del: upt_Suc)
    have sm: "sum_list (map nat (take (Suc i) ws)) = sum_list (map nat (take i ws)) + nat (ws ! i)"
      using iw by (simp add: take_Suc_conv_app_nth)
    have rc: "\<forall>i'<Suc i. 0 \<le> ws ! i' \<and> length (lb_pools c ! i') = nat (ws ! i')"
      using ra w0 i la by (auto simp: pc less_Suc_eq nth_list_update)
    show "J (Suc i) c"
      unfolding J_def using okc la iw nc na cc sm rc by (simp add: pc del: upt_Suc)
  qed
  have "J L b"
    by (rule for_loop_upt_inv[where I = J, OF loop J0]) (rule Jstep, assumption+)
  then have "length (lb_pools b) = L" by (simp add: J_def)
  then have "take L (lb_pools b) = lb_pools b" by simp
  with \<open>J L b\<close> show ?thesis by (simp add: J_def)
qed

lemma Lock_ctor_result:
  assumes ctor: "new_LockDurableSet m numIDs ws alloc = Inr s"
    and va: "valid_alloc alloc (sum_list (map nat (take (nat numIDs) ws)) + 2)"
  shows "concat (Lock_preAllocatedNodes s) = map alloc [0..<sum_list (map nat (take (nat numIDs) ws))]
       \<and> Lock_head s = alloc (sum_list (map nat (take (nat numIDs) ws)))
       \<and> Lock_tail s = alloc (Suc (sum_list (map nat (take (nat numIDs) ws))))
       \<and> Lock_heap s (Lock_head s) = Some (new_LockNode\<lparr>nnext := Lock_tail s, nkey := MIN_KEY\<rparr>)
       \<and> Lock_heap s (Lock_tail s) = Some (new_LockNode\<lparr>nkey := MAX_KEY\<rparr>)
       \<and> dom (Lock_heap s) = alloc ` {..<sum_list (map nat (take (nat numIDs) ws)) + 2}
       \<and> length (Lock_preAllocatedNodes s) = nat numIDs
       \<and> length (Lock_allocIndices s) = nat numIDs
       \<and> (\<forall>i. i < nat numIDs \<longrightarrow>
             Lock_allocIndices s ! i = int (length (Lock_preAllocatedNodes s ! i)) - 1)"
proof -
  let ?L = "nat numIDs"
  let ?N = "sum_list (map nat (take ?L ws))"
  from ctor obtain ai mi b where
    l1: "for_loop [0..<?L] (set_indices ws) (replicate ?L 0, replicate ?L 0) = Inr (ai, mi)" and
    l2: "for_loop [0..<?L] (Lock_build_section alloc ws)
           \<lparr>lb_heap = Map.empty, lb_pools = replicate ?L [], lb_news = 0\<rparr> = Inr b" and
    s: "s = \<lparr>Lock_heap = (lb_heap b)(alloc (lb_news b) \<mapsto> new_LockNode\<lparr>nnext := alloc (lb_news b + 1), nkey := MIN_KEY\<rparr>,
                       alloc (lb_news b + 1) \<mapsto> new_LockNode\<lparr>nkey := MAX_KEY\<rparr>),
             Lock_head = alloc (lb_news b), Lock_tail = alloc (lb_news b + 1), Lock_mem = m,
             Lock_preAllocatedNodes = lb_pools b,
             Lock_allocIndices = ai, Lock_maxIndices = mi,
             Lock_keysVolatileRecovered = [], Lock_keysDurableRecovered = [],
             Lock_numIDs = numIDs\<rparr> \<or> alloc (lb_news b) = alloc (lb_news b + 1)"
    by (auto simp: new_LockDurableSet_def Let_def split: sum.splits if_splits prod.splits)
  from set_indices_loop[OF l1] have ai: "?L \<le> length ws" "ai = map (\<lambda>w. w - 1) (take ?L ws)" by simp_all
  from Lock_build_sections_ok[OF l2 refl] have ok: "Lock_build_ok alloc b"
    and lp: "length (lb_pools b) = ?L" and nb: "lb_news b = ?N"
    and cc: "concat (lb_pools b) = map alloc [0..<lb_news b]"
    and rows: "\<forall>i<?L. 0 \<le> ws ! i \<and> length (lb_pools b ! i) = nat (ws ! i)"
    by simp_all
  have upt: "[0..<?N + 2] = [0..<?N] @ [?N, Suc ?N]" by simp
  from va have d: "alloc ?N \<noteq> alloc (Suc ?N)"
    unfolding valid_alloc_def upt by auto
  from ok nb have dm: "dom (lb_heap b) = alloc ` {..<?N}"
    by (simp_all add: Lock_build_ok_def)
  from s d nb have s': "s = \<lparr>Lock_heap = (lb_heap b)(alloc ?N \<mapsto> new_LockNode\<lparr>nnext := alloc (Suc ?N), nkey := MIN_KEY\<rparr>,
                       alloc (Suc ?N) \<mapsto> new_LockNode\<lparr>nkey := MAX_KEY\<rparr>),
             Lock_head = alloc ?N, Lock_tail = alloc (Suc ?N), Lock_mem = m,
             Lock_preAllocatedNodes = lb_pools b,
             Lock_allocIndices = ai, Lock_maxIndices = mi,
             Lock_keysVolatileRecovered = [], Lock_keysDurableRecovered = [],
             Lock_numIDs = numIDs\<rparr>"
    by simp
  have al: "\<forall>i<?L. ai ! i = int (length (lb_pools b ! i)) - 1"
    using rows ai by (simp add: nth_take)
  have dm': "dom (Lock_heap s) = alloc ` {..<?N + 2}"
    using dm by (auto simp: s' lessThan_Suc)
  show ?thesis
    using cc nb d lp ai al dm' by (simp add: s')
qed


section \<open>The list invariant of the Lock set\<close>

lemma clear_low_bit: "(x :: 64 word) AND 1 = 0 \<Longrightarrow> x AND NOT 1 = x"
  by (simp add: bit_eq_iff bit_simps) (metis bit_0 even_iff_mod_2_eq_zero)

lemma getNextRef_even: "nnext n AND 1 = 0 \<Longrightarrow> getNextRef n = nnext n"
  unfolding getNextRef_def by (rule clear_low_bit)

lemma list_ok_links:
  assumes "links hp' = links hp" and "list_ok hp h t ns"
  shows "list_ok hp' h t ns"
proof -
  from assms(1) have k: "keyof hp' = keyof hp" by (simp add: fun_eq_iff keyof_links)
  from assms(1) have c: "chain hp' h (h # ns) 0 = chain hp h (h # ns) 0"
    by (intro chain_links) simp
  from assms(1) have z: "hp' 0 = None \<longleftrightarrow> hp 0 = None"
    by (metis links_None)
  from assms(2) show ?thesis unfolding list_ok_def k c z .
qed

lemma links_mtx_upd: "hp p = Some n \<Longrightarrow> links (hp(p \<mapsto> n\<lparr>mtx := b\<rparr>)) = links hp"
  by (auto simp: links_def fun_eq_iff)

lemma links_mtx_lock: "mtx_lock hp p = Some (Inr hp') \<Longrightarrow> links hp' = links hp"
  by (auto simp: mtx_lock_def links_mtx_upd split: option.splits if_splits)

lemma links_mtx_unlock: "mtx_unlock hp p = Inr hp' \<Longrightarrow> links hp' = links hp"
  by (auto simp: mtx_unlock_def store_def links_mtx_upd split: option.splits if_splits)

lemma Lock_unlock_nodes_Inr:
  assumes "Lock_unlock_nodes s p c r = Inr (r', s')"
  shows "r' = r \<and> links (Lock_heap s') = links (Lock_heap s)
       \<and> Lock_head s' = Lock_head s \<and> Lock_tail s' = Lock_tail s
       \<and> Lock_preAllocatedNodes s' = Lock_preAllocatedNodes s
       \<and> Lock_allocIndices s' = Lock_allocIndices s"
  using assms
  by (auto simp: Lock_unlock_nodes_def split: sum.splits dest!: links_mtx_unlock)

text \<open>The traversals on a chain of unmarked links.\<close>

lemma Lock_find_loop_chain:
  "chain hp p (xs @ c # ys) q \<Longrightarrow> (\<forall>a\<in>set (xs @ c # ys). a AND 1 = 0) \<Longrightarrow>
   (\<forall>a\<in>set xs. keyof hp a < k) \<Longrightarrow> k \<le> keyof hp c \<Longrightarrow>
     Lock_find_loop hp k prev p = Some (Inr (last (prev # xs), c))"
proof (induction xs arbitrary: prev p)
  case Nil
  then show ?case
    by (subst Lock_find_loop.simps) (auto simp: keyof_def)
next
  case (Cons x xs)
  from Cons.prems obtain n where n: "p = x" "hp x = Some n" "chain hp (nnext n) (xs @ c # ys) q"
    by auto
  from n(3) have "nnext n = hd (xs @ c # ys)" by (cases xs) auto
  with Cons.prems(2) have "nnext n AND 1 = 0" by (cases xs) auto
  then have g: "getNextRef n = nnext n" by (rule getNextRef_even)
  from Cons.prems n have lt: "nkey n < k" by (simp add: keyof_def)
  from Cons.prems have ev: "\<forall>a\<in>set (xs @ c # ys). a AND 1 = 0" and
    ks: "\<forall>a\<in>set xs. keyof hp a < k" by simp_all
  from Cons.IH[OF n(3) ev ks Cons.prems(4), of x] lt n g
  show ?case by (subst Lock_find_loop.simps) simp
qed

lemma Lock_find_loop_overrun:
  "chain hp p ns 0 \<Longrightarrow> (\<forall>a\<in>set ns. a AND 1 = 0) \<Longrightarrow> (\<forall>a\<in>set ns. keyof hp a < k) \<Longrightarrow>
   hp 0 = None \<Longrightarrow> Lock_find_loop hp k prev p = Some (Inl BadDeref)"
proof (induction ns arbitrary: prev p)
  case Nil
  then show ?case by (subst Lock_find_loop.simps) simp
next
  case (Cons x xs)
  from Cons.prems obtain n where n: "p = x" "hp x = Some n" "chain hp (nnext n) xs 0"
    by auto
  have "nnext n AND 1 = 0"
  proof (cases xs)
    case Nil
    with n(3) show ?thesis by simp
  next
    case (Cons y ys)
    with n(3) have "nnext n = y" by simp
    with Cons Cons.prems(2) show ?thesis by simp
  qed
  then have g: "getNextRef n = nnext n" by (rule getNextRef_even)
  from Cons.prems n have lt: "nkey n < k" by (simp add: keyof_def)
  from Cons.prems have ev: "\<forall>a\<in>set xs. a AND 1 = 0" and
    ks: "\<forall>a\<in>set xs. keyof hp a < k" by simp_all
  from Cons.IH[OF n(3) ev ks Cons.prems(4), of x] lt n g
  show ?case by (subst Lock_find_loop.simps) simp
qed

lemma Lock_contains_loop_chain:
  "chain hp p (xs @ c # ys) q \<Longrightarrow> (\<forall>a\<in>set (xs @ c # ys). a AND 1 = 0) \<Longrightarrow>
   (\<forall>a\<in>set xs. keyof hp a < k) \<Longrightarrow> k \<le> keyof hp c \<Longrightarrow>
     Lock_contains_loop hp k p = Some (Inr c)"
proof (induction xs arbitrary: p)
  case Nil
  then show ?case
    by (subst Lock_contains_loop.simps) (auto simp: keyof_def)
next
  case (Cons x xs)
  from Cons.prems obtain n where n: "p = x" "hp x = Some n" "chain hp (nnext n) (xs @ c # ys) q"
    by auto
  from n(3) have "nnext n = hd (xs @ c # ys)" by (cases xs) auto
  with Cons.prems(2) have "nnext n AND 1 = 0" by (cases xs) auto
  then have g: "getNextRef n = nnext n" by (rule getNextRef_even)
  from Cons.prems n have lt: "nkey n < k" by (simp add: keyof_def)
  from Cons.prems have ev: "\<forall>a\<in>set (xs @ c # ys). a AND 1 = 0" and
    ks: "\<forall>a\<in>set xs. keyof hp a < k" by simp_all
  from Cons.IH[OF n(3) ev ks Cons.prems(4)] lt n g
  show ?case by (subst Lock_contains_loop.simps) simp
qed

text \<open>
  The invariant of the Lock set: the list, the pools, and every node address in use or
  still free has a clear low bit.
\<close>

definition Lock_inv :: "'a LockDurableSet \<Rightarrow> uintptr list \<Rightarrow> bool" where
  "Lock_inv s ns \<longleftrightarrow>
     list_ok (Lock_heap s) (Lock_head s) (Lock_tail s) ns
   \<and> pool_ok (Lock_heap s) (Lock_head s # ns) (Lock_allocIndices s) (Lock_preAllocatedNodes s)
   \<and> (\<forall>a\<in>set (Lock_head s # ns) \<union> set (free_nodes (Lock_allocIndices s) (Lock_preAllocatedNodes s)).
         a AND 1 = 0)"

lemma Lock_inv_frame:
  assumes "Lock_inv s ns" and "links (Lock_heap s') = links (Lock_heap s)"
    "Lock_head s' = Lock_head s" "Lock_tail s' = Lock_tail s"
    "Lock_allocIndices s' = Lock_allocIndices s" "Lock_preAllocatedNodes s' = Lock_preAllocatedNodes s"
  shows "Lock_inv s' ns"
proof -
  from assms(2) have "dom (links (Lock_heap s)) \<subseteq> dom (links (Lock_heap s'))" by simp
  then have dm: "dom (Lock_heap s) \<subseteq> dom (Lock_heap s')" by (simp add: dom_links)
  from assms(1) list_ok_links[OF assms(2)] pool_ok_same[OF _ dm subset_refl]
  show ?thesis unfolding Lock_inv_def assms(3-6) by blast
qed

lemma Lock_find_inv:
  assumes "Lock_inv s ns"
  shows "(MAX_KEY < k \<longrightarrow> Lock_find s k = Some (Inl BadDeref))
       \<and> (k \<le> MAX_KEY \<longrightarrow> (\<exists>xs c ys. ns = xs @ c # ys \<and> (\<forall>a\<in>set xs. keyof (Lock_heap s) a < k)
              \<and> k \<le> keyof (Lock_heap s) c \<and> Lock_find s k = Some (Inr (last (Lock_head s # xs), c))))"
proof -
  from assms have ok: "list_ok (Lock_heap s) (Lock_head s) (Lock_tail s) ns"
    and ev: "\<forall>a\<in>set ns. a AND 1 = 0" by (simp_all add: Lock_inv_def)
  then obtain hn where hn: "Lock_heap s (Lock_head s) = Some hn" "chain (Lock_heap s) (nnext hn) ns 0"
    by (auto simp: list_ok_def)
  from ok have ne: "ns \<noteq> []" by (simp add: list_ok_def)
  with hn(2) have "nnext hn = hd ns" by (cases ns) auto
  with ev ne have "nnext hn AND 1 = 0" by (cases ns) auto
  then have g: "getNextRef hn = nnext hn" by (rule getNextRef_even)
  from ok have z: "Lock_heap s 0 = None" by (simp add: list_ok_def)
  show ?thesis
  proof (intro conjI impI)
    assume "MAX_KEY < k"
    from Lock_find_loop_overrun[OF hn(2) ev list_ok_above[OF ok this] z] hn(1) g
    show "Lock_find s k = Some (Inl BadDeref)" by (simp add: Lock_find_def)
  next
    assume "k \<le> MAX_KEY"
    from list_ok_split[OF ok this] obtain xs c ys where
      d: "ns = xs @ c # ys" "\<forall>a\<in>set xs. keyof (Lock_heap s) a < k" "k \<le> keyof (Lock_heap s) c" by blast
    from hn(2) d(1) have ch: "chain (Lock_heap s) (nnext hn) (xs @ c # ys) 0" by simp
    from ev d(1) have ev': "\<forall>a\<in>set (xs @ c # ys). a AND 1 = 0" by simp
    from Lock_find_loop_chain[OF ch ev' d(2,3)] hn(1) g
    have "Lock_find s k = Some (Inr (last (Lock_head s # xs), c))" by (simp add: Lock_find_def)
    with d show "\<exists>xs c ys. ns = xs @ c # ys \<and> (\<forall>a\<in>set xs. keyof (Lock_heap s) a < k)
              \<and> k \<le> keyof (Lock_heap s) c \<and> Lock_find s k = Some (Inr (last (Lock_head s # xs), c))"
      by blast
  qed
qed

lemma Lock_contains_inv:
  assumes "Lock_inv s ns"
  shows "Lock_contains s MAX_KEY = Some (Inr True)"
proof -
  let ?hp = "Lock_heap s"
  from assms have ok: "list_ok ?hp (Lock_head s) (Lock_tail s) ns"
    and ev: "\<forall>a\<in>set ns. a AND 1 = 0" by (simp_all add: Lock_inv_def)
  then have ne: "ns \<noteq> []" and lst: "last ns = Lock_tail s" and kt: "keyof ?hp (Lock_tail s) = MAX_KEY"
    and srt: "sorted_wrt (<) (map (keyof ?hp) ns)"
    by (simp_all add: list_ok_def)
  from ok obtain hn where hn: "?hp (Lock_head s) = Some hn" "chain ?hp (nnext hn) ns 0"
    by (auto simp: list_ok_def)
  from ne hn(2) have "nnext hn = hd ns" by (cases ns) auto
  with ev ne have "nnext hn AND 1 = 0" by (cases ns) auto
  then have g: "getNextRef hn = nnext hn" by (rule getNextRef_even)
  from ne lst have d: "ns = butlast ns @ [Lock_tail s]" by (metis append_butlast_last_id)
  from srt have "sorted_wrt (<) (map (keyof ?hp) (butlast ns @ [Lock_tail s]))" using d by simp
  then have lt: "\<forall>a\<in>set (butlast ns). keyof ?hp a < MAX_KEY"
    by (simp add: sorted_wrt_append kt)
  from hn(2) d have ch: "chain ?hp (nnext hn) (butlast ns @ Lock_tail s # []) 0" by simp
  then obtain tn where tn: "?hp (Lock_tail s) = Some tn" "nnext tn = 0"
    by (auto simp: chain_split_at)
  from kt tn have ktn: "nkey tn = MAX_KEY" by (simp add: keyof_def)
  from ev d have ev': "\<forall>a\<in>set (butlast ns @ Lock_tail s # []). a AND 1 = 0" by simp
  from Lock_contains_loop_chain[OF ch ev' lt] kt
  have "Lock_contains_loop ?hp MAX_KEY (nnext hn) = Some (Inr (Lock_tail s))" by simp
  with hn(1) tn ktn g show ?thesis by (simp add: Lock_contains_def isNextMarked_def)
qed

lemma Lock_unlock_nodes_Inr_iff:
  "Lock_unlock_nodes s p c r = Inr (r', s') \<longleftrightarrow>
     r' = r \<and> (\<exists>h1 h2. mtx_unlock (Lock_heap s) p = Inr h1 \<and> mtx_unlock h1 c = Inr h2
                  \<and> s' = s\<lparr>Lock_heap := h2\<rparr>)"
  by (auto simp: Lock_unlock_nodes_def split: sum.splits)

lemma Lock_allocFromArea_null:
  "Lock_allocFromArea s ident = Inr (0, s1) \<Longrightarrow> Lock_heap s 0 = None \<Longrightarrow> s1 = s"
  by (auto simp: Lock_allocFromArea_def store_def split: sum.splits if_splits option.splits)

lemma Lock_insert_locked_unchanged:
  assumes "Lock_insert_locked s k it ident prev c = Inr (r, s')"
    and "r \<noteq> Some True" and "Lock_heap s 0 = None"
  shows "links (Lock_heap s') = links (Lock_heap s) \<and> Lock_head s' = Lock_head s
       \<and> Lock_tail s' = Lock_tail s
       \<and> Lock_allocIndices s' = Lock_allocIndices s
       \<and> Lock_preAllocatedNodes s' = Lock_preAllocatedNodes s"
  using assms
  apply (simp add: Lock_insert_locked_def deref_def Lock_unlock_nodes_Inr_iff
           split: sum.splits if_splits option.splits prod.splits)
  apply (auto dest!: links_mtx_unlock Lock_allocFromArea_null)
  done

lemma Lock_insert_locked_True:
  assumes "Lock_insert_locked s k it ident prev c = Inr (Some True, s')"
  shows "\<exists>row a nn pn. at (Lock_preAllocatedNodes s) ident = Inr row \<and> at (Lock_allocIndices s) ident = Inr a
           \<and> at row a = Inr nn \<and> Lock_heap s nn \<noteq> None \<and> Lock_heap s prev = Some pn
           \<and> keyof (Lock_heap s) c \<noteq> k
           \<and> (nn \<noteq> prev \<longrightarrow> links (Lock_heap s') = (links (Lock_heap s))(nn \<mapsto> (k, c), prev \<mapsto> (nkey pn, nn)))
           \<and> Lock_head s' = Lock_head s \<and> Lock_tail s' = Lock_tail s
           \<and> Lock_preAllocatedNodes s' = Lock_preAllocatedNodes s
           \<and> Lock_allocIndices s' = (Lock_allocIndices s)[nat ident := a - 1]"
  using assms
  apply (simp add: Lock_insert_locked_def deref_def Lock_unlock_nodes_Inr_iff
           split: sum.splits prod.splits if_splits option.splits)
  apply (clarsimp simp: Lock_allocFromArea_def Lock_updateAlloc_def split: sum.splits if_splits)
  apply (drule links_mtx_unlock)+
  apply (drule store_Inr)+
  apply (clarsimp simp: makeValid_def flipV1_def keyof_def split: option.splits if_splits)
  apply (auto simp: links_upd fun_upd_twist)
  done

lemma Lock_remove_locked_unchanged:
  assumes "Lock_remove_locked s k prev c = Inr (r, s')"
    and "r \<noteq> Some True"
  shows "links (Lock_heap s') = links (Lock_heap s) \<and> Lock_head s' = Lock_head s
       \<and> Lock_tail s' = Lock_tail s
       \<and> Lock_allocIndices s' = Lock_allocIndices s
       \<and> Lock_preAllocatedNodes s' = Lock_preAllocatedNodes s"
  using assms
  apply (simp add: Lock_remove_locked_def deref_def Let_def Lock_unlock_nodes_Inr_iff
           split: sum.splits if_splits option.splits prod.splits)
  apply (auto dest!: links_mtx_unlock)
  done

lemma Lock_remove_locked_True:
  assumes "Lock_remove_locked s k prev c = Inr (Some True, s')"
  shows "\<exists>pn cn. Lock_heap s prev = Some pn \<and> Lock_heap s c = Some cn \<and> Lock_heap s (nnext cn) \<noteq> None
           \<and> links (Lock_heap s') = (links (Lock_heap s))(c \<mapsto> (nkey cn, mark (nnext cn)),
                                                       prev \<mapsto> (nkey pn, nnext cn))
           \<and> Lock_head s' = Lock_head s \<and> Lock_tail s' = Lock_tail s
           \<and> Lock_preAllocatedNodes s' = Lock_preAllocatedNodes s
           \<and> Lock_allocIndices s' = Lock_allocIndices s"
  using assms
  apply (simp add: Lock_remove_locked_def deref_def Let_def Lock_unlock_nodes_Inr_iff
           split: sum.splits prod.splits if_splits option.splits)
  apply clarsimp
  apply (drule links_mtx_unlock)+
  apply (drule store_Inr)+
  apply (auto simp: links_upd fun_upd_twist split: if_splits)
  done

lemma pool_ok_consume_set:
  assumes ok: "pool_ok hp used ais pools"
    and at1: "at pools ident = Inr row" and at2: "at ais ident = Inr a" and at3: "at row a = Inr nn"
  shows "nn \<in> set (free_nodes ais pools)
       \<and> set (free_nodes (ais[nat ident := a - 1]) pools) \<subseteq> set (free_nodes ais pools)"
proof -
  from at_Inr[OF at1] at_Inr[OF at2] at_Inr[OF at3]
  have i: "0 \<le> ident" "nat ident < length pools" "row = pools ! nat ident"
    "nat ident < length ais" "a = ais ! nat ident" "0 \<le> a" "a < int (length row)" "nn = row ! nat a"
    by auto
  from ok have len: "length ais = length pools" by (simp add: pool_ok_def)
  from free_nodes_consume[of "nat ident" ais pools] i len obtain A B where
    f: "free_nodes ais pools = A @ [nn] @ B"
       "free_nodes (ais[nat ident := a - 1]) pools = A @ B"
    by auto
  show ?thesis unfolding f by auto
qed

lemma Lock_insert_locked_inv:
  assumes inv: "Lock_inv s ns" and d: "ns = xs @ c # ys"
    "\<forall>a\<in>set xs. keyof (Lock_heap s) a < k" "k \<le> keyof (Lock_heap s) c"
    and lk: "Lock_insert_locked s k it ident (last (Lock_head s # xs)) c = Inr (r, s')"
  shows "\<exists>ns'. Lock_inv s' ns'"
proof -
  let ?hp = "Lock_heap s" and ?h = "Lock_head s"
  define prev where "prev = last (?h # xs)"
  from inv have ok: "list_ok ?hp ?h (Lock_tail s) ns"
    and pl: "pool_ok ?hp (?h # ns) (Lock_allocIndices s) (Lock_preAllocatedNodes s)"
    and ev: "\<forall>a\<in>set (?h # ns) \<union> set (free_nodes (Lock_allocIndices s) (Lock_preAllocatedNodes s)).
               a AND 1 = 0"
    by (simp_all add: Lock_inv_def)
  from ok have z: "?hp 0 = None" by (simp add: list_ok_def)
  show ?thesis
  proof (cases "r = Some True")
    case False
    from Lock_insert_locked_unchanged[OF lk False z]
    have "Lock_inv s' ns" by (intro Lock_inv_frame[OF inv]) simp_all
    then show ?thesis by blast
  next
    case True
    with lk have lkT: "Lock_insert_locked s k it ident prev c = Inr (Some True, s')"
      by (simp add: prev_def)
    from Lock_insert_locked_True[OF lkT] obtain row a nn pn where
      at: "at (Lock_preAllocatedNodes s) ident = Inr row" "at (Lock_allocIndices s) ident = Inr a"
          "at row a = Inr nn" and
      nn: "?hp nn \<noteq> None" and pn: "?hp prev = Some pn" and ne: "keyof ?hp c \<noteq> k" and
      l': "nn \<noteq> prev \<longrightarrow> links (Lock_heap s') = (links ?hp)(nn \<mapsto> (k, c), prev \<mapsto> (nkey pn, nn))" and
      f: "Lock_head s' = ?h" "Lock_tail s' = Lock_tail s"
         "Lock_preAllocatedNodes s' = Lock_preAllocatedNodes s"
         "Lock_allocIndices s' = (Lock_allocIndices s)[nat ident := a - 1]"
      by blast
    have prev_in: "prev \<in> set (?h # ns)" unfolding prev_def d(1)
      by (cases xs rule: rev_cases) auto
    let ?ns' = "xs @ nn # c # ys"
    have us: "set (?h # ?ns') \<subseteq> set (?h # ns) \<union> {nn}" using d(1) by auto
    have "dom (links ?hp) \<subseteq> dom (links ((Lock_heap s')))"
    proof (cases "nn = prev")
      case True
      with pool_ok_consume[OF pl at subset_refl us] prev_in show ?thesis by blast
    next
      case False
      with l' show ?thesis by auto
    qed
    then have dm: "dom ?hp \<subseteq> dom (Lock_heap s')" by (simp add: dom_links)
    from pool_ok_consume[OF pl at dm us]
    have pl': "pool_ok (Lock_heap s') (?h # ?ns') ((Lock_allocIndices s)[nat ident := a - 1])
                 (Lock_preAllocatedNodes s)"
      and fresh: "nn \<notin> set (?h # ns)" by simp_all
    from fresh prev_in have np: "nn \<noteq> prev" by auto
    have kp: "nkey pn = keyof ?hp prev" using pn by (simp add: keyof_def)
    from l' np kp have l: "links (Lock_heap s') =
        (links ?hp)(nn \<mapsto> (k, c), last (?h # xs) \<mapsto> (keyof ?hp (last (?h # xs)), nn))"
      by (simp add: prev_def)
    from d(3) ne have lt: "k < keyof ?hp c" by simp
    from list_insert_step[OF ok d(1) d(2) lt fresh nn l]
    have ok': "list_ok (Lock_heap s') ?h (Lock_tail s) ?ns'" .
    from pool_ok_consume_set[OF pl at] have
      fr: "nn \<in> set (free_nodes (Lock_allocIndices s) (Lock_preAllocatedNodes s))"
          "set (free_nodes ((Lock_allocIndices s)[nat ident := a - 1]) (Lock_preAllocatedNodes s))
             \<subseteq> set (free_nodes (Lock_allocIndices s) (Lock_preAllocatedNodes s))"
      by simp_all
    have ev': "\<forall>a\<in>set (?h # ?ns') \<union>
                 set (free_nodes ((Lock_allocIndices s)[nat ident := a - 1]) (Lock_preAllocatedNodes s)).
               a AND 1 = 0"
      using ev fr us by blast
    from ok' pl' ev' have "Lock_inv s' ?ns'" by (simp add: Lock_inv_def f)
    then show ?thesis by blast
  qed
qed

lemma Lock_locked_state:
  assumes inv: "Lock_inv s ns"
    and l1: "mtx_lock (Lock_heap s) p = Some (Inr h1)" and l2: "mtx_lock h1 c = Some (Inr h2)"
  shows "Lock_inv (s\<lparr>Lock_heap := h2\<rparr>) ns \<and> keyof h2 = keyof (Lock_heap s)"
proof -
  from links_mtx_lock[OF l1] links_mtx_lock[OF l2] have l: "links h2 = links (Lock_heap s)" by simp
  then have "keyof h2 = keyof (Lock_heap s)" by (simp add: fun_eq_iff keyof_links)
  moreover have "Lock_inv (s\<lparr>Lock_heap := h2\<rparr>) ns"
    by (rule Lock_inv_frame[OF inv]) (simp_all add: l)
  ultimately show ?thesis by simp
qed

lemma Lock_insert_attempt_inv:
  assumes inv: "Lock_inv s ns" and att: "Lock_insert_attempt s k it ident = Some (Inr (r, s'))"
  shows "\<exists>ns'. Lock_inv s' ns'"
proof -
  let ?hp = "Lock_heap s" and ?h = "Lock_head s"
  from Lock_find_inv[OF inv, of k] att have le: "k \<le> MAX_KEY"
    by (cases "k \<le> MAX_KEY") (auto simp: Lock_insert_attempt_def)
  with Lock_find_inv[OF inv, of k] obtain xs c ys where
    d: "ns = xs @ c # ys" "\<forall>a\<in>set xs. keyof ?hp a < k" "k \<le> keyof ?hp c"
       "Lock_find s k = Some (Inr (last (?h # xs), c))" by blast
  from att d(4) obtain h1 h2 where
    l1: "mtx_lock ?hp (last (?h # xs)) = Some (Inr h1)" and l2: "mtx_lock h1 c = Some (Inr h2)" and
    lk: "Lock_insert_locked (s\<lparr>Lock_heap := h2\<rparr>) k it ident (last (?h # xs)) c = Inr (r, s')"
    by (auto simp: Lock_insert_attempt_def split: sum.splits option.splits)
  let ?s1 = "s\<lparr>Lock_heap := h2\<rparr>"
  from Lock_locked_state[OF inv l1 l2] have inv1: "Lock_inv ?s1 ns" and k: "keyof h2 = keyof ?hp"
    by simp_all
  have d2: "\<forall>a\<in>set xs. keyof (Lock_heap ?s1) a < k" "k \<le> keyof (Lock_heap ?s1) c"
    using d(2,3) by (simp_all add: k)
  have lk': "Lock_insert_locked ?s1 k it ident (last (Lock_head ?s1 # xs)) c = Inr (r, s')"
    using lk by simp
  from Lock_insert_locked_inv[OF inv1 d(1) d2 lk'] show ?thesis .
qed

lemma Lock_insert_inv:
  assumes "Lock_insert s k it ident = Some (Inr (b, s'))" and "\<exists>ns. Lock_inv s ns"
  shows "\<exists>ns'. Lock_inv s' ns'"
proof -
  define P where "P = (\<lambda>(s :: 'a LockDurableSet) (k :: int) (it :: 'a) (ident :: int)
      (y :: error + bool \<times> 'a LockDurableSet).
        (\<exists>ns. Lock_inv s ns) \<longrightarrow> (\<forall>b s'. y = Inr (b, s') \<longrightarrow> (\<exists>ns'. Lock_inv s' ns')))"
  have "P s k it ident (Inr (b, s'))"
  proof (rule Lock_insert.raw_induct[where P = P, OF _ assms(1)])
    fix ins :: "'a LockDurableSet \<Rightarrow> int \<Rightarrow> 'a \<Rightarrow> int \<Rightarrow> (error + bool \<times> 'a LockDurableSet) option"
    fix s k it ident y
    assume IH: "\<And>s k it ident y. ins s k it ident = Some y \<Longrightarrow> P s k it ident y"
      and step: "(case Lock_insert_attempt s k it ident of None \<Rightarrow> None
                  | Some (Inl e) \<Rightarrow> Some (Inl e)
                  | Some (Inr (None, s')) \<Rightarrow> ins s' k it ident
                  | Some (Inr (Some b, s')) \<Rightarrow> Some (Inr (b, s'))) = Some y"
    show "P s k it ident y"
      unfolding P_def
    proof (intro impI allI)
      fix b s'
      assume ex: "\<exists>ns. Lock_inv s ns" and y: "y = Inr (b, s')"
      then obtain ns where inv: "Lock_inv s ns" by blast
      from step y obtain r s1 where att: "Lock_insert_attempt s k it ident = Some (Inr (r, s1))"
        and rest: "(case r of None \<Rightarrow> ins s1 k it ident | Some b \<Rightarrow> Some (Inr (b, s1))) = Some (Inr (b, s'))"
        by (auto split: option.splits sum.splits prod.splits)
      from Lock_insert_attempt_inv[OF inv att] have inv1: "\<exists>ns'. Lock_inv s1 ns'" .
      show "\<exists>ns'. Lock_inv s' ns'"
      proof (cases r)
        case None
        with rest have "ins s1 k it ident = Some (Inr (b, s'))" by simp
        from IH[OF this] inv1 show ?thesis unfolding P_def by blast
      next
        case (Some b')
        with rest inv1 show ?thesis by simp
      qed
    qed
  qed
  with assms(2) show ?thesis unfolding P_def by blast
qed

lemma Lock_remove_locked_inv:
  assumes inv: "Lock_inv s ns" and d: "ns = xs @ c # ys"
    and lk: "Lock_remove_locked s k (last (Lock_head s # xs)) c = Inr (r, s')"
  shows "\<exists>ns'. Lock_inv s' ns'"
proof -
  let ?hp = "Lock_heap s" and ?h = "Lock_head s"
  define prev where "prev = last (?h # xs)"
  from inv have ok: "list_ok ?hp ?h (Lock_tail s) ns"
    and pl: "pool_ok ?hp (?h # ns) (Lock_allocIndices s) (Lock_preAllocatedNodes s)"
    and ev: "\<forall>a\<in>set (?h # ns) \<union> set (free_nodes (Lock_allocIndices s) (Lock_preAllocatedNodes s)).
               a AND 1 = 0"
    by (simp_all add: Lock_inv_def)
  show ?thesis
  proof (cases "r = Some True")
    case False
    from Lock_remove_locked_unchanged[OF lk False]
    have "Lock_inv s' ns" by (intro Lock_inv_frame[OF inv]) simp_all
    then show ?thesis by blast
  next
    case True
    with lk have lkT: "Lock_remove_locked s k prev c = Inr (Some True, s')"
      by (simp add: prev_def)
    from Lock_remove_locked_True[OF lkT] obtain pn cn where
      pn: "?hp prev = Some pn" and cn: "?hp c = Some cn" and sc: "?hp (nnext cn) \<noteq> None"
      and l': "links (Lock_heap s') = (links ?hp)(c \<mapsto> (nkey cn, mark (nnext cn)),
                                                       prev \<mapsto> (nkey pn, nnext cn))"
      and f: "Lock_head s' = ?h" "Lock_tail s' = Lock_tail s"
         "Lock_preAllocatedNodes s' = Lock_preAllocatedNodes s"
         "Lock_allocIndices s' = Lock_allocIndices s"
      by blast
    have kp: "nkey pn = keyof ?hp prev" using pn by (simp add: keyof_def)
    from l' kp have l: "links (Lock_heap s') =
        (links ?hp)(c \<mapsto> (nkey cn, mark (nnext cn)),
                    last (?h # xs) \<mapsto> (keyof ?hp (last (?h # xs)), nnext cn))"
      by (simp add: prev_def)
    from list_remove_step[OF ok d(1) cn sc l]
    have ok': "list_ok (Lock_heap s') ?h (Lock_tail s) (xs @ ys)" by simp
    from l' have "dom (links ?hp) \<subseteq> dom (links (Lock_heap s'))" by auto
    then have dm: "dom ?hp \<subseteq> dom (Lock_heap s')" by (simp add: dom_links)
    have us: "set (?h # xs @ ys) \<subseteq> set (?h # ns)" using d(1) by auto
    have ev': "\<forall>a\<in>set (?h # xs @ ys) \<union>
                 set (free_nodes (Lock_allocIndices s) (Lock_preAllocatedNodes s)). a AND 1 = 0"
      using ev us by blast
    from pool_ok_same[OF pl dm us] ok' ev'
    have "Lock_inv s' (xs @ ys)" by (simp add: Lock_inv_def f)
    then show ?thesis by blast
  qed
qed

lemma Lock_remove_attempt_inv:
  assumes inv: "Lock_inv s ns" and att: "Lock_remove_attempt s k ident = Some (Inr (r, s'))"
  shows "\<exists>ns'. Lock_inv s' ns'"
proof -
  let ?hp = "Lock_heap s" and ?h = "Lock_head s"
  from Lock_find_inv[OF inv, of k] att have le: "k \<le> MAX_KEY"
    by (cases "k \<le> MAX_KEY") (auto simp: Lock_remove_attempt_def)
  with Lock_find_inv[OF inv, of k] obtain xs c ys where
    d: "ns = xs @ c # ys" "\<forall>a\<in>set xs. keyof ?hp a < k" "k \<le> keyof ?hp c"
       "Lock_find s k = Some (Inr (last (?h # xs), c))" by blast
  from att d(4) obtain h1 h2 where
    l1: "mtx_lock ?hp (last (?h # xs)) = Some (Inr h1)" and l2: "mtx_lock h1 c = Some (Inr h2)" and
    lk: "Lock_remove_locked (s\<lparr>Lock_heap := h2\<rparr>) k (last (?h # xs)) c = Inr (r, s')"
    by (auto simp: Lock_remove_attempt_def split: sum.splits option.splits)
  let ?s1 = "s\<lparr>Lock_heap := h2\<rparr>"
  from Lock_locked_state[OF inv l1 l2] have inv1: "Lock_inv ?s1 ns" by simp
  have lk': "Lock_remove_locked ?s1 k (last (Lock_head ?s1 # xs)) c = Inr (r, s')"
    using lk by simp
  from Lock_remove_locked_inv[OF inv1 d(1) lk'] show ?thesis .
qed

lemma Lock_remove_inv:
  assumes "Lock_remove s k ident = Some (Inr (b, s'))" and "\<exists>ns. Lock_inv s ns"
  shows "\<exists>ns'. Lock_inv s' ns'"
proof -
  define P where "P = (\<lambda>(s :: 'a LockDurableSet) (k :: int) (ident :: int)
      (y :: error + bool \<times> 'a LockDurableSet).
        (\<exists>ns. Lock_inv s ns) \<longrightarrow> (\<forall>b s'. y = Inr (b, s') \<longrightarrow> (\<exists>ns'. Lock_inv s' ns')))"
  have "P s k ident (Inr (b, s'))"
  proof (rule Lock_remove.raw_induct[where P = P, OF _ assms(1)])
    fix rmv :: "'a LockDurableSet \<Rightarrow> int \<Rightarrow> int \<Rightarrow> (error + bool \<times> 'a LockDurableSet) option"
    fix s k ident y
    assume IH: "\<And>s k ident y. rmv s k ident = Some y \<Longrightarrow> P s k ident y"
      and step: "(case Lock_remove_attempt s k ident of None \<Rightarrow> None
                  | Some (Inl e) \<Rightarrow> Some (Inl e)
                  | Some (Inr (None, s')) \<Rightarrow> rmv s' k ident
                  | Some (Inr (Some b, s')) \<Rightarrow> Some (Inr (b, s'))) = Some y"
    show "P s k ident y"
      unfolding P_def
    proof (intro impI allI)
      fix b s'
      assume ex: "\<exists>ns. Lock_inv s ns" and y: "y = Inr (b, s')"
      then obtain ns where inv: "Lock_inv s ns" by blast
      from step y obtain r s1 where att: "Lock_remove_attempt s k ident = Some (Inr (r, s1))"
        and rest: "(case r of None \<Rightarrow> rmv s1 k ident | Some b \<Rightarrow> Some (Inr (b, s1))) = Some (Inr (b, s'))"
        by (auto split: option.splits sum.splits prod.splits)
      from Lock_remove_attempt_inv[OF inv att] have inv1: "\<exists>ns'. Lock_inv s1 ns'" .
      show "\<exists>ns'. Lock_inv s' ns'"
      proof (cases r)
        case None
        with rest have "rmv s1 k ident = Some (Inr (b, s'))" by simp
        from IH[OF this] inv1 show ?thesis unfolding P_def by blast
      next
        case (Some b')
        with rest inv1 show ?thesis by simp
      qed
    qed
  qed
  with assms(2) show ?thesis unfolding P_def by blast
qed

text \<open>The constructor establishes the invariant.\<close>

lemma Lock_fresh_inv:
  assumes new: "new_LockDurableSet m numIDs ws alloc = Inr s"
    and va: "valid_alloc alloc (sum_list (map nat (take (nat numIDs) ws)) + 2)"
  shows "Lock_inv s [Lock_tail s]"
proof -
  define N where "N = sum_list (map nat (take (nat numIDs) ws))"
  from Lock_ctor_result[OF new va] have
    cc: "concat (Lock_preAllocatedNodes s) = map alloc [0..<N]" and
    h: "Lock_head s = alloc N" and t: "Lock_tail s = alloc (Suc N)" and
    hh: "Lock_heap s (Lock_head s) = Some (new_LockNode\<lparr>nnext := Lock_tail s, nkey := MIN_KEY\<rparr>)" and
    ht: "Lock_heap s (Lock_tail s) = Some (new_LockNode\<lparr>nkey := MAX_KEY\<rparr>)" and
    dm: "dom (Lock_heap s) = alloc ` {..<N + 2}" and
    lp: "length (Lock_preAllocatedNodes s) = nat numIDs" and
    la: "length (Lock_allocIndices s) = nat numIDs" and
    ai: "\<forall>i. i < nat numIDs \<longrightarrow> Lock_allocIndices s ! i = int (length (Lock_preAllocatedNodes s ! i)) - 1"
    unfolding N_def by blast+
  have upt: "[0..<N + 2] = [0..<N] @ [N, Suc N]" by simp
  from va have d: "distinct (map alloc [0..<N])" "alloc N \<notin> set (map alloc [0..<N])"
    "alloc (Suc N) \<notin> set (map alloc [0..<N])" "alloc N \<noteq> alloc (Suc N)"
    unfolding valid_alloc_def N_def[symmetric] upt by auto
  from va have nz: "\<forall>i<N + 2. alloc i \<noteq> 0" and evn: "\<forall>i<N + 2. alloc i AND 1 = 0"
    unfolding valid_alloc_def N_def[symmetric] by (auto simp: less_Suc_eq)
  from nz have "0 \<notin> alloc ` {..<N + 2}" by (metis imageE lessThan_iff)
  with dm have "0 \<notin> dom (Lock_heap s)" by simp
  then have z: "Lock_heap s 0 = None" by blast
  have ok: "list_ok (Lock_heap s) (Lock_head s) (Lock_tail s) [Lock_tail s]"
    unfolding list_ok_def using hh ht z d(4) h t
    by (simp add: keyof_def new_LockNode_def)
  from free_nodes_full[of "Lock_allocIndices s" "Lock_preAllocatedNodes s"] la lp ai
  have fr: "free_nodes (Lock_allocIndices s) (Lock_preAllocatedNodes s) = map alloc [0..<N]"
    by (simp add: cc)
  have sub: "set (map alloc [0..<N]) \<subseteq> dom (Lock_heap s)" unfolding dm by auto
  have pl: "pool_ok (Lock_heap s) [Lock_head s, Lock_tail s] (Lock_allocIndices s) (Lock_preAllocatedNodes s)"
    unfolding pool_ok_def fr using la lp ai d sub h t by auto
  have ev: "\<forall>a\<in>set [Lock_head s, Lock_tail s] \<union> set (map alloc [0..<N]). a AND 1 = 0"
    using evn h t by auto
  from ok pl ev show ?thesis by (simp add: Lock_inv_def fr)
qed

text \<open>
  The states of the Lock set reached from the constructor by inserts and removes of one
  caller at a time that return.
\<close>

inductive Lock_reachable :: "('a :: zero) LockDurableSet \<Rightarrow> bool" where
  fresh: "new_LockDurableSet m numIDs ws alloc = Inr s \<Longrightarrow>
          valid_alloc alloc (sum_list (map nat (take (nat numIDs) ws)) + 2) \<Longrightarrow> Lock_reachable s"
| after_insert: "Lock_reachable s \<Longrightarrow> Lock_insert s k it ident = Some (Inr (b, s')) \<Longrightarrow> Lock_reachable s'"
| after_remove: "Lock_reachable s \<Longrightarrow> Lock_remove s k ident = Some (Inr (b, s')) \<Longrightarrow> Lock_reachable s'"

lemma Lock_reachable_inv: "Lock_reachable s \<Longrightarrow> \<exists>ns. Lock_inv s ns"
proof (induction rule: Lock_reachable.induct)
  case (fresh m numIDs ws alloc s)
  from Lock_fresh_inv[OF this] show ?case by blast
next
  case (after_insert s k it ident b s')
  from Lock_insert_inv[OF after_insert(2) after_insert(3)] show ?case .
next
  case (after_remove s k ident b s')
  from Lock_remove_inv[OF after_remove(2) after_remove(3)] show ?case .
qed

lemma Lock_contains_MAX_KEY:
  assumes "Lock_reachable s"
  shows "Lock_contains s MAX_KEY = Some (Inr True)"
  using Lock_reachable_inv[OF assms] Lock_contains_inv by blast


section \<open>The tail sentinel\<close>

lemma valid_alloc_one_writer:
  "valid_alloc (\<lambda>n. 16 * of_nat n + 16) (sum_list (map nat (take (nat 1) [1])) + 2)"
  by (simp add: valid_alloc_def numeral_3_eq_3)

text \<open>
  Claim C10. In the Sequential, Lock and MRLock sets \<open>contains(MAX_KEY)\<close> returns true
  in every reachable state: every state reached from the constructor by inserts and
  removes, of any keys, that return, one caller at a time. The traversal stops at the
  tail, whose key is \<open>MAX_KEY\<close> and whose \<open>next\<close> stays null. (A remove of \<open>MAX_KEY\<close>
  calls \<open>mark\<close> through the null successor of the tail and an insert above
  \<open>MAX_KEY\<close> runs off the list: neither returns a state.)
\<close>

theorem contains_MAX_KEY:
  assumes "Seq_reachable (\<lambda>k. True) s" and "Lock_reachable l" and "MR_reachable r"
  shows "Seq_contains s MAX_KEY = Some (Inr True)
       \<and> Lock_contains l MAX_KEY = Some (Inr True)
       \<and> MR_contains r MAX_KEY = Some (Inr True)"
  using Seq_contains_MAX_KEY[OF assms(1)] Lock_contains_MAX_KEY[OF assms(2)]
    MR_contains_MAX_KEY[OF assms(3)]
  by simp

theorem contains_MAX_KEY_witness:
  "\<exists>m s s1 l l1 r r1. new_MemoryManager 1 1 = Inr (m :: int MemoryManager)
     \<and> new_SequentialDurableSet m 1 (\<lambda>n. 16 * of_nat n + 16) = Inr s
     \<and> Seq_insert s 5 7 = Some (Inr (True, s1))
     \<and> new_LockDurableSet m 1 [1] (\<lambda>n. 16 * of_nat n + 16) = Inr l
     \<and> Lock_insert l 5 7 0 = Some (Inr (True, l1))
     \<and> new_MRLockDurableSet m 1 [1] (\<lambda>n. 16 * of_nat n + 16) = Inr r
     \<and> MR_insert r 5 7 0 = Some (Inr (True, r1))
     \<and> Seq_reachable (\<lambda>k. True) s1 \<and> Lock_reachable l1 \<and> MR_reachable r1
     \<and> Seq_contains s1 MAX_KEY = Some (Inr True)
     \<and> Lock_contains l1 MAX_KEY = Some (Inr True)
     \<and> MR_contains r1 MAX_KEY = Some (Inr True)"
proof -
  have "\<exists>(m :: int MemoryManager) s s1.
          new_MemoryManager 1 1 = Inr m
          \<and> new_SequentialDurableSet m 1 (\<lambda>n. 16 * of_nat n + 16) = Inr s
          \<and> Seq_insert s 5 7 = Some (Inr (True, s1))"
    by (simp add: Seq_eval)
  then obtain m :: "int MemoryManager" and s s1 where
    a: "new_MemoryManager 1 1 = Inr m" and
    b: "new_SequentialDurableSet m 1 (\<lambda>n. 16 * of_nat n + 16) = Inr s" and
    c: "Seq_insert s 5 7 = Some (Inr (True, s1))"
    by blast
  from a have m: "m = \<lparr>numMemPoolSections = 1, memPoolSectionSize = 1,
                       memPool = [[new_MemCell]], freeListIndex = [0]\<rparr>"
    by (simp add: new_MemoryManager_def)
  have "\<exists>l l1. new_LockDurableSet m 1 [1] (\<lambda>n. 16 * of_nat n + 16) = Inr l
          \<and> Lock_insert l 5 7 0 = Some (Inr (True, l1))"
    unfolding m by (simp add: Lock_eval)
  then obtain l l1 where
    d: "new_LockDurableSet m 1 [1] (\<lambda>n. 16 * of_nat n + 16) = Inr l" and
    e: "Lock_insert l 5 7 0 = Some (Inr (True, l1))"
    by blast
  have "\<exists>r r1. new_MRLockDurableSet m 1 [1] (\<lambda>n. 16 * of_nat n + 16) = Inr r
          \<and> MR_insert r 5 7 0 = Some (Inr (True, r1))"
    unfolding m by (simp add: MR_eval)
  then obtain r r1 where
    f: "new_MRLockDurableSet m 1 [1] (\<lambda>n. 16 * of_nat n + 16) = Inr r" and
    g: "MR_insert r 5 7 0 = Some (Inr (True, r1))"
    by blast
  have "Seq_reachable (\<lambda>k. True) s"
    by (rule Seq_reachable.fresh[OF b]) (rule valid_alloc_example)
  then have rs: "Seq_reachable (\<lambda>k. True) s1"
    by (rule Seq_reachable.after_insert[OF _ _ c]) simp
  have "Lock_reachable l"
    by (rule Lock_reachable.fresh[OF d]) (rule valid_alloc_one_writer)
  then have rl: "Lock_reachable l1"
    by (rule Lock_reachable.after_insert[OF _ e])
  have "MR_reachable r"
    by (rule MR_reachable.fresh[OF f]) (rule valid_alloc_one_writer)
  then have rr: "MR_reachable r1"
    by (rule MR_reachable.after_insert[OF _ g])
  from contains_MAX_KEY[OF rs rl rr] a b c d e f g rs rl rr show ?thesis by blast
qed


section \<open>LockDurableSet: recover\<close>

text \<open>\<open>delete p\<close>: of the null pointer it does nothing; of a pointer to no node it is an error.\<close>

definition delete_node :: "(uintptr \<rightharpoonup> 'n) \<Rightarrow> uintptr \<Rightarrow> error + (uintptr \<rightharpoonup> 'n)" where
  "delete_node hp p =
     (if p = 0 then Inr hp
      else (case hp p of None \<Rightarrow> Inl BadDeref | Some _ \<Rightarrow> Inr (hp(p := None))))"

text \<open>\<open>LockDurableSet::FREE\<close>\<close>

definition Lock_FREE :: "'a LockDurableSet \<Rightarrow> error + 'a LockDurableSet" where
  "Lock_FREE s =
     (case delete_node (Lock_heap s) (Lock_head s) of
        Inl e \<Rightarrow> Inl e
      | Inr h1 \<Rightarrow>
     (case delete_node h1 (Lock_tail s) of
        Inl e \<Rightarrow> Inl e
      | Inr h2 \<Rightarrow>
     (case for_loop [0..<nat (Lock_numIDs s)]
             (\<lambda>i hp.
                (case at (Lock_maxIndices s) (int i) of
                   Inl e \<Rightarrow> Inl e
                 | Inr mx \<Rightarrow>
                     for_loop [0..<nat mx]
                       (\<lambda>j hp.
                          (case at (Lock_preAllocatedNodes s) (int i) of
                             Inl e \<Rightarrow> Inl e
                           | Inr row \<Rightarrow>
                              (case at row (int j) of
                                 Inl e \<Rightarrow> Inl e
                               | Inr p \<Rightarrow> delete_node hp p)))
                       hp))
             h2 of
        Inl e \<Rightarrow> Inl e
      | Inr h3 \<Rightarrow> Inr (s\<lparr>Lock_heap := h3\<rparr>))))"

text \<open>
  The loop of \<open>recover\<close> that records the keys of the volatile list,
  \<open>while (current->next.load() != nullptr)\<close>; \<open>next\<close> is a plain pointer in the Lock
  set and is read as such.
\<close>

partial_function (option) Lock_volatile_loop ::
  "(uintptr \<rightharpoonup> 'a LockNode) \<Rightarrow> uintptr \<Rightarrow> int list \<Rightarrow> (error + int list) option" where
  "Lock_volatile_loop hp current acc =
     (case hp current of
        None \<Rightarrow> Some (Inl BadDeref)
      | Some c \<Rightarrow>
          if nnext c \<noteq> 0 then Lock_volatile_loop hp (getNextRef c) (acc @ [nkey c])
          else Some (Inr acc))"

text \<open>The loop of \<open>recover\<close> that sets \<open>allocIndices\<close> and \<open>maxIndices\<close>, for writer \<open>i\<close>.\<close>

definition Lock_recover_indices ::
  "int list \<Rightarrow> int list \<Rightarrow> nat \<Rightarrow> int list \<times> int list \<Rightarrow> error + int list \<times> int list" where
  "Lock_recover_indices writeOpsVector active i st =
     (case at writeOpsVector (int i) of
        Inl e \<Rightarrow> Inl e
      | Inr w \<Rightarrow>
         (case at active (int i) of
            Inl e \<Rightarrow> Inl e
          | Inr a \<Rightarrow>
             (case at (fst st) (int i) of
                Inl e \<Rightarrow> Inl e
              | Inr _ \<Rightarrow>
                 (case at (snd st) (int i) of
                    Inl e \<Rightarrow> Inl e
                  | Inr _ \<Rightarrow> Inr ((fst st)[i := w + a - 1], (snd st)[i := w + a])))))"

text \<open>The loop of \<open>recover\<close> that allocates the pools again, for writer \<open>i\<close>.\<close>

definition Lock_recover_section ::
  "(nat \<Rightarrow> uintptr) \<Rightarrow> int list \<Rightarrow> int list \<Rightarrow> nat \<Rightarrow> ('a::zero) Lock_build \<Rightarrow> error + 'a Lock_build" where
  "Lock_recover_section alloc writeOpsVector active i b =
     (case at writeOpsVector (int i) of
        Inl e \<Rightarrow> Inl e
      | Inr w \<Rightarrow>
         (case at active (int i) of
            Inl e \<Rightarrow> Inl e
          | Inr a \<Rightarrow>
              let numNodes = w + a in
              if numNodes < 0 then Inl LengthError
              else
                (case at (lb_pools b) (int i) of
                   Inl e \<Rightarrow> Inl e
                 | Inr _ \<Rightarrow>
                     for_loop [0..<nat numNodes] (Lock_build_node alloc i)
                       (b\<lparr>lb_pools := (lb_pools b)[i := replicate (nat numNodes) 0]\<rparr>))))"

text \<open>The last loop of \<open>recover\<close>: the recovered cells are inserted again.\<close>

fun Lock_reinsert ::
  "nat list \<Rightarrow> 'a scan \<Rightarrow> 'a LockDurableSet \<Rightarrow> (error + 'a LockDurableSet) option" where
  "Lock_reinsert [] out s = Some (Inr s)"
| "Lock_reinsert (i # is) out s =
     (case at (keys out) (int i) of
        Inl e \<Rightarrow> Some (Inl e)
      | Inr k \<Rightarrow>
     (case at (items out) (int i) of
        Inl e \<Rightarrow> Some (Inl e)
      | Inr it \<Rightarrow>
     (case at (durableAddressPrefixes out) (int i) of
        Inl e \<Rightarrow> Some (Inl e)
      | Inr p \<Rightarrow>
     (case Lock_insert s k it p of
        None \<Rightarrow> None
      | Some (Inl e) \<Rightarrow> Some (Inl e)
      | Some (Inr (b, s')) \<Rightarrow> Lock_reinsert is out s'))))"

text \<open>
  Modelled from the spec: \<open>recoverMemory\<close>, the method of the store that \<open>recover\<close>
  calls as \<open>this->mem.recoverMemory(keys, items, durableAddressPrefixes, activeNodes)\<close>
  and that \<open>MemoryManager\<close> does not declare. It is the scan-and-reset operation of
  the store, \<open>readResetMemory\<close>.
\<close>

definition recoverMemory ::
  "('a::zero) MemoryManager \<Rightarrow> int list \<Rightarrow> 'a list \<Rightarrow> int list \<Rightarrow> int list
     \<Rightarrow> error + (int \<times> 'a scan \<times> 'a MemoryManager)" where
  "recoverMemory m ks its prefixes active = readResetMemory m ks its prefixes active"

text \<open>
  \<open>LockDurableSet::recover\<close>. The nodes created by \<open>new Node()\<close> during the call are
  at \<open>alloc 0\<close>, \<open>alloc 1\<close>, and so on.
\<close>

definition Lock_recover ::
  "('a::zero) LockDurableSet \<Rightarrow> int list \<Rightarrow> (nat \<Rightarrow> uintptr) \<Rightarrow> (error + 'a LockDurableSet) option" where
  "Lock_recover s writeOpsVector alloc =
     (if Lock_numIDs s < 0 then Some (Inl LengthError)
      else
     (case recoverMemory (Lock_mem s) [] [] [] (replicate (nat (Lock_numIDs s)) 0) of
        Inl e \<Rightarrow> Some (Inl e)
      | Inr (numActiveNodes, out, m) \<Rightarrow>
     (case Lock_heap s (Lock_head s) of
        None \<Rightarrow> Some (Inl BadDeref)
      | Some hn \<Rightarrow>
     (case Lock_volatile_loop (Lock_heap s) (nnext hn) [] of
        None \<Rightarrow> None
      | Some (Inl e) \<Rightarrow> Some (Inl e)
      | Some (Inr volatile) \<Rightarrow>
     (case for_loop [0..<nat numActiveNodes]
             (\<lambda>i acc. (case at (keys out) (int i) of Inl e \<Rightarrow> Inl e | Inr k \<Rightarrow> Inr (acc @ [k])))
             [] of
        Inl e \<Rightarrow> Some (Inl e)
      | Inr durable \<Rightarrow>
     (case Lock_FREE (s\<lparr>Lock_mem := m, Lock_keysVolatileRecovered := volatile,
                        Lock_keysDurableRecovered := durable\<rparr>) of
        Inl e \<Rightarrow> Some (Inl e)
      | Inr s1 \<Rightarrow>
          let h = alloc 0;
              t = alloc 1;
              hp1 = (Lock_heap s1)(h \<mapsto> new_LockNode);
              hp2 = hp1(t \<mapsto> new_LockNode);
              hp3 = (case hp2 h of None \<Rightarrow> hp2 | Some n \<Rightarrow> hp2(h \<mapsto> n\<lparr>nnext := t\<rparr>));
              hp4 = (case hp3 h of None \<Rightarrow> hp3 | Some n \<Rightarrow> hp3(h \<mapsto> n\<lparr>nkey := MIN_KEY\<rparr>));
              hp5 = (case hp4 t of None \<Rightarrow> hp4 | Some n \<Rightarrow> hp4(t \<mapsto> n\<lparr>nkey := MAX_KEY\<rparr>))
          in
     (case for_loop [0..<nat (Lock_numIDs s1)]
             (Lock_recover_indices writeOpsVector (activeNodes out))
             (Lock_allocIndices s1, Lock_maxIndices s1) of
        Inl e \<Rightarrow> Some (Inl e)
      | Inr (ai, mi) \<Rightarrow>
     (case for_loop [0..<nat (Lock_numIDs s1)]
             (Lock_recover_section alloc writeOpsVector (activeNodes out))
             \<lparr>lb_heap = hp5, lb_pools = Lock_preAllocatedNodes s1, lb_news = 2\<rparr> of
        Inl e \<Rightarrow> Some (Inl e)
      | Inr b \<Rightarrow>
          Lock_reinsert [0..<nat numActiveNodes] out
            (s1\<lparr>Lock_heap := lb_heap b, Lock_head := h, Lock_tail := t,
                Lock_preAllocatedNodes := lb_pools b,
                Lock_allocIndices := ai, Lock_maxIndices := mi\<rparr>)))))))))"

lemma Lock_recover_throws:
  assumes "0 \<le> Lock_numIDs s" "0 < numMemPoolSections (Lock_mem s)" "0 < memPoolSectionSize (Lock_mem s)"
  shows "Lock_recover s ws alloc = Some (Inl OutOfRange)"
  using assms by (simp add: Lock_recover_def recoverMemory_def readResetMemory_throws)

text \<open>
  After \<open>insert(5, 7, 0)\<close> on a Lock set with one writer and a store of one cell,
  \<open>recover\<close> ends in the scan of the store.
\<close>

lemma Lock_recover_one_cell_example:
  "\<exists>m s s1. new_MemoryManager 1 1 = Inr (m :: int MemoryManager)
     \<and> new_LockDurableSet m 1 [1] (\<lambda>n. 16 * of_nat n + 16) = Inr s
     \<and> Lock_insert s 5 7 0 = Some (Inr (True, s1))
     \<and> Lock_recover s1 [1] (\<lambda>n. 16 * of_nat n + 64) = Some (Inl OutOfRange)"
  by (simp add: Lock_eval Lock_recover_throws)

text \<open>On a store without cells the scan returns and \<open>recover\<close> builds the empty set.\<close>

lemma Lock_recover_empty_store:
  "\<exists>m s s1. new_MemoryManager 1 0 = Inr (m :: int MemoryManager)
     \<and> new_LockDurableSet m 1 [1] (\<lambda>n. 16 * of_nat n + 16) = Inr s
     \<and> Lock_recover s [1] (\<lambda>n. 16 * of_nat n + 64) = Some (Inr s1)
     \<and> Lock_contains s1 MAX_KEY = Some (Inr True)"
  by (simp add: Lock_eval Lock_recover_def recoverMemory_def readResetMemory_def readReset_outer.simps
        readReset_inner.simps Lock_volatile_loop.simps Lock_FREE_def delete_node_def
        Lock_recover_indices_def Lock_recover_section_def)


section \<open>LinkFreeDurableSet\<close>

text \<open>
  \<open>struct Node\<close> of the Link-Free set: the fields of the Sequential node and the two flags
  \<open>insertValidFlag\<close> and \<open>deleteValidFlag\<close>. The fields are atomics; with one caller at a
  time \<open>load\<close> and \<open>store\<close> are a read and a write, and \<open>compare_exchange_strong\<close> writes
  when the value read is the expected one.
\<close>

record 'a LFNode = "'a Node" +
  ninsertValidFlag :: bool
  ndeleteValidFlag :: bool

definition new_LFNode :: "('a::zero) LFNode" where
  "new_LFNode = \<lparr>nkey = 0, nitem = 0, nvalidBits = 0, nnext = 0,
               durableAddressPrefix = - 1, durableAddressPostfix = - 1,
               ninsertValidFlag = False, ndeleteValidFlag = False\<rparr>"

text \<open>\<open>Node::FLUSH_INSERT\<close> and \<open>Node::FLUSH_DELETE\<close> of the Link-Free node, on the node at \<open>p\<close>.\<close>

definition LF_FLUSH_INSERT ::
  "(uintptr \<rightharpoonup> 'a LFNode) \<Rightarrow> uintptr \<Rightarrow> 'a MemoryManager
     \<Rightarrow> error + ((uintptr \<rightharpoonup> 'a LFNode) \<times> 'a MemoryManager)" where
  "LF_FLUSH_INSERT hp p m =
     (case deref hp p of
        Inl e \<Rightarrow> Inl e
      | Inr n \<Rightarrow>
          if ninsertValidFlag n = False then
            (case FLUSH m (nkey n) (nitem n) (nvalidBits n) (ninsertValidFlag n)
                    (ndeleteValidFlag n) (nnext n)
                    (durableAddressPrefix n) (durableAddressPostfix n) of
               Inl e \<Rightarrow> Inl e
             | Inr m' \<Rightarrow> Inr (hp(p \<mapsto> n\<lparr>ninsertValidFlag := True\<rparr>), m'))
          else Inr (hp, m))"

definition LF_FLUSH_DELETE ::
  "(uintptr \<rightharpoonup> 'a LFNode) \<Rightarrow> uintptr \<Rightarrow> 'a MemoryManager
     \<Rightarrow> error + ((uintptr \<rightharpoonup> 'a LFNode) \<times> 'a MemoryManager)" where
  "LF_FLUSH_DELETE hp p m =
     (case deref hp p of
        Inl e \<Rightarrow> Inl e
      | Inr n \<Rightarrow>
          if ndeleteValidFlag n = False then
            (case FLUSH m (nkey n) (nitem n) (nvalidBits n) (ninsertValidFlag n)
                    (ndeleteValidFlag n) (nnext n)
                    (durableAddressPrefix n) (durableAddressPostfix n) of
               Inl e \<Rightarrow> Inl e
             | Inr m' \<Rightarrow> Inr (hp(p \<mapsto> n\<lparr>ndeleteValidFlag := True\<rparr>), m'))
          else Inr (hp, m))"

record 'a LinkFreeDurableSet =
  LF_heap :: "uintptr \<rightharpoonup> 'a LFNode"
  LF_head :: uintptr
  LF_tail :: uintptr
  LF_mem :: "'a MemoryManager"
  LF_preAllocatedNodes :: "uintptr list list"
  LF_allocIndices :: "int list"
  LF_maxIndices :: "int list"
  LF_keysVolatileRecovered :: "int list"
  LF_keysDurableRecovered :: "int list"
  LF_numIDs :: int

text \<open>
  The local state of the constructor's allocation loops: the heap and the pool vectors
  built so far, and the number of \<open>new Node()\<close> calls made.
\<close>

record 'a LF_build =
  fb_heap :: "uintptr \<rightharpoonup> 'a LFNode"
  fb_pools :: "uintptr list list"
  fb_news :: nat

text \<open>The body of the inner loop, for writer \<open>i\<close> and index \<open>j\<close>.\<close>

definition LF_build_node ::
  "(nat \<Rightarrow> uintptr) \<Rightarrow> nat \<Rightarrow> nat \<Rightarrow> ('a::zero) LF_build \<Rightarrow> error + 'a LF_build" where
  "LF_build_node alloc i j b =
     (case at (fb_pools b) (int i) of
        Inl e \<Rightarrow> Inl e
      | Inr row \<Rightarrow>
         (case at row (int j) of
            Inl e \<Rightarrow> Inl e
          | Inr _ \<Rightarrow>
              let a = alloc (fb_news b)
              in Inr (b\<lparr>fb_heap := (fb_heap b)(a \<mapsto> new_LFNode),
                        fb_pools := (fb_pools b)[i := row[j := a]],
                        fb_news := fb_news b + 1\<rparr>)))"

text \<open>The body of the outer allocation loop, for writer \<open>i\<close>.\<close>

definition LF_build_section ::
  "(nat \<Rightarrow> uintptr) \<Rightarrow> int list \<Rightarrow> nat \<Rightarrow> ('a::zero) LF_build \<Rightarrow> error + 'a LF_build" where
  "LF_build_section alloc writeOpsVector i b =
     (case at (fb_pools b) (int i) of
        Inl e \<Rightarrow> Inl e
      | Inr _ \<Rightarrow>
         (case at writeOpsVector (int i) of
            Inl e \<Rightarrow> Inl e
          | Inr w \<Rightarrow>
              if w < 0 then Inl LengthError
              else for_loop [0..<nat w] (LF_build_node alloc i)
                     (b\<lparr>fb_pools := (fb_pools b)[i := replicate (nat w) 0]\<rparr>)))"

text \<open>\<open>LinkFreeDurableSet::LinkFreeDurableSet\<close>\<close>

definition new_LinkFreeDurableSet ::
  "('a::zero) MemoryManager \<Rightarrow> int \<Rightarrow> int list \<Rightarrow> (nat \<Rightarrow> uintptr) \<Rightarrow> error + 'a LinkFreeDurableSet" where
  "new_LinkFreeDurableSet m numIDs writeOpsVector alloc =
     (if numIDs < 0 then Inl LengthError
      else
        (case for_loop [0..<nat numIDs] (set_indices writeOpsVector)
                (replicate (nat numIDs) 0, replicate (nat numIDs) 0) of
           Inl e \<Rightarrow> Inl e
         | Inr (ai, mi) \<Rightarrow>
            (case for_loop [0..<nat numIDs] (LF_build_section alloc writeOpsVector)
                    \<lparr>fb_heap = Map.empty, fb_pools = replicate (nat numIDs) [], fb_news = 0\<rparr> of
               Inl e \<Rightarrow> Inl e
             | Inr b \<Rightarrow>
                 let h = alloc (fb_news b);
                     t = alloc (fb_news b + 1);
                     hp1 = (fb_heap b)(h \<mapsto> new_LFNode);
                     hp2 = hp1(t \<mapsto> new_LFNode);
                     hp3 = (case hp2 h of None \<Rightarrow> hp2 | Some n \<Rightarrow> hp2(h \<mapsto> n\<lparr>nnext := t\<rparr>));
                     hp4 = (case hp3 h of None \<Rightarrow> hp3 | Some n \<Rightarrow> hp3(h \<mapsto> n\<lparr>nkey := MIN_KEY\<rparr>));
                     hp5 = (case hp4 t of None \<Rightarrow> hp4 | Some n \<Rightarrow> hp4(t \<mapsto> n\<lparr>nkey := MAX_KEY\<rparr>))
                 in Inr \<lparr>LF_heap = hp5, LF_head = h, LF_tail = t, LF_mem = m,
                          LF_preAllocatedNodes = fb_pools b,
                          LF_allocIndices = ai, LF_maxIndices = mi,
                          LF_keysVolatileRecovered = [], LF_keysDurableRecovered = [],
                          LF_numIDs = numIDs\<rparr>)))"

text \<open>\<open>LinkFreeDurableSet::allocFromArea\<close>\<close>

definition LF_allocFromArea ::
  "'a LinkFreeDurableSet \<Rightarrow> int \<Rightarrow> error + (uintptr \<times> 'a LinkFreeDurableSet)" where
  "LF_allocFromArea s ident =
     (case at (LF_preAllocatedNodes s) ident of
        Inl e \<Rightarrow> Inl e
      | Inr row \<Rightarrow>
     (case at (LF_allocIndices s) ident of
        Inl e \<Rightarrow> Inl e
      | Inr ai \<Rightarrow>
     (case at row ai of
        Inl e \<Rightarrow> Inl e
      | Inr newNode \<Rightarrow>
     (case retrieveAddress (LF_mem s) ident of
        Inl e \<Rightarrow> Inl e
      | Inr durAddr \<Rightarrow>
          if durAddr = - 1 then Inr (0, s)
          else
            (case store (LF_heap s) newNode
                    (\<lambda>n. n\<lparr>durableAddressPrefix := ident, durableAddressPostfix := durAddr\<rparr>) of
               Inl e \<Rightarrow> Inl e
             | Inr hp \<Rightarrow> Inr (newNode, s\<lparr>LF_heap := hp\<rparr>))))))"

text \<open>\<open>LinkFreeDurableSet::updateAlloc\<close>\<close>

definition LF_updateAlloc :: "'a LinkFreeDurableSet \<Rightarrow> int \<Rightarrow> error + 'a LinkFreeDurableSet" where
  "LF_updateAlloc s ident =
     (case at (LF_allocIndices s) ident of
        Inl e \<Rightarrow> Inl e
      | Inr ai \<Rightarrow>
     (case updateAddress (LF_mem s) ident of
        Inl e \<Rightarrow> Inl e
      | Inr m \<Rightarrow>
          Inr (s\<lparr>LF_allocIndices := (LF_allocIndices s)[nat ident := ai - 1], LF_mem := m\<rparr>)))"

text \<open>
  \<open>LinkFreeDurableSet::trim\<close>: the flush of \<open>current\<close>, then
  \<open>previous->next.compare_exchange_strong(current, successor)\<close>.
\<close>

definition LF_trim ::
  "'a LinkFreeDurableSet \<Rightarrow> uintptr \<Rightarrow> uintptr \<Rightarrow> error + (bool \<times> 'a LinkFreeDurableSet)" where
  "LF_trim s previous current =
     (case LF_FLUSH_DELETE (LF_heap s) current (LF_mem s) of
        Inl e \<Rightarrow> Inl e
      | Inr (h1, m1) \<Rightarrow>
     (case deref h1 current of
        Inl e \<Rightarrow> Inl e
      | Inr cn \<Rightarrow>
          let successor = getNextRef cn in
     (case deref h1 previous of
        Inl e \<Rightarrow> Inl e
      | Inr pn \<Rightarrow>
          if nnext pn = current
          then Inr (True, s\<lparr>LF_heap := h1(previous \<mapsto> pn\<lparr>nnext := successor\<rparr>), LF_mem := m1\<rparr>)
          else Inr (False, s\<lparr>LF_heap := h1, LF_mem := m1\<rparr>))))"

text \<open>The loop of \<open>LinkFreeDurableSet::find\<close>, which trims the marked nodes it meets, and \<open>find\<close>.\<close>

partial_function (option) LF_find_loop ::
  "'a LinkFreeDurableSet \<Rightarrow> int \<Rightarrow> uintptr \<Rightarrow> uintptr
     \<Rightarrow> (error + uintptr \<times> uintptr \<times> 'a LinkFreeDurableSet) option" where
  "LF_find_loop s k previous current =
     (case LF_heap s current of
        None \<Rightarrow> Some (Inl BadDeref)
      | Some c \<Rightarrow>
          if \<not> isNextMarked c then
            (if nkey c \<ge> k then Some (Inr (previous, current, s))
             else LF_find_loop s k current (getNextRef c))
          else
            (case LF_trim s previous current of
               Inl e \<Rightarrow> Some (Inl e)
             | Inr (_, s') \<Rightarrow>
                (case LF_heap s' current of
                   None \<Rightarrow> Some (Inl BadDeref)
                 | Some c' \<Rightarrow> LF_find_loop s' k previous (getNextRef c'))))"

definition LF_find ::
  "'a LinkFreeDurableSet \<Rightarrow> int \<Rightarrow> (error + uintptr \<times> uintptr \<times> 'a LinkFreeDurableSet) option" where
  "LF_find s k =
     (case LF_heap s (LF_head s) of
        None \<Rightarrow> Some (Inl BadDeref)
      | Some hn \<Rightarrow> LF_find_loop s k (LF_head s) (nnext hn))"

text \<open>
  The statements of \<open>LinkFreeDurableSet::insert\<close> that fill \<open>newNode\<close> and publish it with
  \<open>previous->next.compare_exchange_strong(current, newNode)\<close>. The result \<open>None\<close> is the
  next pass of the loop (the exchange failed), \<open>Some b\<close> is \<open>return b\<close>.
\<close>

definition LF_insert_link ::
  "'a LinkFreeDurableSet \<Rightarrow> int \<Rightarrow> 'a \<Rightarrow> int \<Rightarrow> uintptr \<Rightarrow> uintptr \<Rightarrow> uintptr
     \<Rightarrow> error + (bool option \<times> 'a LinkFreeDurableSet)" where
  "LF_insert_link s k it ident previous current newNode =
     (case store (LF_heap s) newNode
             (\<lambda>n. (flipV1 n)\<lparr>nkey := k, nitem := it, nnext := current\<rparr>) of
        Inl e \<Rightarrow> Inl e
      | Inr h2 \<Rightarrow>
     (case deref h2 previous of
        Inl e \<Rightarrow> Inl e
      | Inr pn \<Rightarrow>
          if nnext pn = current then
     (case LF_updateAlloc (s\<lparr>LF_heap := h2(previous \<mapsto> pn\<lparr>nnext := newNode\<rparr>)\<rparr>) ident of
        Inl e \<Rightarrow> Inl e
      | Inr s4 \<Rightarrow>
     (case store (LF_heap s4) newNode makeValid of
        Inl e \<Rightarrow> Inl e
      | Inr h5 \<Rightarrow>
     (case LF_FLUSH_INSERT h5 newNode (LF_mem s4) of
        Inl e \<Rightarrow> Inl e
      | Inr (h6, m6) \<Rightarrow> Inr (Some True, s4\<lparr>LF_heap := h6, LF_mem := m6\<rparr>))))
          else Inr (None, s\<lparr>LF_heap := h2\<rparr>)))"

text \<open>
  One pass of the \<open>while (true)\<close> loop of \<open>LinkFreeDurableSet::insert\<close>, after the call of
  \<open>find\<close>: a key that is present is validated and flushed.
\<close>

definition LF_insert_at ::
  "'a LinkFreeDurableSet \<Rightarrow> int \<Rightarrow> 'a \<Rightarrow> int \<Rightarrow> uintptr \<Rightarrow> uintptr
     \<Rightarrow> error + (bool option \<times> 'a LinkFreeDurableSet)" where
  "LF_insert_at s k it ident previous current =
     (case deref (LF_heap s) current of
        Inl e \<Rightarrow> Inl e
      | Inr cn \<Rightarrow>
          if nkey cn = k then
            (case store (LF_heap s) current makeValid of
               Inl e \<Rightarrow> Inl e
             | Inr h1 \<Rightarrow>
                (case LF_FLUSH_INSERT h1 current (LF_mem s) of
                   Inl e \<Rightarrow> Inl e
                 | Inr (h2, m2) \<Rightarrow> Inr (Some False, s\<lparr>LF_heap := h2, LF_mem := m2\<rparr>)))
          else
            (case LF_allocFromArea s ident of
               Inl e \<Rightarrow> Inl e
             | Inr (newNode, s1) \<Rightarrow>
                 if newNode = 0 then Inr (Some False, s1)
                 else LF_insert_link s1 k it ident previous current newNode))"

definition LF_insert_attempt ::
  "'a LinkFreeDurableSet \<Rightarrow> int \<Rightarrow> 'a \<Rightarrow> int
     \<Rightarrow> (error + (bool option \<times> 'a LinkFreeDurableSet)) option" where
  "LF_insert_attempt s k it ident =
     (case LF_find s k of
        None \<Rightarrow> None
      | Some (Inl e) \<Rightarrow> Some (Inl e)
      | Some (Inr (previous, current, s1)) \<Rightarrow> Some (LF_insert_at s1 k it ident previous current))"

text \<open>\<open>LinkFreeDurableSet::insert\<close>\<close>

partial_function (option) LF_insert ::
  "'a LinkFreeDurableSet \<Rightarrow> int \<Rightarrow> 'a \<Rightarrow> int \<Rightarrow> (error + bool \<times> 'a LinkFreeDurableSet) option" where
  "LF_insert s k it ident =
     (case LF_insert_attempt s k it ident of
        None \<Rightarrow> None
      | Some (Inl e) \<Rightarrow> Some (Inl e)
      | Some (Inr (None, s')) \<Rightarrow> LF_insert s' k it ident
      | Some (Inr (Some b, s')) \<Rightarrow> Some (Inr (b, s')))"

text \<open>\<open>LinkFreeDurableSet::contains\<close>: it validates and flushes the node it finds.\<close>

partial_function (option) LF_contains_loop ::
  "(uintptr \<rightharpoonup> 'a LFNode) \<Rightarrow> int \<Rightarrow> uintptr \<Rightarrow> (error + uintptr) option" where
  "LF_contains_loop hp k current =
     (case hp current of
        None \<Rightarrow> Some (Inl BadDeref)
      | Some c \<Rightarrow>
          if nkey c < k then LF_contains_loop hp k (getNextRef c)
          else Some (Inr current))"

definition LF_contains ::
  "'a LinkFreeDurableSet \<Rightarrow> int \<Rightarrow> (error + bool \<times> 'a LinkFreeDurableSet) option" where
  "LF_contains s k =
     (case LF_heap s (LF_head s) of
        None \<Rightarrow> Some (Inl BadDeref)
      | Some hn \<Rightarrow>
         (case LF_contains_loop (LF_heap s) k (nnext hn) of
            None \<Rightarrow> None
          | Some (Inl e) \<Rightarrow> Some (Inl e)
          | Some (Inr current) \<Rightarrow>
             (case LF_heap s current of
                None \<Rightarrow> Some (Inl BadDeref)
              | Some c \<Rightarrow>
                  if nkey c \<noteq> k then Some (Inr (False, s))
                  else if isNextMarked c then
                    (case LF_FLUSH_DELETE (LF_heap s) current (LF_mem s) of
                       Inl e \<Rightarrow> Some (Inl e)
                     | Inr (h1, m1) \<Rightarrow> Some (Inr (False, s\<lparr>LF_heap := h1, LF_mem := m1\<rparr>)))
                  else
                    (case store (LF_heap s) current makeValid of
                       Inl e \<Rightarrow> Some (Inl e)
                     | Inr h1 \<Rightarrow>
                        (case LF_FLUSH_INSERT h1 current (LF_mem s) of
                           Inl e \<Rightarrow> Some (Inl e)
                         | Inr (h2, m2) \<Rightarrow> Some (Inr (True, s\<lparr>LF_heap := h2, LF_mem := m2\<rparr>)))))))"

text \<open>
  One pass of the \<open>while (!result)\<close> loop of \<open>LinkFreeDurableSet::remove\<close>, after the call
  of \<open>find\<close>, with the \<open>trim\<close> that follows the loop when the exchange on
  \<open>current->next\<close> succeeded. \<open>successor->mark()\<close> is a member call: on a pointer that
  addresses no node it is an error.
\<close>

definition LF_remove_at ::
  "'a LinkFreeDurableSet \<Rightarrow> int \<Rightarrow> uintptr \<Rightarrow> uintptr
     \<Rightarrow> error + (bool option \<times> 'a LinkFreeDurableSet)" where
  "LF_remove_at s k previous current =
     (case deref (LF_heap s) current of
        Inl e \<Rightarrow> Inl e
      | Inr cn \<Rightarrow>
          if nkey cn \<noteq> k then Inr (Some False, s)
          else
            let successor = getNextRef cn in
     (case deref (LF_heap s) successor of
        Inl e \<Rightarrow> Inl e
      | Inr _ \<Rightarrow>
          let markedSuccessor = mark successor in
     (case store (LF_heap s) current makeValid of
        Inl e \<Rightarrow> Inl e
      | Inr h1 \<Rightarrow>
     (case deref h1 current of
        Inl e \<Rightarrow> Inl e
      | Inr cn1 \<Rightarrow>
          if nnext cn1 = successor then
            (case LF_trim (s\<lparr>LF_heap := h1(current \<mapsto> cn1\<lparr>nnext := markedSuccessor\<rparr>)\<rparr>)
                    previous current of
               Inl e \<Rightarrow> Inl e
             | Inr (_, s2) \<Rightarrow> Inr (Some True, s2))
          else Inr (None, s\<lparr>LF_heap := h1\<rparr>)))))"

definition LF_remove_attempt ::
  "'a LinkFreeDurableSet \<Rightarrow> int \<Rightarrow> (error + (bool option \<times> 'a LinkFreeDurableSet)) option" where
  "LF_remove_attempt s k =
     (case LF_find s k of
        None \<Rightarrow> None
      | Some (Inl e) \<Rightarrow> Some (Inl e)
      | Some (Inr (previous, current, s1)) \<Rightarrow> Some (LF_remove_at s1 k previous current))"

text \<open>\<open>LinkFreeDurableSet::remove\<close>\<close>

partial_function (option) LF_remove ::
  "'a LinkFreeDurableSet \<Rightarrow> int \<Rightarrow> (error + bool \<times> 'a LinkFreeDurableSet) option" where
  "LF_remove s k =
     (case LF_remove_attempt s k of
        None \<Rightarrow> None
      | Some (Inl e) \<Rightarrow> Some (Inl e)
      | Some (Inr (None, s')) \<Rightarrow> LF_remove s' k
      | Some (Inr (Some b, s')) \<Rightarrow> Some (Inr (b, s')))"

text \<open>
  \<open>LinkFreeDurableSet::printSet\<close>: the keys it prints, head first; a marked node is not
  printed but trimmed.
\<close>

partial_function (option) LF_printSet_loop ::
  "'a LinkFreeDurableSet \<Rightarrow> uintptr \<Rightarrow> uintptr \<Rightarrow> int list
     \<Rightarrow> (error + int list \<times> 'a LinkFreeDurableSet) option" where
  "LF_printSet_loop s previous current printed =
     (if current \<noteq> 0 then
        (case LF_heap s current of
           None \<Rightarrow> Some (Inl BadDeref)
         | Some c \<Rightarrow>
             if \<not> isNextMarked c then
               LF_printSet_loop s current (getNextRef c) (printed @ [nkey c])
             else
               (case LF_trim s previous current of
                  Inl e \<Rightarrow> Some (Inl e)
                | Inr (_, s') \<Rightarrow>
                   (case LF_heap s' current of
                      None \<Rightarrow> Some (Inl BadDeref)
                    | Some c' \<Rightarrow> LF_printSet_loop s' previous (getNextRef c') printed)))
      else Some (Inr (printed, s)))"

definition LF_printSet ::
  "'a LinkFreeDurableSet \<Rightarrow> (error + int list \<times> 'a LinkFreeDurableSet) option" where
  "LF_printSet s =
     (case LF_heap s (LF_head s) of
        None \<Rightarrow> Some (Inl BadDeref)
      | Some hn \<Rightarrow> LF_printSet_loop s (LF_head s) (nnext hn) [nkey hn])"

lemmas LF_eval =
  new_LinkFreeDurableSet_def LF_build_section_def LF_build_node_def set_indices_def
  new_LFNode_def at_def Let_def MIN_KEY_def MAX_KEY_def new_MemoryManager_def
  LF_insert.simps LF_insert_attempt_def LF_insert_at_def LF_insert_link_def LF_find_def LF_find_loop.simps
  LF_trim_def LF_FLUSH_INSERT_def LF_FLUSH_DELETE_def
  LF_allocFromArea_def LF_updateAlloc_def deref_def store_def
  retrieveAddress_def updateAddress_def flipV1_def makeValid_def FLUSH_def
  COPY_def new_MemCell_def isNextMarked_def getNextRef_def LF_contains_def LF_contains_loop.simps
  LF_remove.simps LF_remove_attempt_def LF_remove_at_def mark_def
  LF_printSet_def LF_printSet_loop.simps


section \<open>LinkFreeDurableSet: construction\<close>

definition LF_build_ok :: "(nat \<Rightarrow> uintptr) \<Rightarrow> ('a::zero) LF_build \<Rightarrow> bool" where
  "LF_build_ok alloc b \<longleftrightarrow>
     (\<forall>n<fb_news b. fb_heap b (alloc n) = Some new_LFNode)
   \<and> dom (fb_heap b) = alloc ` {..<fb_news b}"

lemma LF_build_node_ok:
  assumes "LF_build_node alloc i j b = Inr b'" and "LF_build_ok alloc b"
  shows "LF_build_ok alloc b' \<and> fb_news b' = fb_news b + 1
       \<and> fb_pools b' = (fb_pools b)[i := (fb_pools b ! i)[j := alloc (fb_news b)]]"
proof -
  from assms(1) have b': "b' = b\<lparr>fb_heap := (fb_heap b)(alloc (fb_news b) \<mapsto> new_LFNode),
            fb_pools := (fb_pools b)[i := (fb_pools b ! i)[j := alloc (fb_news b)]],
            fb_news := Suc (fb_news b)\<rparr>"
    by (auto simp: LF_build_node_def Let_def at_def split: sum.splits if_splits)
  from assms(2) have hp: "\<forall>n<fb_news b. fb_heap b (alloc n) = Some new_LFNode"
    and dm: "dom (fb_heap b) = alloc ` {..<fb_news b}"
    by (simp_all add: LF_build_ok_def)
  have "\<forall>n<Suc (fb_news b). ((fb_heap b)(alloc (fb_news b) \<mapsto> new_LFNode)) (alloc n) = Some new_LFNode"
    using hp by (simp add: less_Suc_eq)
  moreover have "dom ((fb_heap b)(alloc (fb_news b) \<mapsto> new_LFNode)) = alloc ` {..<Suc (fb_news b)}"
    using dm by (simp add: lessThan_Suc)
  ultimately show ?thesis
    unfolding LF_build_ok_def by (subst b')+ simp
qed

lemma LF_build_section_ok:
  assumes sec: "LF_build_section alloc ws i b = Inr b'" and ok: "LF_build_ok alloc b"
  shows "LF_build_ok alloc b' \<and> i < length ws \<and> 0 \<le> ws ! i \<and> i < length (fb_pools b)
       \<and> fb_news b' = fb_news b + nat (ws ! i)
       \<and> fb_pools b' = (fb_pools b)[i := map alloc [fb_news b..<fb_news b + nat (ws ! i)]]"
proof -
  let ?w = "nat (ws ! i)" and ?n0 = "fb_news b" and ?P0 = "fb_pools b"
  from sec have i: "i < length ?P0" "i < length ws" "0 \<le> ws ! i"
    and loop: "for_loop [0..<?w] (LF_build_node alloc i)
                 (b\<lparr>fb_pools := ?P0[i := replicate ?w 0]\<rparr>) = Inr b'"
    by (auto simp: LF_build_section_def at_def split: sum.splits if_splits)
  define K where "K = (\<lambda>j (st :: 'a LF_build). LF_build_ok alloc st \<and> fb_news st = ?n0 + j
      \<and> fb_pools st = ?P0[i := map alloc [?n0..<?n0 + j] @ replicate (?w - j) 0])"
  have K0: "K 0 (b\<lparr>fb_pools := ?P0[i := replicate ?w 0]\<rparr>)"
    using ok by (simp add: K_def LF_build_ok_def)
  have Kstep: "\<And>j a c. j < ?w \<Longrightarrow> K j a \<Longrightarrow> LF_build_node alloc i j a = Inr c \<Longrightarrow> K (Suc j) c"
  proof -
    fix j a c
    assume j: "j < ?w" and Ka: "K j a" and step: "LF_build_node alloc i j a = Inr c"
    from Ka have oka: "LF_build_ok alloc a" and na: "fb_news a = ?n0 + j"
      and pa: "fb_pools a = ?P0[i := map alloc [?n0..<?n0 + j] @ replicate (?w - j) 0]"
      by (simp_all add: K_def)
    from LF_build_node_ok[OF step oka] have okc: "LF_build_ok alloc c"
      and nc: "fb_news c = fb_news a + 1"
      and pc: "fb_pools c = (fb_pools a)[i := (fb_pools a ! i)[j := alloc (fb_news a)]]"
      by simp_all
    have row: "fb_pools a ! i = map alloc [?n0..<?n0 + j] @ replicate (?w - j) 0"
      using i(1) by (simp add: pa)
    have "fb_pools c = ?P0[i := map alloc [?n0..<?n0 + Suc j] @ replicate (?w - Suc j) 0]"
      unfolding pc row na fill_row_step[OF j] by (simp add: pa)
    with okc nc na show "K (Suc j) c" by (simp add: K_def)
  qed
  have "K ?w b'"
    by (rule for_loop_upt_inv[where I = K, OF loop K0]) (rule Kstep, assumption+)
  with i show ?thesis by (simp add: K_def)
qed

lemma LF_build_sections_ok:
  assumes loop: "for_loop [0..<L] (LF_build_section alloc ws) b0 = Inr b"
    and b0: "b0 = \<lparr>fb_heap = Map.empty, fb_pools = replicate L [], fb_news = 0\<rparr>"
  shows "LF_build_ok alloc b \<and> length (fb_pools b) = L \<and> L \<le> length ws
       \<and> fb_news b = sum_list (map nat (take L ws))
       \<and> concat (fb_pools b) = map alloc [0..<fb_news b]
       \<and> (\<forall>i<L. 0 \<le> ws ! i \<and> length (fb_pools b ! i) = nat (ws ! i))"
proof -
  define J where "J = (\<lambda>i (st :: 'a LF_build). LF_build_ok alloc st \<and> length (fb_pools st) = L
      \<and> i \<le> length ws
      \<and> fb_news st = sum_list (map nat (take i ws))
      \<and> concat (take i (fb_pools st)) = map alloc [0..<fb_news st]
      \<and> (\<forall>i'<i. 0 \<le> ws ! i' \<and> length (fb_pools st ! i') = nat (ws ! i')))"
  have J0: "J 0 b0" by (simp add: J_def b0 LF_build_ok_def)
  have Jstep: "\<And>i a c. i < L \<Longrightarrow> J i a \<Longrightarrow> LF_build_section alloc ws i a = Inr c \<Longrightarrow> J (Suc i) c"
  proof -
    fix i a c
    assume i: "i < L" and Ja: "J i a" and step: "LF_build_section alloc ws i a = Inr c"
    from Ja have oka: "LF_build_ok alloc a" and la: "length (fb_pools a) = L"
      and na: "fb_news a = sum_list (map nat (take i ws))"
      and ca: "concat (take i (fb_pools a)) = map alloc [0..<fb_news a]"
      and ra: "\<forall>i'<i. 0 \<le> ws ! i' \<and> length (fb_pools a ! i') = nat (ws ! i')"
      by (simp_all add: J_def)
    from LF_build_section_ok[OF step oka] have okc: "LF_build_ok alloc c"
      and iw: "i < length ws" and w0: "0 \<le> ws ! i"
      and nc: "fb_news c = fb_news a + nat (ws ! i)"
      and pc: "fb_pools c = (fb_pools a)[i := map alloc [fb_news a..<fb_news a + nat (ws ! i)]]"
      by simp_all
    have tk: "take (Suc i) (fb_pools c) = take i (fb_pools a) @ [map alloc [fb_news a..<fb_news a + nat (ws ! i)]]"
      using i la by (simp add: pc take_Suc_conv_app_nth)
    have cc: "concat (take (Suc i) (fb_pools c)) = map alloc [0..<fb_news c]"
      unfolding tk nc using ca by (simp add: upt_add_eq_append[of 0, simplified] del: upt_Suc)
    have sm: "sum_list (map nat (take (Suc i) ws)) = sum_list (map nat (take i ws)) + nat (ws ! i)"
      using iw by (simp add: take_Suc_conv_app_nth)
    have rc: "\<forall>i'<Suc i. 0 \<le> ws ! i' \<and> length (fb_pools c ! i') = nat (ws ! i')"
      using ra w0 i la by (auto simp: pc less_Suc_eq nth_list_update)
    show "J (Suc i) c"
      unfolding J_def using okc la iw nc na cc sm rc by (simp add: pc del: upt_Suc)
  qed
  have "J L b"
    by (rule for_loop_upt_inv[where I = J, OF loop J0]) (rule Jstep, assumption+)
  then have "length (fb_pools b) = L" by (simp add: J_def)
  then have "take L (fb_pools b) = fb_pools b" by simp
  with \<open>J L b\<close> show ?thesis by (simp add: J_def)
qed

lemma LF_ctor_result:
  assumes ctor: "new_LinkFreeDurableSet m numIDs ws alloc = Inr s"
    and va: "valid_alloc alloc (sum_list (map nat (take (nat numIDs) ws)) + 2)"
  shows "concat (LF_preAllocatedNodes s) = map alloc [0..<sum_list (map nat (take (nat numIDs) ws))]
       \<and> LF_head s = alloc (sum_list (map nat (take (nat numIDs) ws)))
       \<and> LF_tail s = alloc (Suc (sum_list (map nat (take (nat numIDs) ws))))
       \<and> LF_heap s (LF_head s) = Some (new_LFNode\<lparr>nnext := LF_tail s, nkey := MIN_KEY\<rparr>)
       \<and> LF_heap s (LF_tail s) = Some (new_LFNode\<lparr>nkey := MAX_KEY\<rparr>)
       \<and> dom (LF_heap s) = alloc ` {..<sum_list (map nat (take (nat numIDs) ws)) + 2}
       \<and> length (LF_preAllocatedNodes s) = nat numIDs
       \<and> length (LF_allocIndices s) = nat numIDs
       \<and> (\<forall>i. i < nat numIDs \<longrightarrow>
             LF_allocIndices s ! i = int (length (LF_preAllocatedNodes s ! i)) - 1)"
proof -
  let ?L = "nat numIDs"
  let ?N = "sum_list (map nat (take ?L ws))"
  from ctor obtain ai mi b where
    l1: "for_loop [0..<?L] (set_indices ws) (replicate ?L 0, replicate ?L 0) = Inr (ai, mi)" and
    l2: "for_loop [0..<?L] (LF_build_section alloc ws)
           \<lparr>fb_heap = Map.empty, fb_pools = replicate ?L [], fb_news = 0\<rparr> = Inr b" and
    s: "s = \<lparr>LF_heap = (fb_heap b)(alloc (fb_news b) \<mapsto> new_LFNode\<lparr>nnext := alloc (fb_news b + 1), nkey := MIN_KEY\<rparr>,
                       alloc (fb_news b + 1) \<mapsto> new_LFNode\<lparr>nkey := MAX_KEY\<rparr>),
             LF_head = alloc (fb_news b), LF_tail = alloc (fb_news b + 1), LF_mem = m,
             LF_preAllocatedNodes = fb_pools b,
             LF_allocIndices = ai, LF_maxIndices = mi,
             LF_keysVolatileRecovered = [], LF_keysDurableRecovered = [],
             LF_numIDs = numIDs\<rparr> \<or> alloc (fb_news b) = alloc (fb_news b + 1)"
    by (auto simp: new_LinkFreeDurableSet_def Let_def split: sum.splits if_splits prod.splits)
  from set_indices_loop[OF l1] have ai: "?L \<le> length ws" "ai = map (\<lambda>w. w - 1) (take ?L ws)" by simp_all
  from LF_build_sections_ok[OF l2 refl] have ok: "LF_build_ok alloc b"
    and lp: "length (fb_pools b) = ?L" and nb: "fb_news b = ?N"
    and cc: "concat (fb_pools b) = map alloc [0..<fb_news b]"
    and rows: "\<forall>i<?L. 0 \<le> ws ! i \<and> length (fb_pools b ! i) = nat (ws ! i)"
    by simp_all
  have upt: "[0..<?N + 2] = [0..<?N] @ [?N, Suc ?N]" by simp
  from va have d: "alloc ?N \<noteq> alloc (Suc ?N)"
    unfolding valid_alloc_def upt by auto
  from ok nb have dm: "dom (fb_heap b) = alloc ` {..<?N}"
    by (simp_all add: LF_build_ok_def)
  from s d nb have s': "s = \<lparr>LF_heap = (fb_heap b)(alloc ?N \<mapsto> new_LFNode\<lparr>nnext := alloc (Suc ?N), nkey := MIN_KEY\<rparr>,
                       alloc (Suc ?N) \<mapsto> new_LFNode\<lparr>nkey := MAX_KEY\<rparr>),
             LF_head = alloc ?N, LF_tail = alloc (Suc ?N), LF_mem = m,
             LF_preAllocatedNodes = fb_pools b,
             LF_allocIndices = ai, LF_maxIndices = mi,
             LF_keysVolatileRecovered = [], LF_keysDurableRecovered = [],
             LF_numIDs = numIDs\<rparr>"
    by simp
  have al: "\<forall>i<?L. ai ! i = int (length (fb_pools b ! i)) - 1"
    using rows ai by (simp add: nth_take)
  have dm': "dom (LF_heap s) = alloc ` {..<?N + 2}"
    using dm by (auto simp: s' lessThan_Suc)
  show ?thesis
    using cc nb d lp ai al dm' by (simp add: s')
qed


section \<open>The list invariant of the Link-Free set\<close>

lemma mark_getNextRef: "(x :: 64 word) AND 1 = 0 \<Longrightarrow> (x OR 1) AND NOT 1 = x"
  by (simp add: bit_eq_iff bit_simps) (metis bit_0 even_iff_mod_2_eq_zero)

lemma chain_unmarked:
  "chain hp p xs 0 \<Longrightarrow> (\<forall>a\<in>set xs. a AND 1 = 0) \<Longrightarrow> a \<in> set xs \<Longrightarrow> hp a = Some n \<Longrightarrow>
     nnext n AND 1 = 0"
proof (induction xs arbitrary: p)
  case Nil
  then show ?case by simp
next
  case (Cons x xs)
  from Cons.prems(1) obtain m where m: "p = x" "hp x = Some m" "chain hp (nnext m) xs 0" by auto
  have nm: "nnext m AND 1 = 0"
  proof (cases xs)
    case Nil
    with m(3) show ?thesis by simp
  next
    case (Cons y ys)
    with m(3) have "nnext m = y" by simp
    with Cons Cons.prems(2) show ?thesis by simp
  qed
  show ?case
  proof (cases "a = x")
    case True
    with m(2) Cons.prems(4) nm show ?thesis by simp
  next
    case False
    with Cons.prems have "a \<in> set xs" "\<forall>a\<in>set xs. a AND 1 = 0" by simp_all
    from Cons.IH[OF m(3) this(2) this(1) Cons.prems(4)] show ?thesis .
  qed
qed

text \<open>The traversals on a chain without marked links: nothing is trimmed.\<close>

lemma LF_find_loop_chain:
  "chain (LF_heap s) p (xs @ c # ys) 0 \<Longrightarrow> (\<forall>a\<in>set (xs @ c # ys). a AND 1 = 0) \<Longrightarrow>
   (\<forall>a\<in>set xs. keyof (LF_heap s) a < k) \<Longrightarrow> k \<le> keyof (LF_heap s) c \<Longrightarrow>
     LF_find_loop s k prev p = Some (Inr (last (prev # xs), c, s))"
proof (induction xs arbitrary: prev p)
  case Nil
  then obtain n where n: "p = c" "LF_heap s c = Some n" by auto
  from chain_unmarked[OF Nil.prems(1,2) _ n(2)] have "\<not> isNextMarked n"
    by (simp add: isNextMarked_def)
  with Nil.prems n show ?case
    by (subst LF_find_loop.simps) (simp add: keyof_def)
next
  case (Cons x xs)
  from Cons.prems obtain n where n: "p = x" "LF_heap s x = Some n"
    "chain (LF_heap s) (nnext n) (xs @ c # ys) 0"
    by auto
  from chain_unmarked[OF Cons.prems(1,2) _ n(2)] have ev: "nnext n AND 1 = 0" by simp
  then have g: "getNextRef n = nnext n" by (rule getNextRef_even)
  from ev have um: "\<not> isNextMarked n" by (simp add: isNextMarked_def)
  from Cons.prems n have lt: "nkey n < k" by (simp add: keyof_def)
  from Cons.prems have ev': "\<forall>a\<in>set (xs @ c # ys). a AND 1 = 0" and
    ks: "\<forall>a\<in>set xs. keyof (LF_heap s) a < k" by simp_all
  from Cons.IH[OF n(3) ev' ks Cons.prems(4), of x] lt n g um
  show ?case by (subst LF_find_loop.simps) simp
qed

lemma LF_find_loop_overrun:
  "chain (LF_heap s) p ns 0 \<Longrightarrow> (\<forall>a\<in>set ns. a AND 1 = 0) \<Longrightarrow>
   (\<forall>a\<in>set ns. keyof (LF_heap s) a < k) \<Longrightarrow> LF_heap s 0 = None \<Longrightarrow>
     LF_find_loop s k prev p = Some (Inl BadDeref)"
proof (induction ns arbitrary: prev p)
  case Nil
  then show ?case by (subst LF_find_loop.simps) simp
next
  case (Cons x xs)
  from Cons.prems obtain n where n: "p = x" "LF_heap s x = Some n" "chain (LF_heap s) (nnext n) xs 0"
    by auto
  from chain_unmarked[OF Cons.prems(1,2) _ n(2)] have ev: "nnext n AND 1 = 0" by simp
  then have g: "getNextRef n = nnext n" by (rule getNextRef_even)
  from ev have um: "\<not> isNextMarked n" by (simp add: isNextMarked_def)
  from Cons.prems n have lt: "nkey n < k" by (simp add: keyof_def)
  from Cons.prems have ev': "\<forall>a\<in>set xs. a AND 1 = 0" and
    ks: "\<forall>a\<in>set xs. keyof (LF_heap s) a < k" by simp_all
  from Cons.IH[OF n(3) ev' ks Cons.prems(4), of x] lt n g um
  show ?case by (subst LF_find_loop.simps) simp
qed

lemma LF_contains_loop_chain:
  "chain hp p (xs @ c # ys) q \<Longrightarrow> (\<forall>a\<in>set (xs @ c # ys). a AND 1 = 0) \<Longrightarrow>
   (\<forall>a\<in>set xs. keyof hp a < k) \<Longrightarrow> k \<le> keyof hp c \<Longrightarrow>
     LF_contains_loop hp k p = Some (Inr c)"
proof (induction xs arbitrary: p)
  case Nil
  then show ?case
    by (subst LF_contains_loop.simps) (auto simp: keyof_def)
next
  case (Cons x xs)
  from Cons.prems obtain n where n: "p = x" "hp x = Some n" "chain hp (nnext n) (xs @ c # ys) q"
    by auto
  from n(3) have "nnext n = hd (xs @ c # ys)" by (cases xs) auto
  with Cons.prems(2) have "nnext n AND 1 = 0" by (cases xs) auto
  then have g: "getNextRef n = nnext n" by (rule getNextRef_even)
  from Cons.prems n have lt: "nkey n < k" by (simp add: keyof_def)
  from Cons.prems have ev: "\<forall>a\<in>set (xs @ c # ys). a AND 1 = 0" and
    ks: "\<forall>a\<in>set xs. keyof hp a < k" by simp_all
  from Cons.IH[OF n(3) ev ks Cons.prems(4)] lt n g
  show ?case by (subst LF_contains_loop.simps) simp
qed

lemma LF_printSet_loop_chain:
  "chain (LF_heap s) p xs 0 \<Longrightarrow> (\<forall>a\<in>set xs. a AND 1 = 0) \<Longrightarrow> 0 \<notin> set xs \<Longrightarrow>
     LF_printSet_loop s prev p printed = Some (Inr (printed @ map (keyof (LF_heap s)) xs, s))"
proof (induction xs arbitrary: prev p printed)
  case Nil
  then show ?case by (subst LF_printSet_loop.simps) simp
next
  case (Cons x xs)
  from Cons.prems obtain n where n: "p = x" "LF_heap s x = Some n"
    "chain (LF_heap s) (nnext n) xs 0" "x \<noteq> 0"
    by auto
  from chain_unmarked[OF Cons.prems(1,2) _ n(2)] have ev: "nnext n AND 1 = 0" by simp
  then have g: "getNextRef n = nnext n" by (rule getNextRef_even)
  from ev have um: "\<not> isNextMarked n" by (simp add: isNextMarked_def)
  from Cons.prems have ev': "\<forall>a\<in>set xs. a AND 1 = 0" and z: "0 \<notin> set xs" by simp_all
  from Cons.IH[OF n(3) ev' z, of x "printed @ [nkey n]"]
  have "LF_printSet_loop s x (nnext n) (printed @ [nkey n])
          = Some (Inr ((printed @ [nkey n]) @ map (keyof (LF_heap s)) xs, s))" .
  with n g um show ?case
    by (subst LF_printSet_loop.simps) (simp add: keyof_def)
qed

text \<open>
  The invariant of the Link-Free set between the operations of one caller: the list, the
  pools, clear low bits of the node addresses, and \<open>P\<close> of every key in the list.
\<close>

definition LF_inv :: "(int \<Rightarrow> bool) \<Rightarrow> 'a LinkFreeDurableSet \<Rightarrow> uintptr list \<Rightarrow> bool" where
  "LF_inv P s ns \<longleftrightarrow>
     list_ok (LF_heap s) (LF_head s) (LF_tail s) ns
   \<and> pool_ok (LF_heap s) (LF_head s # ns) (LF_allocIndices s) (LF_preAllocatedNodes s)
   \<and> (\<forall>a\<in>set (LF_head s # ns) \<union> set (free_nodes (LF_allocIndices s) (LF_preAllocatedNodes s)).
         a AND 1 = 0)
   \<and> (\<forall>a\<in>set (butlast ns). P (keyof (LF_heap s) a))"

lemma LF_inv_frame:
  assumes "LF_inv P s ns" and "links (LF_heap s') = links (LF_heap s)"
    "LF_head s' = LF_head s" "LF_tail s' = LF_tail s"
    "LF_allocIndices s' = LF_allocIndices s" "LF_preAllocatedNodes s' = LF_preAllocatedNodes s"
  shows "LF_inv P s' ns"
proof -
  from assms(2) have "dom (links (LF_heap s)) \<subseteq> dom (links (LF_heap s'))" by simp
  then have dm: "dom (LF_heap s) \<subseteq> dom (LF_heap s')" by (simp add: dom_links)
  from assms(2) have k: "keyof (LF_heap s') = keyof (LF_heap s)"
    by (simp add: fun_eq_iff keyof_links)
  from assms(1) list_ok_links[OF assms(2)] pool_ok_same[OF _ dm subset_refl]
  show ?thesis unfolding LF_inv_def assms(3-6) k by blast
qed

lemma LF_find_inv:
  assumes "LF_inv P s ns"
  shows "(MAX_KEY < k \<longrightarrow> LF_find s k = Some (Inl BadDeref))
       \<and> (k \<le> MAX_KEY \<longrightarrow> (\<exists>xs c ys. ns = xs @ c # ys \<and> (\<forall>a\<in>set xs. keyof (LF_heap s) a < k)
              \<and> k \<le> keyof (LF_heap s) c
              \<and> LF_find s k = Some (Inr (last (LF_head s # xs), c, s))))"
proof -
  from assms have ok: "list_ok (LF_heap s) (LF_head s) (LF_tail s) ns"
    and ev: "\<forall>a\<in>set ns. a AND 1 = 0" by (simp_all add: LF_inv_def)
  then obtain hn where hn: "LF_heap s (LF_head s) = Some hn" "chain (LF_heap s) (nnext hn) ns 0"
    by (auto simp: list_ok_def)
  from ok have z: "LF_heap s 0 = None" by (simp add: list_ok_def)
  show ?thesis
  proof (intro conjI impI)
    assume "MAX_KEY < k"
    from LF_find_loop_overrun[OF hn(2) ev list_ok_above[OF ok this] z] hn(1)
    show "LF_find s k = Some (Inl BadDeref)" by (simp add: LF_find_def)
  next
    assume "k \<le> MAX_KEY"
    from list_ok_split[OF ok this] obtain xs c ys where
      d: "ns = xs @ c # ys" "\<forall>a\<in>set xs. keyof (LF_heap s) a < k" "k \<le> keyof (LF_heap s) c" by blast
    from hn(2) d(1) have ch: "chain (LF_heap s) (nnext hn) (xs @ c # ys) 0" by simp
    from ev d(1) have ev': "\<forall>a\<in>set (xs @ c # ys). a AND 1 = 0" by simp
    from LF_find_loop_chain[OF ch ev' d(2,3)] hn(1)
    have "LF_find s k = Some (Inr (last (LF_head s # xs), c, s))" by (simp add: LF_find_def)
    with d show "\<exists>xs c ys. ns = xs @ c # ys \<and> (\<forall>a\<in>set xs. keyof (LF_heap s) a < k)
              \<and> k \<le> keyof (LF_heap s) c
              \<and> LF_find s k = Some (Inr (last (LF_head s # xs), c, s))"
      by blast
  qed
qed

lemma LF_printSet_inv:
  assumes inv: "LF_inv P s ns"
  shows "LF_printSet s = Some (Inr (MIN_KEY # map (keyof (LF_heap s)) ns, s))"
proof -
  from inv have ok: "list_ok (LF_heap s) (LF_head s) (LF_tail s) ns"
    and ev: "\<forall>a\<in>set ns. a AND 1 = 0" by (simp_all add: LF_inv_def)
  from ok obtain hn where hn: "LF_heap s (LF_head s) = Some hn" "chain (LF_heap s) (nnext hn) ns 0"
    "nkey hn = MIN_KEY"
    by (auto simp: list_ok_def keyof_def)
  from chain_dom[OF hn(2)] ok have "0 \<notin> set ns" by (auto simp: list_ok_def)
  from LF_printSet_loop_chain[OF hn(2) ev this, of "LF_head s" "[nkey hn]"] hn(1,3)
  show ?thesis by (simp add: LF_printSet_def)
qed

lemma links_upd_same:
  "hp p = Some n \<Longrightarrow> nkey n' = nkey n \<Longrightarrow> nnext n' = nnext n \<Longrightarrow> links (hp(p \<mapsto> n')) = links hp"
  by (auto simp: links_def fun_eq_iff)

lemma links_makeValid: "store hp p makeValid = Inr hp' \<Longrightarrow> links hp' = links hp"
  by (auto simp: makeValid_def links_upd_same dest!: store_Inr)

lemma LF_FLUSH_INSERT_links: "LF_FLUSH_INSERT hp p m = Inr (hp', m') \<Longrightarrow> links hp' = links hp"
  by (auto simp: LF_FLUSH_INSERT_def deref_def links_upd_same split: option.splits sum.splits if_splits)

lemma LF_FLUSH_DELETE_links: "LF_FLUSH_DELETE hp p m = Inr (hp', m') \<Longrightarrow> links hp' = links hp"
  by (auto simp: LF_FLUSH_DELETE_def deref_def links_upd_same split: option.splits sum.splits if_splits)

lemma LF_allocFromArea_null:
  "LF_allocFromArea s ident = Inr (0, s1) \<Longrightarrow> LF_heap s 0 = None \<Longrightarrow> s1 = s"
  by (auto simp: LF_allocFromArea_def store_def split: sum.splits if_splits option.splits)

lemma LF_allocFromArea_Inr:
  assumes "LF_allocFromArea s ident = Inr (nn, s1)" and "nn \<noteq> 0"
  shows "\<exists>row a. at (LF_preAllocatedNodes s) ident = Inr row \<and> at (LF_allocIndices s) ident = Inr a
           \<and> at row a = Inr nn \<and> LF_heap s nn \<noteq> None
           \<and> links (LF_heap s1) = links (LF_heap s)
           \<and> LF_head s1 = LF_head s \<and> LF_tail s1 = LF_tail s
           \<and> LF_preAllocatedNodes s1 = LF_preAllocatedNodes s
           \<and> LF_allocIndices s1 = LF_allocIndices s"
  using assms
  by (auto simp: LF_allocFromArea_def links_upd_same split: sum.splits if_splits dest!: store_Inr)

lemma LF_insert_link_Inr:
  assumes lk: "LF_insert_link s k it ident prev c nn = Inr (r, s')"
    and pn: "LF_heap s prev = Some pn" "nnext pn = c" and np: "nn \<noteq> prev"
  shows "r = Some True
       \<and> (\<exists>a. at (LF_allocIndices s) ident = Inr a
               \<and> LF_allocIndices s' = (LF_allocIndices s)[nat ident := a - 1])
       \<and> links (LF_heap s') = (links (LF_heap s))(nn \<mapsto> (k, c), prev \<mapsto> (nkey pn, nn))
       \<and> LF_head s' = LF_head s \<and> LF_tail s' = LF_tail s
       \<and> LF_preAllocatedNodes s' = LF_preAllocatedNodes s"
proof -
  from lk obtain h2 where h2: "store (LF_heap s) nn
       (\<lambda>n. (flipV1 n)\<lparr>nkey := k, nitem := it, nnext := c\<rparr>) = Inr h2"
    by (auto simp: LF_insert_link_def split: sum.splits)
  from store_Inr[OF h2] obtain n0 where n0: "LF_heap s nn = Some n0"
    "h2 = (LF_heap s)(nn \<mapsto> (flipV1 n0)\<lparr>nkey := k, nitem := it, nnext := c\<rparr>)" by blast
  from n0(2) np pn have p2: "deref h2 prev = Inr pn" by (simp add: deref_def)
  let ?h3 = "h2(prev \<mapsto> pn\<lparr>nnext := nn\<rparr>)"
  from lk h2 p2 pn(2) obtain s4 h5 h6 m6 where
    ua: "LF_updateAlloc (s\<lparr>LF_heap := ?h3\<rparr>) ident = Inr s4" and
    mv: "store (LF_heap s4) nn makeValid = Inr h5" and
    fl: "LF_FLUSH_INSERT h5 nn (LF_mem s4) = Inr (h6, m6)" and
    r: "r = Some True" and s': "s' = s4\<lparr>LF_heap := h6, LF_mem := m6\<rparr>"
    by (auto simp: LF_insert_link_def split: sum.splits)
  from ua obtain a m where a: "at (LF_allocIndices s) ident = Inr a"
    and s4: "s4 = s\<lparr>LF_heap := ?h3, LF_allocIndices := (LF_allocIndices s)[nat ident := a - 1], LF_mem := m\<rparr>"
    by (auto simp: LF_updateAlloc_def split: sum.splits)
  from links_makeValid[OF mv] LF_FLUSH_INSERT_links[OF fl]
  have "links h6 = links ?h3" by (simp add: s4)
  also have "\<dots> = (links (LF_heap s))(nn \<mapsto> (k, c), prev \<mapsto> (nkey pn, nn))"
    by (simp add: links_upd n0(2) flipV1_def)
  finally have l: "links h6 = (links (LF_heap s))(nn \<mapsto> (k, c), prev \<mapsto> (nkey pn, nn))" .
  from r a l show ?thesis by (auto simp: s' s4)
qed

lemma keyof_insert_links:
  assumes "links hp' = (links hp)(nn \<mapsto> (k, c), p \<mapsto> (keyof hp p, nn))" and "nn \<noteq> p"
  shows "keyof hp' a = (if a = nn then k else keyof hp a)"
  using assms by (simp add: keyof_links)

lemma keyof_remove_links:
  assumes "links hp' = (links hp)(c \<mapsto> (keyof hp c, x), p \<mapsto> (keyof hp p, y))"
  shows "keyof hp' = keyof hp"
  using assms by (auto simp: keyof_links fun_eq_iff)

lemma butlast_insert_mid:
  "set (butlast (xs @ nn # c # ys)) = insert nn (set (butlast (xs @ c # ys)))"
  by (auto simp: butlast_append)

lemma butlast_remove_mid:
  "ys \<noteq> [] \<Longrightarrow> set (butlast (xs @ ys)) \<subseteq> set (butlast (xs @ c # ys))"
  by (auto simp: butlast_append)

lemma LF_insert_at_inv:
  assumes inv: "LF_inv P s ns" and d: "ns = xs @ c # ys"
    "\<forall>a\<in>set xs. keyof (LF_heap s) a < k" "k \<le> keyof (LF_heap s) c"
    and lk: "LF_insert_at s k it ident (last (LF_head s # xs)) c = Inr (r, s')"
    and pk: "P k"
  shows "r \<noteq> None \<and> (\<exists>ns'. LF_inv P s' ns')"
proof -
  let ?hp = "LF_heap s" and ?h = "LF_head s"
  define prev where "prev = last (?h # xs)"
  from inv have ok: "list_ok ?hp ?h (LF_tail s) ns"
    and pl: "pool_ok ?hp (?h # ns) (LF_allocIndices s) (LF_preAllocatedNodes s)"
    and ev: "\<forall>a\<in>set (?h # ns) \<union> set (free_nodes (LF_allocIndices s) (LF_preAllocatedNodes s)).
               a AND 1 = 0"
    and pb: "\<forall>a\<in>set (butlast ns). P (keyof ?hp a)"
    by (simp_all add: LF_inv_def)
  from ok have z: "?hp 0 = None" and ch: "chain ?hp ?h (?h # ns) 0" by (simp_all add: list_ok_def)
  obtain pre where pre: "?h # xs = pre @ [prev]"
    unfolding prev_def by (metis append_butlast_last_id list.distinct(1))
  from ch have "chain ?hp ?h ((?h # xs) @ c # ys) 0" by (simp add: d(1))
  then have "chain ?hp ?h (pre @ prev # c # ys) 0" by (simp add: pre)
  then obtain pn cn where pn: "?hp prev = Some pn" "nnext pn = c" and cn: "?hp c = Some cn"
    by (auto simp: chain_split_at)
  have prev_in: "prev \<in> set (?h # ns)" unfolding prev_def d(1)
    by (cases xs rule: rev_cases) auto
  from lk have lk': "LF_insert_at s k it ident prev c = Inr (r, s')" by (simp only: prev_def)
  show ?thesis
  proof (cases "nkey cn = k")
    case True
    with lk' cn obtain h1 h2 m2 where
      a: "store ?hp c makeValid = Inr h1" "LF_FLUSH_INSERT h1 c (LF_mem s) = Inr (h2, m2)"
      and r: "r = Some False" and s': "s' = s\<lparr>LF_heap := h2, LF_mem := m2\<rparr>"
      by (auto simp: LF_insert_at_def deref_def split: sum.splits)
    from links_makeValid[OF a(1)] LF_FLUSH_INSERT_links[OF a(2)]
    have "links (LF_heap s') = links ?hp" by (simp add: s')
    then have "LF_inv P s' ns" by (intro LF_inv_frame[OF inv]) (simp_all add: s')
    with r show ?thesis by blast
  next
    case False
    with lk' cn obtain nn s1 where al: "LF_allocFromArea s ident = Inr (nn, s1)"
      and rest: "(if nn = 0 then Inr (Some False, s1)
                  else LF_insert_link s1 k it ident prev c nn) = Inr (r, s')"
      by (auto simp: LF_insert_at_def deref_def split: sum.splits)
    show ?thesis
    proof (cases "nn = 0")
      case True
      with rest LF_allocFromArea_null[OF _ z] al have "r = Some False" "s' = s" by auto
      with inv show ?thesis by blast
    next
      case nz: False
      from LF_allocFromArea_Inr[OF al nz] obtain row a where
        at: "at (LF_preAllocatedNodes s) ident = Inr row" "at (LF_allocIndices s) ident = Inr a"
            "at row a = Inr nn" and
        nn: "?hp nn \<noteq> None" and l1: "links (LF_heap s1) = links ?hp" and
        f1: "LF_head s1 = ?h" "LF_tail s1 = LF_tail s"
            "LF_preAllocatedNodes s1 = LF_preAllocatedNodes s"
            "LF_allocIndices s1 = LF_allocIndices s"
        by blast
      let ?ns' = "xs @ nn # c # ys"
      have us: "set (?h # ?ns') \<subseteq> set (?h # ns) \<union> {nn}" using d(1) by auto
      from pool_ok_consume[OF pl at subset_refl us] have fresh: "nn \<notin> set (?h # ns)" by simp
      with prev_in have np: "nn \<noteq> prev" by auto
      from l1 pn obtain pn1 where pn1: "LF_heap s1 prev = Some pn1" "nnext pn1 = c" "nkey pn1 = nkey pn"
        by (metis links_Some)
      from rest nz have lk1: "LF_insert_link s1 k it ident prev c nn = Inr (r, s')" by simp
      from LF_insert_link_Inr[OF lk1 pn1(1,2) np] obtain a' where
        r: "r = Some True" and
        a': "at (LF_allocIndices s1) ident = Inr a'"
            "LF_allocIndices s' = (LF_allocIndices s1)[nat ident := a' - 1]" and
        l': "links (LF_heap s') = (links (LF_heap s1))(nn \<mapsto> (k, c), prev \<mapsto> (nkey pn1, nn))" and
        f: "LF_head s' = LF_head s1" "LF_tail s' = LF_tail s1"
           "LF_preAllocatedNodes s' = LF_preAllocatedNodes s1"
        by blast
      from a' at(2) f1 have ai: "LF_allocIndices s' = (LF_allocIndices s)[nat ident := a - 1]"
        by simp
      have kp: "nkey pn = keyof ?hp prev" using pn by (simp add: keyof_def)
      from l' l1 pn1(3) kp have l: "links (LF_heap s') =
          (links ?hp)(nn \<mapsto> (k, c), last (?h # xs) \<mapsto> (keyof ?hp (last (?h # xs)), nn))"
        by (simp add: prev_def)
      then have "dom (links ?hp) \<subseteq> dom (links (LF_heap s'))" by auto
      then have dm: "dom ?hp \<subseteq> dom (LF_heap s')" by (simp add: dom_links)
      from pool_ok_consume[OF pl at dm us]
      have pl': "pool_ok (LF_heap s') (?h # ?ns') ((LF_allocIndices s)[nat ident := a - 1])
                   (LF_preAllocatedNodes s)" by simp
      from cn False have ne: "keyof ?hp c \<noteq> k" by (simp add: keyof_def)
      with d(3) have lt: "k < keyof ?hp c" by simp
      from list_insert_step[OF ok d(1) d(2) lt fresh nn l]
      have ok': "list_ok (LF_heap s') ?h (LF_tail s) ?ns'" .
      from pool_ok_consume_set[OF pl at] have
        fr: "nn \<in> set (free_nodes (LF_allocIndices s) (LF_preAllocatedNodes s))"
            "set (free_nodes ((LF_allocIndices s)[nat ident := a - 1]) (LF_preAllocatedNodes s))
               \<subseteq> set (free_nodes (LF_allocIndices s) (LF_preAllocatedNodes s))"
        by simp_all
      have ev': "\<forall>a\<in>set (?h # ?ns') \<union>
                   set (free_nodes ((LF_allocIndices s)[nat ident := a - 1]) (LF_preAllocatedNodes s)).
                 a AND 1 = 0"
        using ev fr us by blast
      from np have np': "nn \<noteq> last (?h # xs)" by (simp add: prev_def)
      note ko = keyof_insert_links[OF l np']
      have pb': "\<forall>a\<in>set (butlast ?ns'). P (keyof (LF_heap s') a)"
        unfolding butlast_insert_mid using pb pk d(1) by (auto simp: ko)
      from ok' pl' ev' pb' have "LF_inv P s' ?ns'" by (simp add: LF_inv_def f f1 ai)
      with r show ?thesis by blast
    qed
  qed
qed

lemma LF_insert_attempt_inv:
  assumes inv: "LF_inv P s ns" and att: "LF_insert_attempt s k it ident = Some (Inr (r, s'))"
    and pk: "P k"
  shows "r \<noteq> None \<and> (\<exists>ns'. LF_inv P s' ns')"
proof -
  from LF_find_inv[OF inv, of k] att have le: "k \<le> MAX_KEY"
    by (cases "k \<le> MAX_KEY") (auto simp: LF_insert_attempt_def)
  with LF_find_inv[OF inv, of k] obtain xs c ys where
    d: "ns = xs @ c # ys" "\<forall>a\<in>set xs. keyof (LF_heap s) a < k" "k \<le> keyof (LF_heap s) c"
       "LF_find s k = Some (Inr (last (LF_head s # xs), c, s))" by blast
  from att d(4) have lk: "LF_insert_at s k it ident (last (LF_head s # xs)) c = Inr (r, s')"
    by (simp add: LF_insert_attempt_def)
  from LF_insert_at_inv[OF inv d(1-3) lk pk] show ?thesis .
qed

lemma LF_insert_inv:
  assumes "LF_insert s k it ident = Some (Inr (b, s'))" and "\<exists>ns. LF_inv P s ns" and "P k"
  shows "\<exists>ns'. LF_inv P s' ns'"
proof -
  from assms(2) obtain ns where inv: "LF_inv P s ns" by blast
  from assms(1) obtain r s1 where att: "LF_insert_attempt s k it ident = Some (Inr (r, s1))"
    and rest: "(case r of None \<Rightarrow> LF_insert s1 k it ident | Some b \<Rightarrow> Some (Inr (b, s1)))
                 = Some (Inr (b, s'))"
    by (subst (asm) LF_insert.simps) (auto split: option.splits sum.splits prod.splits)
  from LF_insert_attempt_inv[OF inv att assms(3)] obtain b' where "r = Some b'"
    and inv1: "\<exists>ns'. LF_inv P s1 ns'" by auto
  with rest show ?thesis by simp
qed

text \<open>\<open>remove\<close>: the two exchanges succeed, and the node is unlinked.\<close>

lemma LF_trim_Inr:
  assumes tr: "LF_trim s prev c = Inr (b, s')"
    and pn: "LF_heap s prev = Some pn" "nnext pn = c" and np: "prev \<noteq> c"
    and cn: "LF_heap s c = Some cn"
  shows "links (LF_heap s') = (links (LF_heap s))(prev \<mapsto> (nkey pn, getNextRef cn))
       \<and> LF_head s' = LF_head s \<and> LF_tail s' = LF_tail s
       \<and> LF_preAllocatedNodes s' = LF_preAllocatedNodes s
       \<and> LF_allocIndices s' = LF_allocIndices s"
proof -
  from tr obtain h1 m1 where fl: "LF_FLUSH_DELETE (LF_heap s) c (LF_mem s) = Inr (h1, m1)"
    by (auto simp: LF_trim_def split: sum.splits)
  from fl cn np pn(1) have h1: "h1 prev = Some pn" "\<exists>cn'. h1 c = Some cn' \<and> nnext cn' = nnext cn"
    by (auto simp: LF_FLUSH_DELETE_def deref_def split: sum.splits if_splits)
  then obtain cn' where cn': "h1 c = Some cn'" "nnext cn' = nnext cn" by blast
  from tr fl h1(1) cn' pn(2) have
    s': "s' = s\<lparr>LF_heap := h1(prev \<mapsto> pn\<lparr>nnext := getNextRef cn'\<rparr>), LF_mem := m1\<rparr>"
    by (auto simp: LF_trim_def deref_def Let_def)
  from cn'(2) have g: "getNextRef cn' = getNextRef cn" by (simp add: getNextRef_def)
  from LF_FLUSH_DELETE_links[OF fl] show ?thesis
    by (simp add: s' links_upd g)
qed

lemma LF_remove_at_inv:
  assumes inv: "LF_inv P s ns" and d: "ns = xs @ c # ys"
    and lk: "LF_remove_at s k (last (LF_head s # xs)) c = Inr (r, s')"
  shows "r \<noteq> None \<and> (\<exists>ns'. LF_inv P s' ns')"
proof -
  let ?hp = "LF_heap s" and ?h = "LF_head s"
  define prev where "prev = last (?h # xs)"
  from inv have ok: "list_ok ?hp ?h (LF_tail s) ns"
    and pl: "pool_ok ?hp (?h # ns) (LF_allocIndices s) (LF_preAllocatedNodes s)"
    and ev: "\<forall>a\<in>set (?h # ns) \<union> set (free_nodes (LF_allocIndices s) (LF_preAllocatedNodes s)).
               a AND 1 = 0"
    and pb: "\<forall>a\<in>set (butlast ns). P (keyof ?hp a)"
    by (simp_all add: LF_inv_def)
  from ok have z: "?hp 0 = None" and ch: "chain ?hp ?h (?h # ns) 0"
    and dist: "distinct (?h # ns)" by (simp_all add: list_ok_def)
  obtain pre where pre: "?h # xs = pre @ [prev]"
    unfolding prev_def by (metis append_butlast_last_id list.distinct(1))
  from ch have "chain ?hp ?h ((?h # xs) @ c # ys) 0" by (simp add: d(1))
  then have "chain ?hp ?h (pre @ prev # c # ys) 0" by (simp add: pre)
  then obtain pn cn where pn: "?hp prev = Some pn" "nnext pn = c" and cn: "?hp c = Some cn"
    by (auto simp: chain_split_at)
  from dist have "distinct ((?h # xs) @ c # ys)" by (simp add: d(1))
  then have "distinct (pre @ prev # c # ys)" by (simp add: pre)
  then have np: "prev \<noteq> c" by auto
  from ev have evs: "\<forall>a\<in>set (?h # ns). a AND 1 = 0" by blast
  have "c \<in> set (?h # ns)" by (simp add: d(1))
  from chain_unmarked[OF ch evs this cn] have ce: "nnext cn AND 1 = 0" .
  then have g: "getNextRef cn = nnext cn" by (rule getNextRef_even)
  from lk have lk': "LF_remove_at s k prev c = Inr (r, s')" by (simp only: prev_def)
  show ?thesis
  proof (cases "nkey cn = k")
    case False
    with lk' cn have "r = Some False" "s' = s"
      by (auto simp: LF_remove_at_def deref_def)
    with inv show ?thesis by blast
  next
    case True
    from lk' cn True g obtain sn h1 where
      sc: "?hp (nnext cn) = Some sn" and mv: "store ?hp c makeValid = Inr h1"
      by (auto simp: LF_remove_at_def deref_def Let_def split: sum.splits option.splits)
    from store_Inr[OF mv] cn have h1: "h1 = ?hp(c \<mapsto> makeValid cn)" by auto
    from h1 have c1: "deref h1 c = Inr (makeValid cn)" "nnext (makeValid cn) = nnext cn"
      by (simp_all add: deref_def makeValid_def)
    let ?h2 = "h1(c \<mapsto> (makeValid cn)\<lparr>nnext := mark (nnext cn)\<rparr>)"
    from lk' cn True g sc mv c1 obtain b s2 where
      tr: "LF_trim (s\<lparr>LF_heap := ?h2\<rparr>) prev c = Inr (b, s2)" and r: "r = Some True" and s': "s' = s2"
      by (auto simp: LF_remove_at_def deref_def Let_def split: sum.splits)
    have p2: "LF_heap (s\<lparr>LF_heap := ?h2\<rparr>) prev = Some pn" using pn np by (simp add: h1)
    have c2: "LF_heap (s\<lparr>LF_heap := ?h2\<rparr>) c = Some ((makeValid cn)\<lparr>nnext := mark (nnext cn)\<rparr>)"
      by simp
    have gm: "getNextRef ((makeValid cn)\<lparr>nnext := mark (nnext cn)\<rparr>) = nnext cn"
      using mark_getNextRef[OF ce] by (simp add: getNextRef_def mark_def)
    from LF_trim_Inr[OF tr p2 pn(2) np c2] have
      l2: "links (LF_heap s') = (links ?h2)(prev \<mapsto> (nkey pn, nnext cn))" and
      f: "LF_head s' = ?h" "LF_tail s' = LF_tail s"
         "LF_preAllocatedNodes s' = LF_preAllocatedNodes s"
         "LF_allocIndices s' = LF_allocIndices s"
      by (simp_all add: s' gm)
    have "links ?h2 = (links ?hp)(c \<mapsto> (nkey cn, mark (nnext cn)))"
      by (simp add: h1 links_upd makeValid_def)
    with l2 have l': "links (LF_heap s') = (links ?hp)(c \<mapsto> (nkey cn, mark (nnext cn)),
                                                       prev \<mapsto> (nkey pn, nnext cn))" by simp
    have kp: "nkey pn = keyof ?hp prev" using pn by (simp add: keyof_def)
    have kc: "nkey cn = keyof ?hp c" using cn by (simp add: keyof_def)
    from l' kp have l: "links (LF_heap s') =
        (links ?hp)(c \<mapsto> (nkey cn, mark (nnext cn)),
                    last (?h # xs) \<mapsto> (keyof ?hp (last (?h # xs)), nnext cn))"
      by (simp add: prev_def)
    from sc have sc': "?hp (nnext cn) \<noteq> None" by simp
    from list_remove_step[OF ok d(1) cn sc' l]
    have ok': "list_ok (LF_heap s') ?h (LF_tail s) (xs @ ys)" and ys: "ys \<noteq> []" by simp_all
    from l' have "dom (links ?hp) \<subseteq> dom (links (LF_heap s'))" by auto
    then have dm: "dom ?hp \<subseteq> dom (LF_heap s')" by (simp add: dom_links)
    have us: "set (?h # xs @ ys) \<subseteq> set (?h # ns)" using d(1) by auto
    have ev': "\<forall>a\<in>set (?h # xs @ ys) \<union>
                 set (free_nodes (LF_allocIndices s) (LF_preAllocatedNodes s)). a AND 1 = 0"
      using ev us by blast
    from l' kp kc have "links (LF_heap s') = (links ?hp)(c \<mapsto> (keyof ?hp c, mark (nnext cn)),
                                                       prev \<mapsto> (keyof ?hp prev, nnext cn))" by simp
    from keyof_remove_links[OF this] have ko: "keyof (LF_heap s') = keyof ?hp" .
    have pb': "\<forall>a\<in>set (butlast (xs @ ys)). P (keyof (LF_heap s') a)"
      using pb butlast_remove_mid[OF ys, of xs c] d(1) by (auto simp: ko)
    from pool_ok_same[OF pl dm us] ok' ev' pb'
    have "LF_inv P s' (xs @ ys)" by (simp add: LF_inv_def f)
    with r show ?thesis by blast
  qed
qed

lemma LF_remove_attempt_inv:
  assumes inv: "LF_inv P s ns" and att: "LF_remove_attempt s k = Some (Inr (r, s'))"
  shows "r \<noteq> None \<and> (\<exists>ns'. LF_inv P s' ns')"
proof -
  from LF_find_inv[OF inv, of k] att have le: "k \<le> MAX_KEY"
    by (cases "k \<le> MAX_KEY") (auto simp: LF_remove_attempt_def)
  with LF_find_inv[OF inv, of k] obtain xs c ys where
    d: "ns = xs @ c # ys" "\<forall>a\<in>set xs. keyof (LF_heap s) a < k" "k \<le> keyof (LF_heap s) c"
       "LF_find s k = Some (Inr (last (LF_head s # xs), c, s))" by blast
  from att d(4) have lk: "LF_remove_at s k (last (LF_head s # xs)) c = Inr (r, s')"
    by (simp add: LF_remove_attempt_def)
  from LF_remove_at_inv[OF inv d(1) lk] show ?thesis .
qed

lemma LF_remove_inv:
  assumes "LF_remove s k = Some (Inr (b, s'))" and "\<exists>ns. LF_inv P s ns"
  shows "\<exists>ns'. LF_inv P s' ns'"
proof -
  from assms(2) obtain ns where inv: "LF_inv P s ns" by blast
  from assms(1) obtain r s1 where att: "LF_remove_attempt s k = Some (Inr (r, s1))"
    and rest: "(case r of None \<Rightarrow> LF_remove s1 k | Some b \<Rightarrow> Some (Inr (b, s1)))
                 = Some (Inr (b, s'))"
    by (subst (asm) LF_remove.simps) (auto split: option.splits sum.splits prod.splits)
  from LF_remove_attempt_inv[OF inv att] obtain b' where "r = Some b'"
    and inv1: "\<exists>ns'. LF_inv P s1 ns'" by auto
  with rest show ?thesis by simp
qed

text \<open>\<open>contains\<close> writes validity bits and flags only.\<close>

lemma LF_contains_inv:
  assumes "LF_contains s k = Some (Inr (b, s'))" and "\<exists>ns. LF_inv P s ns"
  shows "\<exists>ns'. LF_inv P s' ns'"
proof -
  from assms(2) obtain ns where inv: "LF_inv P s ns" by blast
  from assms(1) have "links (LF_heap s') = links (LF_heap s) \<and> LF_head s' = LF_head s
      \<and> LF_tail s' = LF_tail s \<and> LF_allocIndices s' = LF_allocIndices s
      \<and> LF_preAllocatedNodes s' = LF_preAllocatedNodes s"
    by (auto simp: LF_contains_def split: option.splits sum.splits if_splits
             dest!: links_makeValid LF_FLUSH_INSERT_links LF_FLUSH_DELETE_links)
  then have "LF_inv P s' ns" by (intro LF_inv_frame[OF inv]) simp_all
  then show ?thesis by blast
qed

text \<open>The constructor establishes the invariant.\<close>

lemma LF_fresh_inv:
  assumes new: "new_LinkFreeDurableSet m numIDs ws alloc = Inr s"
    and va: "valid_alloc alloc (sum_list (map nat (take (nat numIDs) ws)) + 2)"
  shows "LF_inv P s [LF_tail s]"
proof -
  define N where "N = sum_list (map nat (take (nat numIDs) ws))"
  from LF_ctor_result[OF new va] have
    cc: "concat (LF_preAllocatedNodes s) = map alloc [0..<N]" and
    h: "LF_head s = alloc N" and t: "LF_tail s = alloc (Suc N)" and
    hh: "LF_heap s (LF_head s) = Some (new_LFNode\<lparr>nnext := LF_tail s, nkey := MIN_KEY\<rparr>)" and
    ht: "LF_heap s (LF_tail s) = Some (new_LFNode\<lparr>nkey := MAX_KEY\<rparr>)" and
    dm: "dom (LF_heap s) = alloc ` {..<N + 2}" and
    lp: "length (LF_preAllocatedNodes s) = nat numIDs" and
    la: "length (LF_allocIndices s) = nat numIDs" and
    ai: "\<forall>i. i < nat numIDs \<longrightarrow> LF_allocIndices s ! i = int (length (LF_preAllocatedNodes s ! i)) - 1"
    unfolding N_def by blast+
  have upt: "[0..<N + 2] = [0..<N] @ [N, Suc N]" by simp
  from va have d: "distinct (map alloc [0..<N])" "alloc N \<notin> set (map alloc [0..<N])"
    "alloc (Suc N) \<notin> set (map alloc [0..<N])" "alloc N \<noteq> alloc (Suc N)"
    unfolding valid_alloc_def N_def[symmetric] upt by auto
  from va have nz: "\<forall>i<N + 2. alloc i \<noteq> 0" and evn: "\<forall>i<N + 2. alloc i AND 1 = 0"
    unfolding valid_alloc_def N_def[symmetric] by (auto simp: less_Suc_eq)
  from nz have "0 \<notin> alloc ` {..<N + 2}" by (metis imageE lessThan_iff)
  with dm have "0 \<notin> dom (LF_heap s)" by simp
  then have z: "LF_heap s 0 = None" by blast
  have ok: "list_ok (LF_heap s) (LF_head s) (LF_tail s) [LF_tail s]"
    unfolding list_ok_def using hh ht z d(4) h t
    by (simp add: keyof_def new_LFNode_def)
  from free_nodes_full[of "LF_allocIndices s" "LF_preAllocatedNodes s"] la lp ai
  have fr: "free_nodes (LF_allocIndices s) (LF_preAllocatedNodes s) = map alloc [0..<N]"
    by (simp add: cc)
  have sub: "set (map alloc [0..<N]) \<subseteq> dom (LF_heap s)" unfolding dm by auto
  have pl: "pool_ok (LF_heap s) [LF_head s, LF_tail s] (LF_allocIndices s) (LF_preAllocatedNodes s)"
    unfolding pool_ok_def fr using la lp ai d sub h t by auto
  have ev: "\<forall>a\<in>set [LF_head s, LF_tail s] \<union> set (map alloc [0..<N]). a AND 1 = 0"
    using evn h t by auto
  from ok pl ev show ?thesis by (simp add: LF_inv_def fr)
qed

text \<open>
  The states of the Link-Free set reached from the constructor by inserts of keys that
  satisfy \<open>P\<close>, removes and \<open>contains\<close> calls of one caller at a time that return.
\<close>

inductive LF_reachable :: "(int \<Rightarrow> bool) \<Rightarrow> ('a :: zero) LinkFreeDurableSet \<Rightarrow> bool"
  for P :: "int \<Rightarrow> bool" where
  fresh: "new_LinkFreeDurableSet m numIDs ws alloc = Inr s \<Longrightarrow>
          valid_alloc alloc (sum_list (map nat (take (nat numIDs) ws)) + 2) \<Longrightarrow> LF_reachable P s"
| after_insert: "LF_reachable P s \<Longrightarrow> P k \<Longrightarrow> LF_insert s k it ident = Some (Inr (b, s')) \<Longrightarrow>
          LF_reachable P s'"
| after_remove: "LF_reachable P s \<Longrightarrow> LF_remove s k = Some (Inr (b, s')) \<Longrightarrow> LF_reachable P s'"
| after_contains: "LF_reachable P s \<Longrightarrow> LF_contains s k = Some (Inr (b, s')) \<Longrightarrow> LF_reachable P s'"

lemma LF_reachable_inv: "LF_reachable P s \<Longrightarrow> \<exists>ns. LF_inv P s ns"
proof (induction rule: LF_reachable.induct)
  case (fresh m numIDs ws alloc s)
  from LF_fresh_inv[OF this] show ?case by blast
next
  case (after_insert s k it ident b s')
  from LF_insert_inv[OF after_insert(3) after_insert(4) after_insert(2)] show ?case .
next
  case (after_remove s k b s')
  from LF_remove_inv[OF after_remove(2) after_remove(3)] show ?case .
next
  case (after_contains s k b s')
  from LF_contains_inv[OF after_contains(2) after_contains(3)] show ?case .
qed

lemma LF_printSet_sorted:
  assumes "LF_reachable (\<lambda>k. MIN_KEY < k) s"
  shows "\<exists>ks. LF_printSet s = Some (Inr (ks, s)) \<and> sorted_wrt (<) ks
             \<and> hd ks = MIN_KEY \<and> last ks = MAX_KEY"
proof -
  from LF_reachable_inv[OF assms] obtain ns where inv: "LF_inv (\<lambda>k. MIN_KEY < k) s ns" by blast
  let ?ks = "map (keyof (LF_heap s)) ns"
  from inv have ne: "ns \<noteq> []" and lst: "keyof (LF_heap s) (last ns) = MAX_KEY"
    and srt: "sorted_wrt (<) ?ks" and lo: "\<forall>a\<in>set (butlast ns). MIN_KEY < keyof (LF_heap s) a"
    by (simp_all add: LF_inv_def list_ok_def)
  have "\<forall>a\<in>set ns. MIN_KEY < keyof (LF_heap s) a"
  proof
    fix a assume "a \<in> set ns"
    with ne have "a \<in> set (butlast ns) \<or> a = last ns"
      by (metis append_butlast_last_id in_set_conv_decomp_first rotate1.simps(2) set_ConsD set_rotate1)
    with lo lst show "MIN_KEY < keyof (LF_heap s) a" by (auto simp: MIN_KEY_def MAX_KEY_def)
  qed
  with srt have "sorted_wrt (<) (MIN_KEY # ?ks)" by simp
  moreover have "last (MIN_KEY # ?ks) = MAX_KEY" using ne lst by (simp add: last_map)
  ultimately show ?thesis using LF_printSet_inv[OF inv] by simp
qed


section \<open>Sorted traversal\<close>

text \<open>
  Claim C6 (counterexample). Every insert is said to preserve the strictly ascending
  order of the keys met from head to tail. On a fresh Sequential set \<open>insert(MIN_KEY, 7)\<close>
  returns true and links the new node behind head: the traversal yields
  \<open>MIN_KEY, MIN_KEY, MAX_KEY\<close>.
\<close>

theorem Seq_insert_MIN_KEY_unsorted:
  "(case new_MemoryManager 1 1 of
      Inl e \<Rightarrow> False
    | Inr m \<Rightarrow>
       (case new_SequentialDurableSet (m :: int MemoryManager) 1 (\<lambda>n. 16 * of_nat n + 16) of
          Inl e \<Rightarrow> False
        | Inr s \<Rightarrow>
           (case Seq_insert s MIN_KEY 7 of
              Some (Inr (True, s1)) \<Rightarrow>
                Seq_printSet s1 = Some (Inr [MIN_KEY, MIN_KEY, MAX_KEY])
                \<and> \<not> sorted_wrt (<) [MIN_KEY, MIN_KEY, MAX_KEY]
            | _ \<Rightarrow> False)))"
  by (simp add: Seq_eval)

text \<open>
  Claim C6 (amended). In the Sequential and the Link-Free set, in every state reached from
  the constructor by inserts of keys above \<open>MIN_KEY\<close>, removes of any key and
  \<open>contains\<close> calls of any key that return, one caller at a time, the traversal from head
  (\<open>printSet\<close>) yields strictly ascending keys, from \<open>MIN_KEY\<close> to \<open>MAX_KEY\<close>; in the
  Link-Free set it meets no marked node and leaves the state as it is. (\<open>contains\<close> of
  the Sequential set does not change the state.)
\<close>

theorem traversal_sorted:
  assumes "Seq_reachable (\<lambda>k. MIN_KEY < k) s" and "LF_reachable (\<lambda>k. MIN_KEY < k) l"
  shows "(\<exists>ks. Seq_printSet s = Some (Inr ks) \<and> sorted_wrt (<) ks
             \<and> hd ks = MIN_KEY \<and> last ks = MAX_KEY)
       \<and> (\<exists>ks. LF_printSet l = Some (Inr (ks, l)) \<and> sorted_wrt (<) ks
             \<and> hd ks = MIN_KEY \<and> last ks = MAX_KEY)"
  using Seq_printSet_sorted[OF assms(1)] LF_printSet_sorted[OF assms(2)] by simp

theorem traversal_sorted_witness:
  "\<exists>m s s1 l l1 l2. new_MemoryManager 1 1 = Inr (m :: int MemoryManager)
     \<and> new_SequentialDurableSet m 1 (\<lambda>n. 16 * of_nat n + 16) = Inr s
     \<and> Seq_insert s 5 7 = Some (Inr (True, s1))
     \<and> new_LinkFreeDurableSet m 1 [1] (\<lambda>n. 16 * of_nat n + 16) = Inr l
     \<and> LF_insert l 5 7 0 = Some (Inr (True, l1))
     \<and> LF_contains l1 5 = Some (Inr (True, l2))
     \<and> Seq_reachable (\<lambda>k. MIN_KEY < k) s1 \<and> LF_reachable (\<lambda>k. MIN_KEY < k) l2
     \<and> Seq_printSet s1 = Some (Inr [MIN_KEY, 5, MAX_KEY])
     \<and> LF_printSet l2 = Some (Inr ([MIN_KEY, 5, MAX_KEY], l2))
     \<and> (\<exists>ks. Seq_printSet s1 = Some (Inr ks) \<and> sorted_wrt (<) ks
             \<and> hd ks = MIN_KEY \<and> last ks = MAX_KEY)
     \<and> (\<exists>ks. LF_printSet l2 = Some (Inr (ks, l2)) \<and> sorted_wrt (<) ks
             \<and> hd ks = MIN_KEY \<and> last ks = MAX_KEY)"
proof -
  have "\<exists>(m :: int MemoryManager) s s1.
          new_MemoryManager 1 1 = Inr m
          \<and> new_SequentialDurableSet m 1 (\<lambda>n. 16 * of_nat n + 16) = Inr s
          \<and> Seq_insert s 5 7 = Some (Inr (True, s1))
          \<and> Seq_printSet s1 = Some (Inr [MIN_KEY, 5, MAX_KEY])"
    by (simp add: Seq_eval)
  then obtain m :: "int MemoryManager" and s s1 where
    a: "new_MemoryManager 1 1 = Inr m" and
    b: "new_SequentialDurableSet m 1 (\<lambda>n. 16 * of_nat n + 16) = Inr s" and
    c: "Seq_insert s 5 7 = Some (Inr (True, s1))" and
    d: "Seq_printSet s1 = Some (Inr [MIN_KEY, 5, MAX_KEY])"
    by blast
  from a have m: "m = \<lparr>numMemPoolSections = 1, memPoolSectionSize = 1,
                       memPool = [[new_MemCell]], freeListIndex = [0]\<rparr>"
    by (simp add: new_MemoryManager_def)
  have "\<exists>l l1 l2. new_LinkFreeDurableSet m 1 [1] (\<lambda>n. 16 * of_nat n + 16) = Inr l
          \<and> LF_insert l 5 7 0 = Some (Inr (True, l1))
          \<and> LF_contains l1 5 = Some (Inr (True, l2))
          \<and> LF_printSet l2 = Some (Inr ([MIN_KEY, 5, MAX_KEY], l2))"
    unfolding m by (simp add: LF_eval)
  then obtain l l1 l2 where
    e: "new_LinkFreeDurableSet m 1 [1] (\<lambda>n. 16 * of_nat n + 16) = Inr l" and
    f: "LF_insert l 5 7 0 = Some (Inr (True, l1))" and
    g: "LF_contains l1 5 = Some (Inr (True, l2))" and
    h: "LF_printSet l2 = Some (Inr ([MIN_KEY, 5, MAX_KEY], l2))"
    by blast
  have "Seq_reachable (\<lambda>k. MIN_KEY < k) s"
    by (rule Seq_reachable.fresh[OF b]) (rule valid_alloc_example)
  then have rs: "Seq_reachable (\<lambda>k. MIN_KEY < k) s1"
    by (rule Seq_reachable.after_insert[OF _ _ c]) (simp add: MIN_KEY_def)
  have "LF_reachable (\<lambda>k. MIN_KEY < k) l"
    by (rule LF_reachable.fresh[OF e]) (rule valid_alloc_one_writer)
  then have "LF_reachable (\<lambda>k. MIN_KEY < k) l1"
    by (rule LF_reachable.after_insert[OF _ _ f]) (simp add: MIN_KEY_def)
  then have rl: "LF_reachable (\<lambda>k. MIN_KEY < k) l2"
    by (rule LF_reachable.after_contains[OF _ g])
  from traversal_sorted[OF rs rl] a b c d e f g h rs rl show ?thesis by blast
qed

section \<open>Histories of the Lock set and the durable store\<close>









text \<open>The store keeps its dimensions, and the set its number of writers.\<close>

definition same_dims :: "'a MemoryManager \<Rightarrow> 'a MemoryManager \<Rightarrow> bool" where
  "same_dims m m' \<longleftrightarrow>
     numMemPoolSections m' = numMemPoolSections m \<and> memPoolSectionSize m' = memPoolSectionSize m"























section \<open>LinkFreeDurableSet: recover\<close>

text \<open>\<open>LinkFreeDurableSet::FREE\<close>\<close>

definition LF_FREE :: "'a LinkFreeDurableSet \<Rightarrow> error + 'a LinkFreeDurableSet" where
  "LF_FREE s =
     (case delete_node (LF_heap s) (LF_head s) of
        Inl e \<Rightarrow> Inl e
      | Inr h1 \<Rightarrow>
     (case delete_node h1 (LF_tail s) of
        Inl e \<Rightarrow> Inl e
      | Inr h2 \<Rightarrow>
     (case for_loop [0..<nat (LF_numIDs s)]
             (\<lambda>i hp.
                (case at (LF_maxIndices s) (int i) of
                   Inl e \<Rightarrow> Inl e
                 | Inr mx \<Rightarrow>
                     for_loop [0..<nat mx]
                       (\<lambda>j hp.
                          (case at (LF_preAllocatedNodes s) (int i) of
                             Inl e \<Rightarrow> Inl e
                           | Inr row \<Rightarrow>
                              (case at row (int j) of
                                 Inl e \<Rightarrow> Inl e
                               | Inr p \<Rightarrow> delete_node hp p)))
                       hp))
             h2 of
        Inl e \<Rightarrow> Inl e
      | Inr h3 \<Rightarrow> Inr (s\<lparr>LF_heap := h3\<rparr>))))"

text \<open>
  The loop of \<open>recover\<close> that records the keys of the volatile list,
  \<open>while (current->next.load() != nullptr)\<close>: the key of a marked node is left out.
\<close>

partial_function (option) LF_volatile_loop ::
  "(uintptr \<rightharpoonup> 'a LFNode) \<Rightarrow> uintptr \<Rightarrow> int list \<Rightarrow> (error + int list) option" where
  "LF_volatile_loop hp current acc =
     (case hp current of
        None \<Rightarrow> Some (Inl BadDeref)
      | Some c \<Rightarrow>
          if nnext c \<noteq> 0 then
            LF_volatile_loop hp (getNextRef c) (if \<not> isNextMarked c then acc @ [nkey c] else acc)
          else Some (Inr acc))"

text \<open>The loop of \<open>recover\<close> that sets \<open>allocIndices\<close> and \<open>maxIndices\<close>, for writer \<open>i\<close>.\<close>

definition LF_recover_indices ::
  "int list \<Rightarrow> int list \<Rightarrow> nat \<Rightarrow> int list \<times> int list \<Rightarrow> error + int list \<times> int list" where
  "LF_recover_indices writeOpsVector active i st =
     (case at writeOpsVector (int i) of
        Inl e \<Rightarrow> Inl e
      | Inr w \<Rightarrow>
         (case at active (int i) of
            Inl e \<Rightarrow> Inl e
          | Inr a \<Rightarrow>
             (case at (fst st) (int i) of
                Inl e \<Rightarrow> Inl e
              | Inr _ \<Rightarrow>
                 (case at (snd st) (int i) of
                    Inl e \<Rightarrow> Inl e
                  | Inr _ \<Rightarrow> Inr ((fst st)[i := w + a - 1], (snd st)[i := w + a])))))"

text \<open>The loop of \<open>recover\<close> that allocates the pools again, for writer \<open>i\<close>.\<close>

definition LF_recover_section ::
  "(nat \<Rightarrow> uintptr) \<Rightarrow> int list \<Rightarrow> int list \<Rightarrow> nat \<Rightarrow> ('a::zero) LF_build \<Rightarrow> error + 'a LF_build" where
  "LF_recover_section alloc writeOpsVector active i b =
     (case at writeOpsVector (int i) of
        Inl e \<Rightarrow> Inl e
      | Inr w \<Rightarrow>
         (case at active (int i) of
            Inl e \<Rightarrow> Inl e
          | Inr a \<Rightarrow>
              let numNodes = w + a in
              if numNodes < 0 then Inl LengthError
              else
                (case at (fb_pools b) (int i) of
                   Inl e \<Rightarrow> Inl e
                 | Inr _ \<Rightarrow>
                     for_loop [0..<nat numNodes] (LF_build_node alloc i)
                       (b\<lparr>fb_pools := (fb_pools b)[i := replicate (nat numNodes) 0]\<rparr>))))"

text \<open>The last loop of \<open>recover\<close>: the recovered cells are inserted again.\<close>

fun LF_reinsert ::
  "nat list \<Rightarrow> 'a scan \<Rightarrow> 'a LinkFreeDurableSet \<Rightarrow> (error + 'a LinkFreeDurableSet) option" where
  "LF_reinsert [] out s = Some (Inr s)"
| "LF_reinsert (i # is) out s =
     (case at (keys out) (int i) of
        Inl e \<Rightarrow> Some (Inl e)
      | Inr k \<Rightarrow>
     (case at (items out) (int i) of
        Inl e \<Rightarrow> Some (Inl e)
      | Inr it \<Rightarrow>
     (case at (durableAddressPrefixes out) (int i) of
        Inl e \<Rightarrow> Some (Inl e)
      | Inr p \<Rightarrow>
     (case LF_insert s k it p of
        None \<Rightarrow> None
      | Some (Inl e) \<Rightarrow> Some (Inl e)
      | Some (Inr (b, s')) \<Rightarrow> LF_reinsert is out s'))))"

text \<open>
  \<open>LinkFreeDurableSet::recover\<close>. The nodes created by \<open>new Node()\<close> during the call are
  at \<open>alloc 0\<close>, \<open>alloc 1\<close>, and so on.
\<close>

definition LF_recover ::
  "('a::zero) LinkFreeDurableSet \<Rightarrow> int list \<Rightarrow> (nat \<Rightarrow> uintptr) \<Rightarrow> (error + 'a LinkFreeDurableSet) option" where
  "LF_recover s writeOpsVector alloc =
     (if LF_numIDs s < 0 then Some (Inl LengthError)
      else
     (case recoverMemory (LF_mem s) [] [] [] (replicate (nat (LF_numIDs s)) 0) of
        Inl e \<Rightarrow> Some (Inl e)
      | Inr (numActiveNodes, out, m) \<Rightarrow>
     (case LF_heap s (LF_head s) of
        None \<Rightarrow> Some (Inl BadDeref)
      | Some hn \<Rightarrow>
     (case LF_volatile_loop (LF_heap s) (nnext hn) [] of
        None \<Rightarrow> None
      | Some (Inl e) \<Rightarrow> Some (Inl e)
      | Some (Inr volatile) \<Rightarrow>
     (case for_loop [0..<nat numActiveNodes]
             (\<lambda>i acc. (case at (keys out) (int i) of Inl e \<Rightarrow> Inl e | Inr k \<Rightarrow> Inr (acc @ [k])))
             [] of
        Inl e \<Rightarrow> Some (Inl e)
      | Inr durable \<Rightarrow>
     (case LF_FREE (s\<lparr>LF_mem := m, LF_keysVolatileRecovered := volatile,
                        LF_keysDurableRecovered := durable\<rparr>) of
        Inl e \<Rightarrow> Some (Inl e)
      | Inr s1 \<Rightarrow>
          let h = alloc 0;
              t = alloc 1;
              hp1 = (LF_heap s1)(h \<mapsto> new_LFNode);
              hp2 = hp1(t \<mapsto> new_LFNode);
              hp3 = (case hp2 h of None \<Rightarrow> hp2 | Some n \<Rightarrow> hp2(h \<mapsto> n\<lparr>nnext := t\<rparr>));
              hp4 = (case hp3 h of None \<Rightarrow> hp3 | Some n \<Rightarrow> hp3(h \<mapsto> n\<lparr>nkey := MIN_KEY\<rparr>));
              hp5 = (case hp4 t of None \<Rightarrow> hp4 | Some n \<Rightarrow> hp4(t \<mapsto> n\<lparr>nkey := MAX_KEY\<rparr>))
          in
     (case for_loop [0..<nat (LF_numIDs s1)]
             (LF_recover_indices writeOpsVector (activeNodes out))
             (LF_allocIndices s1, LF_maxIndices s1) of
        Inl e \<Rightarrow> Some (Inl e)
      | Inr (ai, mi) \<Rightarrow>
     (case for_loop [0..<nat (LF_numIDs s1)]
             (LF_recover_section alloc writeOpsVector (activeNodes out))
             \<lparr>fb_heap = hp5, fb_pools = LF_preAllocatedNodes s1, fb_news = 2\<rparr> of
        Inl e \<Rightarrow> Some (Inl e)
      | Inr b \<Rightarrow>
          LF_reinsert [0..<nat numActiveNodes] out
            (s1\<lparr>LF_heap := fb_heap b, LF_head := h, LF_tail := t,
                LF_preAllocatedNodes := fb_pools b,
                LF_allocIndices := ai, LF_maxIndices := mi\<rparr>)))))))))"


lemma LF_recover_empty_store:
  "\<exists>m s s1. new_MemoryManager 1 0 = Inr (m :: int MemoryManager)
     \<and> new_LinkFreeDurableSet m 1 [1] (\<lambda>n. 16 * of_nat n + 16) = Inr s
     \<and> LF_recover s [1] (\<lambda>n. 16 * of_nat n + 64) = Some (Inr s1)
     \<and> LF_printSet s1 = Some (Inr ([MIN_KEY, MAX_KEY], s1))"
  by (simp add: LF_eval LF_recover_def recoverMemory_def readResetMemory_def readReset_outer.simps
        readReset_inner.simps LF_volatile_loop.simps LF_FREE_def delete_node_def
        LF_recover_indices_def LF_recover_section_def)


section \<open>Histories of the Link-Free set and the durable store\<close>






lemma same_dims_refl [simp]: "same_dims m m"
  by (simp add: same_dims_def)

























section \<open>Recovery and the live cells\<close>



end
